(* ===== verification/Recovery_Prelude.thy ===== *)
theory Recovery_Prelude
  imports Main "HOL-Library.Word" "HOL-Library.Monad_Syntax" "HOL-Library.Product_Lexorder"
begin

text \<open>
  Shared vocabulary of the development: the machine integer types of the sources, the outcome type
  of code that can stop at a failed \<open>CHECK\<close>, the facts that carry word arithmetic to \<open>nat\<close>, generic
  facts on lists, decimal rendering (\<open>std::to_string\<close>, \<open>%zu\<close>) and the
  interface of the text helpers of libbase, which the sources call and which are not part of the
  repository.
\<close>

unbundle bit_operations_syntax

section \<open>Machine integers and outcomes\<close>

text \<open>
  The recovery is built for arm64: \<open>size_t\<close> has 64 bits, \<open>int\<close> has 32.
\<close>

type_synonym u8 = "8 word"
type_synonym u16 = "16 word"
type_synonym u32 = "32 word"
type_synonym u64 = "64 word"
type_synonym size_t = "64 word"
type_synonym bytes = "u8 list"

definition SIZE_MAX :: size_t where
  "SIZE_MAX = 18446744073709551615"

definition INT_MAX :: size_t where
  "INT_MAX = 2147483647"

text \<open>\<open>Abort\<close> is the process stopping at a failed \<open>CHECK\<close> of libbase.\<close>

datatype 'a checked = Abort | Ret 'a

named_theorems word_nat \<open>facts that carry machine arithmetic to natural numbers\<close>

lemma unat_add_nowrap [word_nat]:
  fixes a b :: "'a::len word"
  assumes "unat a + unat b < 2 ^ LENGTH('a)"
  shows "unat (a + b) = unat a + unat b"
  using assms by (simp add: unat_plus_if')

lemma unat_mult_nowrap [word_nat]:
  fixes a b :: "'a::len word"
  assumes "unat a * unat b < 2 ^ LENGTH('a)"
  shows "unat (a * b) = unat a * unat b"
  using assms by (simp add: unat_word_ariths)

lemma unat_sub_less [word_nat]:
  fixes a b :: "'a::len word"
  shows "a < b \<Longrightarrow> unat (b - a) = unat b - unat a"
  by (simp add: unat_sub)

lemmas [word_nat] = unat_sub unat_div word_less_nat_alt word_le_nat_alt

lemma unat_of_nat_small [word_nat]:
  "n < 2 ^ LENGTH('a) \<Longrightarrow> unat (of_nat n :: 'a::len word) = n"
  by (simp add: unat_of_nat)

lemma of_nat_even_word:
  "k < 18446744073709551616 \<Longrightarrow> even k \<Longrightarrow> (of_nat k :: u64) mod 2 = 0"
  by (simp add: word_unat_eq_iff unat_mod unat_of_nat_small)

lemma of_nat_pos_word: "k < 18446744073709551616 \<Longrightarrow> 0 < k \<Longrightarrow> (of_nat k :: u64) \<noteq> 0"
  by (simp add: word_unat_eq_iff unat_of_nat_small)

lemma unat_SIZE_MAX [simp]: "unat SIZE_MAX = 2 ^ 64 - 1"
  by (simp add: SIZE_MAX_def)

lemma unat_INT_MAX [simp]: "unat INT_MAX = 2 ^ 31 - 1"
  by (simp add: INT_MAX_def)

lemma unat_less_64: "unat (x :: 64 word) < 18446744073709551616"
  using unsigned_less [of x, where ?'a = nat] by simp

lemma unat_less_32: "unat (x :: 32 word) < 4294967296"
  using unsigned_less [of x, where ?'a = nat] by simp

lemma unat_less_8: "unat (x :: 8 word) < 256"
  using unsigned_less [of x, where ?'a = nat] by simp

lemma unat_less_16: "unat (x :: 16 word) < 65536"
  using unsigned_less [of x, where ?'a = nat] by simp

lemma unat_ucast_up [simp]:
  "unat (ucast (a :: 32 word) :: 64 word) = unat a"
  "unat (ucast (b :: 16 word) :: 64 word) = unat b"
  "unat (ucast (c :: 8 word) :: 64 word) = unat c"
  "unat (ucast (b :: 16 word) :: 32 word) = unat b"
  "unat (ucast (c :: 8 word) :: 32 word) = unat c"
  "unat (ucast (c :: 8 word) :: 16 word) = unat c"
  using unat_less_32 [of a] unat_less_16 [of b] unat_less_8 [of c]
  by (simp_all add: unsigned_ucast_eq take_bit_nat_eq_self_iff)

lemma unat_ucast_down_32 [word_nat]: "unat (ucast (x :: 64 word) :: 32 word) = unat x mod 4294967296"
  by (simp add: unsigned_ucast_eq take_bit_eq_mod)

lemma ucast_zero_iff_32 [simp]: "(ucast (x :: 32 word) :: 64 word) = 0 \<longleftrightarrow> x = 0"
  by (simp add: word_unat_eq_iff)

lemma ucast_ucast_32 [simp]: "(ucast (ucast (x :: 32 word) :: 64 word) :: 32 word) = x"
  using unat_less_32 [of x] by (simp add: word_unat_eq_iff unat_ucast_down_32)

section \<open>Lists\<close>

lemma take_upt_min: "take n [a..<b] = [a..<min (a + n) b]"
  by (rule nth_equalityI) auto

lemma take_drop_append_upt:
  assumes "c < e" "s < e" "e \<le> c + (b - a)" "length pre = c"
  shows "take (e - s) (drop s (pre @ [a..<b] @ ys)) = drop s pre @ [a + (s - c)..<a + (e - c)]"
proof -
  have "take (e - s) (drop s (pre @ [a..<b] @ ys)) = drop s (take e (pre @ [a..<b] @ ys))"
    by (rule drop_take [symmetric])
  also have "take e (pre @ [a..<b] @ ys) = pre @ [a..<a + (e - c)]"
    using assms by (auto simp: take_upt_min min_def)
  finally show ?thesis using assms by simp
qed

lemma sum_list_replicate_nat: "sum_list (replicate n (k::nat)) = n * k"
  by (simp add: sum_list_replicate)

section \<open>Decimal text\<close>

definition digit_char :: "nat \<Rightarrow> char" where
  "digit_char d = char_of (48 + d)"

fun to_dec :: "nat \<Rightarrow> string" where
  "to_dec n = (if n < 10 then [digit_char n] else to_dec (n div 10) @ [digit_char (n mod 10)])"

declare to_dec.simps [simp del]

text \<open>A signed number, as \<open>%d\<close> and \<open>std::to_string\<close> print it.\<close>

definition show_int :: "int \<Rightarrow> string" where
  "show_int x = (if x < 0 then CHR ''-'' # to_dec (nat (- x)) else to_dec (nat x))"

definition is_digit :: "char \<Rightarrow> bool" where
  "is_digit c = (48 \<le> (of_char c :: nat) \<and> (of_char c :: nat) \<le> 57)"

definition digit_val :: "char \<Rightarrow> nat" where
  "digit_val c = of_char c - 48"

definition dec_val :: "string \<Rightarrow> nat" where
  "dec_val s = foldl (\<lambda>v c. v * 10 + digit_val c) 0 s"

lemma digit_char_simps [simp]:
  assumes "d < 10"
  shows "is_digit (digit_char d)" and "digit_val (digit_char d) = d"
  using assms by (auto simp: digit_char_def is_digit_def digit_val_def)

lemma digit_char_eval:
  "digit_char 0 = CHR ''0''" "digit_char 1 = CHR ''1''" "digit_char 2 = CHR ''2''" "digit_char 3 = CHR ''3''"
  "digit_char 4 = CHR ''4''" "digit_char 5 = CHR ''5''" "digit_char 6 = CHR ''6''" "digit_char 7 = CHR ''7''"
  "digit_char 8 = CHR ''8''" "digit_char 9 = CHR ''9''" "digit_char (Suc 0) = CHR ''1''"
  by code_simp+

lemmas dec_eval = to_dec.simps digit_char_eval

lemma dec_val_snoc [simp]: "dec_val (s @ [c]) = dec_val s * 10 + digit_val c"
  by (simp add: dec_val_def)

lemma to_dec_digits: "list_all is_digit (to_dec n)"
proof (induction n rule: to_dec.induct)
  case (1 n)
  then show ?case by (subst to_dec.simps) simp
qed

lemma to_dec_not_Nil [simp]: "to_dec n \<noteq> []"
  by (subst to_dec.simps) simp

lemma dec_val_to_dec [simp]: "dec_val (to_dec n) = n"
proof (induction n rule: to_dec.induct)
  case (1 n)
  show ?case
  proof (cases "n < 10")
    case True
    then show ?thesis by (subst to_dec.simps) (simp add: dec_val_def)
  next
    case False
    then show ?thesis using 1 by (subst to_dec.simps) simp
  qed
qed

lemma comma_not_digit [simp]: "\<not> is_digit (CHR '','')"
  by (simp add: is_digit_def)

lemma to_dec_no_comma [simp]: "CHR '','' \<notin> set (to_dec n)"
  using to_dec_digits [of n] by (auto simp: list_all_iff)

section \<open>The text helpers of libbase\<close>

text \<open>
  \<open>android::base::Split\<close> and \<open>android::base::ParseUint\<close> are called by the sources and live outside the
  repository. The definitions that use them take them as arguments; this locale holds the documented
  behaviour the proofs rely on.
\<close>

fun join :: "char \<Rightarrow> string list \<Rightarrow> string" where
  "join c [] = []"
| "join c [p] = p"
| "join c (p # q # ps) = p @ c # join c (q # ps)"

locale libbase_text =
  fixes Split :: "string \<Rightarrow> char \<Rightarrow> string list"
    and ParseUint :: "string \<Rightarrow> u64 \<Rightarrow> u64 option"
  assumes Split_join: "ps \<noteq> [] \<Longrightarrow> list_all (\<lambda>p. c \<notin> set p) ps \<Longrightarrow> Split (join c ps) c = ps"
    and ParseUint_dec: "n \<le> unat m \<Longrightarrow> ParseUint (to_dec n) m = Some (of_nat n)"
    and ParseUint_max: "ParseUint s m = Some v \<Longrightarrow> v \<le> m"

text \<open>A reference instance for the decimal fragment of that behaviour.\<close>

fun split_on :: "string \<Rightarrow> char \<Rightarrow> string list" where
  "split_on [] c = [[]]"
| "split_on (x # xs) c =
     (if x = c then [] # split_on xs c
      else case split_on xs c of [] \<Rightarrow> [[x]] | p # ps \<Rightarrow> (x # p) # ps)"

definition dec_parse_uint :: "string \<Rightarrow> u64 \<Rightarrow> u64 option" where
  "dec_parse_uint s m =
     (if s \<noteq> [] \<and> list_all is_digit s \<and> dec_val s \<le> unat m then Some (of_nat (dec_val s)) else None)"

lemma split_on_no_sep: "c \<notin> set p \<Longrightarrow> split_on p c = [p]"
  by (induction p) auto

lemma split_on_append: "c \<notin> set p \<Longrightarrow> split_on (p @ c # s) c = p # split_on s c"
  by (induction p) auto

lemma split_on_join: "ps \<noteq> [] \<Longrightarrow> list_all (\<lambda>p. c \<notin> set p) ps \<Longrightarrow> split_on (join c ps) c = ps"
  by (induction c ps rule: join.induct) (auto simp: split_on_no_sep split_on_append)

interpretation dec_text: libbase_text split_on dec_parse_uint
proof unfold_locales
  fix s m v
  assume "dec_parse_uint s m = Some v"
  then have "dec_val s \<le> unat m" "v = of_nat (dec_val s)"
    by (auto simp: dec_parse_uint_def split: if_splits)
  moreover from this(1) have "dec_val s < 18446744073709551616"
    using unat_less_64 [of m] by (rule le_less_trans)
  ultimately show "v \<le> m"
    by (simp add: word_le_nat_alt unat_of_nat_small)
qed (auto simp: split_on_join dec_parse_uint_def to_dec_digits)

section \<open>Little-endian numbers\<close>

fun le_bytes :: "nat \<Rightarrow> nat \<Rightarrow> bytes" where
  "le_bytes 0 x = []"
| "le_bytes (Suc n) x = of_nat (x mod 256) # le_bytes n (x div 256)"

fun le_val :: "bytes \<Rightarrow> nat" where
  "le_val [] = 0"
| "le_val (b # bs) = unat b + 256 * le_val bs"

lemma length_le_bytes [simp]: "length (le_bytes n x) = n"
  by (induction n arbitrary: x) simp_all

lemma le_val_le_bytes: "le_val (le_bytes n x) = x mod 256 ^ n"
proof (induction n arbitrary: x)
  case (Suc n)
  have "le_val (le_bytes (Suc n) x) = x mod 256 + 256 * (x div 256 mod 256 ^ n)"
    using Suc by (simp add: unat_of_nat_small)
  also have "\<dots> = x mod (256 * 256 ^ n)" by (simp add: mod_mult2_eq)
  finally show ?case by simp
qed simp

lemma le_word [simp]:
  "of_nat (le_val (le_bytes 4 (unat (w :: u32)))) = w" "of_nat (le_val (le_bytes 8 (unat (v :: u64)))) = v"
  using unat_less_32 [of w] unat_less_64 [of v] by (simp_all add: le_val_le_bytes)

lemma le_val_less: "le_val bs < 256 ^ length bs"
proof (induction bs)
  case (Cons b bs)
  have "unat b < 256" by (rule unat_less_8)
  then show ?case using Cons by simp
qed simp

lemma le_val_inject: "length u = length v \<Longrightarrow> le_val u = le_val v \<longleftrightarrow> u = v"
proof (induction u v rule: list_induct2)
  case (Cons a u b v)
  have small: "unat a < 256" "unat b < 256" by (rule unat_less_8)+
  have "unat a = unat b \<and> le_val u = le_val v" if "unat a + 256 * le_val u = unat b + 256 * le_val v"
    using arg_cong [OF that, of "\<lambda>x. x mod 256"] arg_cong [OF that, of "\<lambda>x. x div 256"] small by simp
  then show ?case using Cons by (auto simp: word_unat_eq_iff)
qed simp

end
