(* ===== verification/Range_Set.thy ===== *)
theory Range_Set
  imports Recovery_Prelude
begin

text \<open>
  The class \<open>RangeSet\<close> of \<open>otautil/rangeset.cpp\<close>: an ordered list of half-open block ranges with a
  running block count. The first section holds the class, method by method, over 64-bit words; the
  second gives the list of blocks a set stands for and the class invariant; the others show what each
  method computes on that list. The last section states the interface the block-map readers use and
  shows that \<open>RangeSet\<close> provides it.
\<close>

section \<open>The class and its methods\<close>

text \<open>The fields \<open>ranges_\<close> and \<open>blocks_\<close>.\<close>

type_synonym range = "size_t \<times> size_t"

record range_set =
  rs_ranges :: "range list"
  rs_blocks :: size_t

definition RangeSet_empty :: range_set where
  "RangeSet_empty = \<lparr>rs_ranges = [], rs_blocks = 0\<rparr>"

definition PushBack :: "range_set \<Rightarrow> range \<Rightarrow> bool \<times> range_set" where
  "PushBack rs r =
     (if fst r \<ge> snd r then (False, rs)
      else let sz = snd r - fst r in
        if rs_blocks rs \<ge> SIZE_MAX - sz then (False, rs)
        else (True, rs\<lparr>rs_ranges := rs_ranges rs @ [r], rs_blocks := rs_blocks rs + sz\<rparr>))"

definition Clear :: "range_set \<Rightarrow> range_set" where
  "Clear rs = rs\<lparr>rs_ranges := [], rs_blocks := 0\<rparr>"

text \<open>The constructor from a vector of pairs: the first range \<open>PushBack\<close> refuses clears the set.\<close>

fun push_all :: "range_set \<Rightarrow> range list \<Rightarrow> range_set" where
  "push_all rs [] = rs"
| "push_all rs (r # pairs) =
     (case PushBack rs r of (True, rs') \<Rightarrow> push_all rs' pairs | (False, rs') \<Rightarrow> Clear rs')"

definition RangeSet_of :: "range list \<Rightarrow> range_set" where
  "RangeSet_of pairs = (if pairs = [] then RangeSet_empty else push_all RangeSet_empty pairs)"

text \<open>
  \<open>Parse\<close>: \<open>Split\<close> and \<open>ParseUint\<close> are those of libbase. The token count has been compared with the
  number of pieces before \<open>parse_pairs\<close> runs, so the loop over \<open>i\<close> never leaves the vector.
\<close>

fun parse_pairs :: "(string \<Rightarrow> u64 \<Rightarrow> u64 option) \<Rightarrow> string list \<Rightarrow> range list option" where
  "parse_pairs ParseUint (a # b # pieces) =
     (case ParseUint a INT_MAX of None \<Rightarrow> None
      | Some first \<Rightarrow> (case ParseUint b INT_MAX of None \<Rightarrow> None
        | Some second \<Rightarrow> map_option (Cons (first, second)) (parse_pairs ParseUint pieces)))"
| "parse_pairs ParseUint _ = Some []"

definition RangeSet_Parse ::
  "(string \<Rightarrow> char \<Rightarrow> string list) \<Rightarrow> (string \<Rightarrow> u64 \<Rightarrow> u64 option) \<Rightarrow> string \<Rightarrow> range_set" where
  "RangeSet_Parse Split ParseUint range_text =
     (case Split range_text (CHR '','') of
        head # x # y # pieces \<Rightarrow>
          (case ParseUint head INT_MAX of
             None \<Rightarrow> RangeSet_empty
           | Some num \<Rightarrow>
               if num = 0 then RangeSet_empty
               else if num mod 2 \<noteq> 0 then RangeSet_empty
               else if num \<noteq> of_nat (length (x # y # pieces)) then RangeSet_empty
               else (case parse_pairs ParseUint (x # y # pieces) of
                       None \<Rightarrow> RangeSet_empty
                     | Some pairs \<Rightarrow> RangeSet_of pairs))
      | _ \<Rightarrow> RangeSet_empty)"

definition RangeSet_ToString :: "range_set \<Rightarrow> string" where
  "RangeSet_ToString rs =
     (if rs_ranges rs = [] then []
      else to_dec (length (rs_ranges rs) * 2) @
        concat (map (\<lambda>(begin, end). '','' @ to_dec (unat begin) @ '','' @ to_dec (unat end)) (rs_ranges rs)))"

text \<open>
  \<open>Split\<close>: the inner \<open>while\<close> loop that fills one group. \<open>it\<close> is what the iterator still has in front of
  it, \<open>rng\<close> the (possibly shortened) current range. \<open>None\<close> is the iterator moving past the end, which
  the C++ code must never do.
\<close>

fun Split_fill :: "size_t \<Rightarrow> range \<Rightarrow> range list \<Rightarrow> range_set \<Rightarrow> (range_set \<times> range \<times> range list) option" where
  "Split_fill needed rng it buffer =
     (if needed > 0 then
        let range_blocks = snd rng - fst rng in
        if range_blocks > needed then
          Some (snd (PushBack buffer (fst rng, fst rng + needed)), (fst rng + needed, snd rng), it)
        else
          (let buffer = snd (PushBack buffer rng) in
           case it of
             [] \<Rightarrow> None
           | _ # it' \<Rightarrow> Split_fill (needed - range_blocks) (case it' of [] \<Rightarrow> rng | r # _ \<Rightarrow> r) it' buffer)
      else Some (buffer, rng, it))"

declare Split_fill.simps [simp del]

fun Split_groups :: "size_t list \<Rightarrow> range \<Rightarrow> range list \<Rightarrow> range_set list option" where
  "Split_groups [] rng it = Some []"
| "Split_groups (blocks # groups) rng it =
     (case Split_fill blocks rng it RangeSet_empty of
        None \<Rightarrow> None
      | Some (buffer, rng', it') \<Rightarrow> map_option (Cons buffer) (Split_groups groups rng' it'))"

definition RangeSet_Split :: "range_set \<Rightarrow> size_t \<Rightarrow> range_set list option" where
  "RangeSet_Split rs groups =
     (if rs_ranges rs = [] \<or> groups = 0 then Some []
      else
        let groups = (if rs_blocks rs < groups then rs_blocks rs else groups);
            mean = rs_blocks rs div groups;
            extra = unat (rs_blocks rs mod groups);
            blocks_per_group = replicate extra (mean + 1) @ replicate (unat groups - extra) mean
        in Split_groups blocks_per_group (hd (rs_ranges rs)) (rs_ranges rs))"

text \<open>\<open>GetBlockNumber\<close>: a failed \<open>CHECK\<close> is \<open>Abort\<close>.\<close>

fun block_number_loop :: "size_t \<Rightarrow> range list \<Rightarrow> size_t checked" where
  "block_number_loop idx [] = Abort"
| "block_number_loop idx ((begin, end) # rest) =
     (if idx < end - begin then Ret (begin + idx) else block_number_loop (idx - (end - begin)) rest)"

definition GetBlockNumber :: "range_set \<Rightarrow> size_t \<Rightarrow> size_t checked" where
  "GetBlockNumber rs idx = (if idx < rs_blocks rs then block_number_loop idx (rs_ranges rs) else Abort)"

definition Overlaps :: "range_set \<Rightarrow> range_set \<Rightarrow> bool" where
  "Overlaps rs other =
     list_ex (\<lambda>(begin, end).
       list_ex (\<lambda>(other_begin, other_end). \<not> (other_begin \<ge> end \<or> begin \<ge> other_end)) (rs_ranges other))
     (rs_ranges rs)"

text \<open>\<open>GetSubRanges\<close>: \<open>Ret None\<close> is \<open>std::nullopt\<close>.\<close>

fun sub_ranges_loop ::
  "size_t \<Rightarrow> size_t \<Rightarrow> size_t \<Rightarrow> range_set \<Rightarrow> range list \<Rightarrow> range_set option checked" where
  "sub_ranges_loop start_index end_index current_index result [] = Ret None"
| "sub_ranges_loop start_index end_index current_index result ((range_start, range_end) # rest) =
     (if \<not> range_start < range_end then Abort
      else
        let blocks_in_range = range_end - range_start in
        if current_index + blocks_in_range \<le> start_index
        then sub_ranges_loop start_index end_index (current_index + blocks_in_range) result rest
        else
          let trimmed_range_start =
                (if current_index < start_index then range_start + (start_index - current_index)
                 else range_start) in
          if current_index + blocks_in_range \<ge> end_index then
            let trimmed_range_end = range_end - (current_index + blocks_in_range - end_index) in
            (case PushBack result (trimmed_range_start, trimmed_range_end) of
               (False, _) \<Rightarrow> Ret None
             | (True, result') \<Rightarrow> Ret (Some result'))
          else
            (case PushBack result (trimmed_range_start, range_end) of
               (False, _) \<Rightarrow> Ret None
             | (True, result') \<Rightarrow>
                 sub_ranges_loop start_index end_index (current_index + blocks_in_range) result' rest))"

definition GetSubRanges :: "range_set \<Rightarrow> size_t \<Rightarrow> size_t \<Rightarrow> range_set option checked" where
  "GetSubRanges rs start_index num_of_blocks =
     (let end_index = start_index + num_of_blocks in
      if start_index > end_index \<or> end_index > rs_blocks rs then Ret None
      else if num_of_blocks = 0 then Ret (Some RangeSet_empty)
      else sub_ranges_loop start_index end_index 0 RangeSet_empty (rs_ranges rs))"

section \<open>The blocks a range set stands for\<close>

definition blocks_of :: "range list \<Rightarrow> nat list" where
  "blocks_of rr = concat (map (\<lambda>(a, b). [unat a..<unat b]) rr)"

definition block_list :: "range_set \<Rightarrow> nat list" where
  "block_list rs = blocks_of (rs_ranges rs)"

text \<open>
  The class invariant: every range is non-empty and \<open>blocks_\<close> is the exact number of blocks, which
  \<open>PushBack\<close> keeps below \<open>SIZE_MAX\<close>.
\<close>

definition rs_inv :: "range_set \<Rightarrow> bool" where
  "rs_inv rs = (list_all (\<lambda>(a, b). a < b) (rs_ranges rs) \<and>
     unat (rs_blocks rs) = length (block_list rs) \<and> length (block_list rs) < 2 ^ 64 - 1)"

text \<open>The blocks \<open>Split\<close> has not handed out yet, and the number tokens of \<open>ToString\<close>.\<close>

definition pending :: "range \<Rightarrow> range list \<Rightarrow> nat list" where
  "pending rng it = (case it of [] \<Rightarrow> [] | _ # it' \<Rightarrow> blocks_of (rng # it'))"

definition range_pieces :: "range list \<Rightarrow> string list" where
  "range_pieces rr = concat (map (\<lambda>(a, b). [to_dec (unat a), to_dec (unat b)]) rr)"

lemma blocks_of_simps [simp]:
  "blocks_of [] = []"
  "blocks_of ((a, b) # rr) = [unat a..<unat b] @ blocks_of rr"
  "blocks_of (rr @ rr') = blocks_of rr @ blocks_of rr'"
  by (simp_all add: blocks_of_def)

lemma blocks_of_Nil_iff:
  "list_all (\<lambda>(a, b). a < b) rr \<Longrightarrow> blocks_of rr = [] \<longleftrightarrow> rr = []"
  by (cases rr) (auto simp: word_less_nat_alt)

lemma rs_inv_empty [simp]: "rs_inv RangeSet_empty" "block_list RangeSet_empty = []"
  by (simp_all add: rs_inv_def RangeSet_empty_def block_list_def)

lemma RangeSet_empty_ranges [simp]: "rs_ranges RangeSet_empty = []"
  by (simp add: RangeSet_empty_def)

lemma rs_inv_blocks: "rs_inv rs \<Longrightarrow> length (block_list rs) = unat (rs_blocks rs)"
  by (simp add: rs_inv_def)

lemma PushBack_True_iff:
  assumes "rs_inv rs"
  shows "fst (PushBack rs (a, b)) \<longleftrightarrow> a < b \<and> length (block_list rs) + (unat b - unat a) < 2 ^ 64 - 1"
proof (cases "a < b")
  case True
  then have sz: "unat (b - a) = unat b - unat a"
    by (simp add: unat_sub)
  have "b - a \<le> SIZE_MAX"
    using unat_less_64 [of "b - a"] by (simp add: word_le_nat_alt)
  then have "unat (SIZE_MAX - (b - a)) = 2 ^ 64 - 1 - (unat b - unat a)"
    using sz by (simp add: unat_sub)
  then show ?thesis
    using True assms
    by (auto simp: PushBack_def Let_def rs_inv_def word_le_nat_alt word_less_nat_alt not_le)
qed (auto simp: PushBack_def not_less)

lemma PushBack_blocks:
  assumes "rs_inv rs" and "PushBack rs (a, b) = (True, rs')"
  shows "rs_inv rs' \<and> block_list rs' = block_list rs @ [unat a..<unat b] \<and>
    rs_ranges rs' = rs_ranges rs @ [(a, b)]"
proof -
  have ok: "a < b" "length (block_list rs) + (unat b - unat a) < 2 ^ 64 - 1"
    using PushBack_True_iff [OF assms(1), of a b] assms(2) by auto
  then have "unat (rs_blocks rs + (b - a)) = length (block_list rs) + (unat b - unat a)"
    using rs_inv_blocks [OF assms(1)] by (simp add: word_nat)
  then show ?thesis
    using assms ok
    by (auto simp: PushBack_def Let_def rs_inv_def block_list_def split: if_splits)
qed

lemma PushBack_ok:
  assumes "rs_inv rs" "a < b" "length (block_list rs) + (unat b - unat a) < 2 ^ 64 - 1"
  obtains rs' where "PushBack rs (a, b) = (True, rs')" "rs_inv rs'"
    "block_list rs' = block_list rs @ [unat a..<unat b]"
proof -
  have "fst (PushBack rs (a, b))"
    using assms PushBack_True_iff by blast
  then obtain rs' where "PushBack rs (a, b) = (True, rs')"
    by (metis prod.collapse)
  then show thesis
    using that PushBack_blocks [OF assms(1)] by blast
qed

lemma PushBack_False: "PushBack rs r = (False, rs') \<Longrightarrow> rs' = rs"
  by (auto simp: PushBack_def Let_def split: if_splits)

lemma block_number_loop_nth:
  assumes "list_all (\<lambda>(a, b). a < b) rr" and "unat idx < length (blocks_of rr)"
  shows "block_number_loop idx rr = Ret (of_nat (blocks_of rr ! unat idx))"
  using assms
proof (induction idx rr rule: block_number_loop.induct)
  case (2 idx a b rest)
  then have sz: "unat (b - a) = unat b - unat a"
    by (simp add: unat_sub_less)
  show ?case
  proof (cases "idx < b - a")
    case True
    then show ?thesis using sz by (simp add: word_less_nat_alt nth_append)
  next
    case False
    then have "unat (idx - (b - a)) = unat idx - (unat b - unat a)"
      using sz by (simp add: unat_sub)
    then show ?thesis using 2 False sz
      by (simp add: word_less_nat_alt nth_append)
  qed
qed simp

lemma sub_ranges_loop_skip:
  "a < b \<Longrightarrow> cur + (b - a) \<le> s \<Longrightarrow>
     sub_ranges_loop s e cur result ((a, b) # rest) = sub_ranges_loop s e (cur + (b - a)) result rest"
  by (simp add: Let_def)

lemma sub_ranges_loop_last:
  "a < b \<Longrightarrow> \<not> cur + (b - a) \<le> s \<Longrightarrow> e \<le> cur + (b - a) \<Longrightarrow>
     ts = (if cur < s then a + (s - cur) else a) \<Longrightarrow> te = b - (cur + (b - a) - e) \<Longrightarrow>
     PushBack result (ts, te) = (True, r) \<Longrightarrow>
     sub_ranges_loop s e cur result ((a, b) # rest) = Ret (Some r)"
  by (simp only: sub_ranges_loop.simps Let_def if_False if_True not_True_eq_False not_False_eq_True
      prod.case bool.case)

lemma sub_ranges_loop_push:
  "a < b \<Longrightarrow> \<not> cur + (b - a) \<le> s \<Longrightarrow> \<not> e \<le> cur + (b - a) \<Longrightarrow>
     ts = (if cur < s then a + (s - cur) else a) \<Longrightarrow> PushBack result (ts, b) = (True, r) \<Longrightarrow>
     sub_ranges_loop s e cur result ((a, b) # rest) = sub_ranges_loop s e (cur + (b - a)) r rest"
  by (simp only: sub_ranges_loop.simps Let_def if_False if_True not_True_eq_False not_False_eq_True
      prod.case bool.case)

declare sub_ranges_loop.simps(2) [simp del]

lemma trimmed_start:
  fixes a b s cur ts :: size_t
  assumes "unat s < unat cur + (unat b - unat a)" "unat a < unat b"
    and "ts = (if cur < s then a + (s - cur) else a)"
  shows "unat ts = unat a + (unat s - unat cur)"
proof (cases "cur < s")
  case True
  then have "unat (s - cur) = unat s - unat cur" by (simp add: unat_sub_less)
  moreover have "unat a + (unat s - unat cur) < 18446744073709551616"
    using assms(1,2) unat_less_64 [of b] by linarith
  ultimately show ?thesis using True assms(3) unat_add_nowrap [of a "s - cur"] by simp
qed (use assms in \<open>simp add: word_less_nat_alt\<close>)

lemma trimmed_end:
  fixes a b cur nxt e te :: size_t
  assumes "unat nxt = unat cur + (unat b - unat a)" "unat a < unat b"
    and "unat cur < unat e" "e \<le> nxt" "te = b - (nxt - e)"
  shows "unat te = unat a + (unat e - unat cur)"
proof -
  have e: "unat e \<le> unat nxt" using assms(4) by (simp add: word_le_nat_alt)
  have d: "unat (nxt - e) = unat cur + (unat b - unat a) - unat e"
    using assms(1,4) by (simp add: unat_sub)
  then have "nxt - e \<le> b"
    using assms(1-3) e by (simp add: word_le_nat_alt)
  then show ?thesis
    using assms(1-3) e d unat_sub [of "nxt - e" b] unfolding assms(5) by linarith
qed

lemma sub_ranges_loop_spec:
  assumes "list_all (\<lambda>(a, b). a < b) rest"
    and "length pre = unat cur" "unat s < unat e" "unat cur < unat e"
    and "unat e \<le> length (pre @ blocks_of rest)" "length (pre @ blocks_of rest) < 2 ^ 64 - 1"
    and "rs_inv result" "block_list result = drop (unat s) pre"
  shows "\<exists>r. sub_ranges_loop s e cur result rest = Ret (Some r) \<and> rs_inv r \<and>
    block_list r = take (unat e - unat s) (drop (unat s) (pre @ blocks_of rest))"
  using assms
proof (induction rest arbitrary: pre cur result)
  case Nil
  then show ?case by simp
next
  case (Cons r rest)
  obtain a b where r: "r = (a, b)" by (cases r)
  let ?pre = "pre @ [unat a..<unat b]"
  define nxt where "nxt = cur + (b - a)"
  define ts where "ts = (if cur < s then a + (s - cur) else a)"
  have ab: "a < b" and valid: "list_all (\<lambda>(a, b). a < b) rest" and lt: "unat a < unat b"
    using Cons.prems(1) r by (auto simp: word_less_nat_alt)
  have nxt: "unat nxt = unat cur + (unat b - unat a)"
    unfolding nxt_def using Cons.prems(2,6) r unat_sub_less [OF ab] by (simp add: unat_add_nowrap)
  have len': "length ?pre = unat nxt" and split: "pre @ blocks_of (r # rest) = ?pre @ blocks_of rest"
    using Cons.prems(2) nxt r by simp_all
  note step = Cons.IH [OF valid len' Cons.prems(3) _ Cons.prems(5,6) [unfolded split]]
  show ?case
  proof (cases "nxt \<le> s")
    case True
    then have "block_list result = drop (unat s) ?pre" "unat nxt < unat e"
      using Cons.prems(2,3,8) nxt by (simp_all add: word_le_nat_alt)
    from step [OF this(2) Cons.prems(7) this(1)] show ?thesis
      unfolding split r using sub_ranges_loop_skip [OF ab] True by (simp add: nxt_def)
  next
    case False
    then have s_lt: "unat s < unat cur + (unat b - unat a)"
      using nxt by (simp add: word_le_nat_alt)
    note ts = trimmed_start [OF s_lt lt ts_def]
    show ?thesis
    proof (cases "e \<le> nxt")
      case True
      define te where "te = b - (nxt - e)"
      have e_le: "unat e \<le> unat cur + (unat b - unat a)"
        using True nxt by (simp add: word_le_nat_alt)
      note te = trimmed_end [OF nxt lt Cons.prems(4) True te_def]
      note eq = take_drop_append_upt [OF Cons.prems(4,3) e_le Cons.prems(2), of "blocks_of rest"]
      have "ts < te"
        using Cons.prems(3,4) s_lt e_le ts te unfolding word_less_nat_alt by linarith
      moreover have "length (block_list result) + (unat te - unat ts) \<le> unat e"
        using Cons.prems(2,3,4,8) ts te by simp
      ultimately obtain r' where r': "PushBack result (ts, te) = (True, r')" "rs_inv r'"
          "block_list r' = block_list result @ [unat ts..<unat te]"
        using PushBack_ok [OF Cons.prems(7), of ts te] Cons.prems(5,6) by force
      moreover have "sub_ranges_loop s e cur result (r # rest) = Ret (Some r')"
        unfolding r using sub_ranges_loop_last [OF ab _ _ ts_def te_def [unfolded nxt_def] r'(1)] False True
        by (simp add: nxt_def)
      ultimately show ?thesis
        using eq Cons.prems(8) ts te r by simp
    next
      case e_gt: False
      have "ts < b"
        using s_lt lt ts unfolding word_less_nat_alt by linarith
      moreover have "length (block_list result) + (unat b - unat ts) < 2 ^ 64 - 1"
        using Cons.prems(2,6,8) ts s_lt r by simp
      ultimately obtain r' where r': "PushBack result (ts, b) = (True, r')" "rs_inv r'"
          "block_list r' = drop (unat s) ?pre"
        using PushBack_ok [OF Cons.prems(7), of ts b] ts Cons.prems(2,8) by auto
      moreover have "sub_ranges_loop s e cur result (r # rest) = sub_ranges_loop s e nxt r' rest"
        unfolding r using sub_ranges_loop_push [OF ab _ _ ts_def r'(1)] False e_gt by (simp add: nxt_def)
      ultimately show ?thesis
        using step [of r'] e_gt unfolding split by (simp add: word_le_nat_alt)
    qed
  qed
qed

lemma GetSubRanges_Some:
  assumes "rs_inv rs" "unat s + unat n \<le> length (block_list rs)"
  shows "\<exists>r. GetSubRanges rs s n = Ret (Some r) \<and> rs_inv r \<and>
    block_list r = take (unat n) (drop (unat s) (block_list rs))"
proof -
  define e where "e = s + n"
  have len: "length (block_list rs) < 2 ^ 64 - 1" "unat (rs_blocks rs) = length (block_list rs)"
      "list_all (\<lambda>(a, b). a < b) (rs_ranges rs)"
    using assms(1) by (simp_all add: rs_inv_def)
  then have e: "unat e = unat s + unat n"
    using assms(2) unfolding e_def by (simp add: unat_add_nowrap)
  then have guard: "\<not> (s > e \<or> e > rs_blocks rs)"
    using len assms(2) by (simp add: word_less_nat_alt)
  show ?thesis
  proof (cases "n = 0")
    case True
    then show ?thesis using guard unfolding GetSubRanges_def e_def by simp
  next
    case False
    then have "unat s < unat e" using e by (simp add: unat_gt_0)
    then have "\<exists>r. sub_ranges_loop s e 0 RangeSet_empty (rs_ranges rs) = Ret (Some r) \<and> rs_inv r \<and>
        block_list r = take (unat e - unat s) (drop (unat s) ([] @ blocks_of (rs_ranges rs)))"
      using assms len e by (intro sub_ranges_loop_spec) (simp_all flip: block_list_def)
    then show ?thesis
      using guard False e unfolding GetSubRanges_def e_def [symmetric] by (simp add: block_list_def)
  qed
qed

lemma GetSubRanges_None:
  assumes "rs_inv rs" "\<not> unat s + unat n \<le> length (block_list rs)"
  shows "GetSubRanges rs s n = Ret None"
proof -
  have "s > s + n \<or> s + n > rs_blocks rs"
    using assms unat_less_64 [of n] by (simp add: rs_inv_def word_less_nat_alt unat_plus_if') linarith
  then show ?thesis by (auto simp: GetSubRanges_def)
qed

lemma GetBlockNumber_nth:
  assumes "rs_inv rs" "unat i < length (block_list rs)"
  shows "GetBlockNumber rs i = Ret (of_nat (block_list rs ! unat i))"
  using assms block_number_loop_nth [of "rs_ranges rs" i]
  by (auto simp: GetBlockNumber_def rs_inv_def block_list_def word_less_nat_alt)

section \<open>Splitting\<close>

lemma Split_fill_spec:
  assumes "list_all (\<lambda>(a, b). a < b) it" "it \<noteq> [] \<Longrightarrow> fst rng < snd rng"
    and "R = pending rng it"
    and "unat needed \<le> length R"
    and "rs_inv buffer" "length (block_list buffer) + unat needed < 2 ^ 64 - 1"
  shows "\<exists>buffer' rng' it'. Split_fill needed rng it buffer = Some (buffer', rng', it') \<and>
     rs_inv buffer' \<and> block_list buffer' = block_list buffer @ take (unat needed) R \<and>
     list_all (\<lambda>(a, b). a < b) it' \<and> (it' \<noteq> [] \<longrightarrow> fst rng' < snd rng') \<and>
     pending rng' it' = drop (unat needed) R"
  using assms
proof (induction needed rng it buffer arbitrary: R rule: Split_fill.induct)
  case (1 needed rng it buffer)
  show ?case
  proof (cases "needed > 0")
    case False
    then have "needed = 0" by (simp add: word_greater_zero_iff)
    then show ?thesis using "1.prems" by (subst Split_fill.simps) simp
  next
    case True
    then have "unat needed > 0" by (simp add: word_less_nat_alt)
    with "1.prems" obtain r it' where it: "it = r # it'" by (cases it) (auto simp: pending_def)
    obtain a b where rng: "rng = (a, b)" by (cases rng)
    have ab: "a < b" using "1.prems"(2) it rng by simp
    then have lt: "unat a < unat b" and n: "unat (b - a) = unat b - unat a"
      by (simp_all add: word_less_nat_alt unat_sub_less)
    have R: "R = [unat a..<unat b] @ blocks_of it'" using "1.prems"(3) it rng by (simp add: pending_def)
    show ?thesis
    proof (cases "b - a > needed")
      case T2: True
      then have d: "unat needed < unat b - unat a" using n by (simp add: word_less_nat_alt)
      have an: "unat (a + needed) = unat a + unat needed"
        using d unat_less_64 [of b] by (simp add: unat_add_nowrap)
      have "a < a + needed"
        using an \<open>unat needed > 0\<close> by (simp add: word_less_nat_alt)
      then obtain r' where r': "PushBack buffer (a, a + needed) = (True, r')" "rs_inv r'"
          "block_list r' = block_list buffer @ [unat a..<unat (a + needed)]"
        using PushBack_ok [OF "1.prems"(5), of a "a + needed"] an "1.prems"(6) by auto
      have "a + needed < b" using an d by (simp add: word_less_nat_alt)
      then show ?thesis
        using True T2 R d an "1.prems"(1) it r'
        by (subst Split_fill.simps)
          (simp add: rng Let_def take_upt_min min_def pending_def)
    next
      case F2: False
      then have d: "unat b - unat a \<le> unat needed" using n by (simp add: word_less_nat_alt)
      have needed': "unat (needed - (b - a)) = unat needed - (unat b - unat a)"
        using F2 n by (simp add: unat_sub)
      obtain r' where r': "PushBack buffer (a, b) = (True, r')" and pb: "rs_inv r'"
          "block_list r' = block_list buffer @ [unat a..<unat b]"
        using PushBack_ok [OF "1.prems"(5) ab] d "1.prems"(6) by auto
      let ?rng = "case it' of [] \<Rightarrow> rng | r # _ \<Rightarrow> r"
      have R': "pending ?rng it' = blocks_of it'" by (cases it') (auto simp: pending_def)
      have valid: "list_all (\<lambda>(a, b). a < b) it'" using "1.prems"(1) it by simp
      have vrng: "it' \<noteq> [] \<Longrightarrow> fst ?rng < snd ?rng" using valid by (cases it') auto
      have len: "unat (needed - (b - a)) \<le> length (pending ?rng it')"
        using "1.prems"(4) R R' needed' by simp
      have bound: "length (block_list r') + unat (needed - (b - a)) < 2 ^ 64 - 1"
        using "1.prems"(6) pb needed' d by simp
      have "\<exists>buffer' rng' it''. Split_fill (needed - (b - a)) ?rng it' r' = Some (buffer', rng', it'') \<and>
         rs_inv buffer' \<and> block_list buffer' = block_list r' @ take (unat (needed - (b - a))) (pending ?rng it') \<and>
         list_all (\<lambda>(a, b). a < b) it'' \<and> (it'' \<noteq> [] \<longrightarrow> fst rng' < snd rng') \<and>
         pending rng' it'' = drop (unat (needed - (b - a))) (pending ?rng it')"
        by (rule "1.IH" [OF True _ _ _ it valid vrng refl len _ bound]) (use F2 rng r' pb in simp_all)
      then show ?thesis
        using True F2 pb d unfolding R' needed' it R unfolding rng
        by (subst Split_fill.simps) (simp add: Let_def r')
    qed
  qed
qed
 
lemma Split_groups_spec:
  assumes "list_all (\<lambda>(a, b). a < b) it" "it \<noteq> [] \<longrightarrow> fst rng < snd rng"
    and "sum_list (map unat groups) = length (pending rng it)" "length (pending rng it) < 2 ^ 64 - 1"
  shows "\<exists>gs. Split_groups groups rng it = Some gs \<and> concat (map block_list gs) = pending rng it \<and>
    map (length \<circ> block_list) gs = map unat groups \<and> list_all rs_inv gs"
  using assms
proof (induction groups arbitrary: rng it)
  case (Cons g groups)
  have "\<exists>buffer' rng' it'. Split_fill g rng it RangeSet_empty = Some (buffer', rng', it') \<and>
     rs_inv buffer' \<and> block_list buffer' = block_list RangeSet_empty @ take (unat g) (pending rng it) \<and>
     list_all (\<lambda>(a, b). a < b) it' \<and> (it' \<noteq> [] \<longrightarrow> fst rng' < snd rng') \<and>
     pending rng' it' = drop (unat g) (pending rng it)"
    using Cons.prems by (intro Split_fill_spec) auto
  then obtain buffer' rng' it' where fill: "Split_fill g rng it RangeSet_empty = Some (buffer', rng', it')"
     "rs_inv buffer'" "block_list buffer' = take (unat g) (pending rng it)"
     "list_all (\<lambda>(a, b). a < b) it'" "it' \<noteq> [] \<longrightarrow> fst rng' < snd rng'"
     "pending rng' it' = drop (unat g) (pending rng it)"
    by auto
  have "sum_list (map unat groups) = length (pending rng' it')" "length (pending rng' it') < 2 ^ 64 - 1"
    using Cons.prems(3,4) fill(6) by simp_all
  from Cons.IH [OF fill(4,5) this] obtain gs where "Split_groups groups rng' it' = Some gs"
      "concat (map block_list gs) = pending rng' it'"
      "map (length \<circ> block_list) gs = map unat groups" "list_all rs_inv gs"
    by blast
  then show ?case
    using fill Cons.prems(3) by (simp add: o_def)
qed simp

lemma blocks_per_group_unat:
  fixes b g :: size_t
  assumes "0 < unat g"
  defines "q \<equiv> unat b div unat g" and "x \<equiv> unat b mod unat g"
  shows "map unat (replicate (unat (b mod g)) (b div g + 1) @
           replicate (unat g - unat (b mod g)) (b div g)) = replicate x (q + 1) @ replicate (unat g - x) q"
proof -
  have "unat (b div g + 1) = q + 1" if "0 < x"
  proof -
    have "q * unat g + x = unat b" by (simp add: q_def x_def)
    then have "q + 1 \<le> unat b"
      using that assms(1) mult_le_mono2 [of 1 "unat g" q] by linarith
    then show ?thesis
      using unat_less_64 [of b] by (simp add: unat_add_nowrap unat_div q_def)
  qed
  then show ?thesis
    by (cases "x = 0") (simp_all add: unat_mod unat_div q_def x_def)
qed

lemma sum_group_sizes:
  fixes t g :: nat
  assumes "0 < g"
  shows "sum_list (replicate (t mod g) (t div g + 1) @ replicate (g - t mod g) (t div g)) = t"
proof -
  have "t mod g < g" using assms by simp
  then have "t mod g * (t div g + 1) + (g - t mod g) * (t div g) = t mod g + g * (t div g)"
    by (simp add: algebra_simps diff_mult_distrib)
  then show ?thesis by (simp add: sum_list_replicate)
qed

section \<open>Overlap\<close>

lemma set_blocks_of: "set (blocks_of rr) = (\<Union>(a, b)\<in>set rr. {unat a..<unat b})"
  by (induction rr) auto

lemma ranges_meet_iff:
  fixes a b c d :: size_t
  assumes "a < b" "c < d"
  shows "\<not> (c \<ge> b \<or> a \<ge> d) \<longleftrightarrow> {unat a..<unat b} \<inter> {unat c..<unat d} \<noteq> {}"
  using assms by (auto simp: word_less_nat_alt word_le_nat_alt not_le)

lemma Overlaps_iff:
  assumes "rs_inv rs" "rs_inv other"
  shows "Overlaps rs other \<longleftrightarrow> set (block_list rs) \<inter> set (block_list other) \<noteq> {}"
proof -
  have "Overlaps rs other \<longleftrightarrow> (\<exists>p\<in>set (rs_ranges rs). \<exists>q\<in>set (rs_ranges other).
      {unat (fst p)..<unat (snd p)} \<inter> {unat (fst q)..<unat (snd q)} \<noteq> {})"
    unfolding Overlaps_def list_ex_iff case_prod_beta
    using assms by (intro bex_cong refl ranges_meet_iff) (auto simp: rs_inv_def list_all_iff)
  then show ?thesis
    unfolding block_list_def set_blocks_of case_prod_beta by blast
qed

section \<open>Construction and text\<close>

lemma rs_eqI: "rs_inv rs \<Longrightarrow> rs_inv rs' \<Longrightarrow> rs_ranges rs = rs_ranges rs' \<Longrightarrow> rs = rs'"
  by (cases rs; cases rs') (simp add: rs_inv_def block_list_def word_unat_eq_iff)

lemma rs_inv_prefix:
  assumes "rs_inv rs" "rs_ranges rs = rr @ rr'"
  shows "length (blocks_of rr) < 2 ^ 64 - 1"
  using assms by (simp add: rs_inv_def block_list_def)

lemma push_all_inv: "rs_inv rs \<Longrightarrow> rs_inv (push_all rs pairs)"
proof (induction pairs arbitrary: rs)
  case (Cons r pairs)
  obtain a b where r: "r = (a, b)" by (cases r)
  show ?case
  proof (cases "PushBack rs r")
    case (Pair ok rs')
    then show ?thesis
      using Cons PushBack_blocks [of rs a b rs'] r
      by (cases ok) (auto simp: Clear_def rs_inv_def block_list_def)
  qed
qed simp

lemma push_all_append:
  assumes "rs_inv rs" "rs_inv rs'" "rs_ranges rs' = rs_ranges rs @ pairs"
  shows "push_all rs pairs = rs'"
  using assms
proof (induction pairs arbitrary: rs)
  case Nil
  then show ?case by (simp add: rs_eqI)
next
  case (Cons r pairs)
  obtain a b where r: "r = (a, b)" by (cases r)
  have "a < b" using Cons.prems(2,3) r by (simp add: rs_inv_def)
  moreover have "length (block_list rs) + (unat b - unat a) < 2 ^ 64 - 1"
    using rs_inv_prefix [OF Cons.prems(2), of "rs_ranges rs @ [r]" pairs] Cons.prems(3) r
    by (simp add: block_list_def)
  ultimately obtain rs1 where rs1: "PushBack rs (a, b) = (True, rs1)"
    using PushBack_ok [OF Cons.prems(1)] by blast
  then show ?case
    using Cons.IH [of rs1] PushBack_blocks [OF Cons.prems(1) rs1] Cons.prems(2,3) r by simp
qed

lemma RangeSet_of_ranges: "rs_inv rs \<Longrightarrow> RangeSet_of (rs_ranges rs) = rs"
  using push_all_append [of RangeSet_empty rs "rs_ranges rs"] rs_eqI [of RangeSet_empty rs]
  by (auto simp: RangeSet_of_def)

lemma RangeSet_of_inv: "rs_inv (RangeSet_of pairs)"
  by (simp add: RangeSet_of_def push_all_inv)

lemma join_Cons: "join c (p # ps) = p @ concat (map (Cons c) ps)"
  by (induction ps arbitrary: p) auto

lemma ToString_join:
  "rs_ranges rs \<noteq> [] \<Longrightarrow> RangeSet_ToString rs =
     join (CHR '','') (to_dec (length (rs_ranges rs) * 2) # range_pieces (rs_ranges rs))"
proof -
  have "concat (map (Cons (CHR '','')) (range_pieces rr)) =
      concat (map (\<lambda>(a, b). '','' @ to_dec (unat a) @ '','' @ to_dec (unat b)) rr)" for rr
    by (induction rr) (auto simp: range_pieces_def)
  then show "rs_ranges rs \<noteq> [] \<Longrightarrow> ?thesis"
    by (simp add: RangeSet_ToString_def join_Cons)
qed

lemma range_pieces_no_comma: "list_all (\<lambda>p. CHR '','' \<notin> set p) (range_pieces rr)"
  by (induction rr) (auto simp: range_pieces_def)

context libbase_text
begin

lemma parse_pairs_pieces:
  assumes "list_all (\<lambda>(a, b). a \<le> INT_MAX \<and> b \<le> INT_MAX) rr"
  shows "parse_pairs ParseUint (range_pieces rr) = Some rr"
  using assms
proof (induction rr)
  case (Cons r rr)
  then show ?case
    by (cases r) (auto simp: range_pieces_def word_le_nat_alt ParseUint_dec)
qed (simp add: range_pieces_def)

lemma Parse_ToString:
  assumes "rs_inv rs" "rs_ranges rs \<noteq> []"
    and "list_all (\<lambda>(a, b). a \<le> INT_MAX \<and> b \<le> INT_MAX) (rs_ranges rs)"
    and "2 * length (rs_ranges rs) \<le> unat INT_MAX"
  shows "RangeSet_Parse Split ParseUint (RangeSet_ToString rs) = rs"
proof -
  let ?ps = "range_pieces (rs_ranges rs)"
  have split: "Split (RangeSet_ToString rs) (CHR '','') = to_dec (length (rs_ranges rs) * 2) # ?ps"
    using Split_join [of "to_dec (length (rs_ranges rs) * 2) # ?ps" "CHR '',''"] assms(2)
    by (simp add: ToString_join range_pieces_no_comma)
  have len: "length (range_pieces rr) = 2 * length rr" for rr
    by (induction rr) (auto simp: range_pieces_def)
  have num: "ParseUint (to_dec (length (rs_ranges rs) * 2)) INT_MAX = Some (of_nat (length ?ps))"
    using ParseUint_dec [of "length ?ps" INT_MAX] assms(4) len by (simp add: mult.commute)
  obtain x y zs where ps: "?ps = x # y # zs"
    using assms(2) by (cases "rs_ranges rs") (auto simp: range_pieces_def)
  have small: "length ?ps < 2 ^ 31" using assms(4) len by simp
  then have "(of_nat (length ?ps) :: u64) \<noteq> 0" "(of_nat (length ?ps) :: u64) mod 2 = 0"
    using of_nat_pos_word [of "length ?ps"] of_nat_even_word [of "length ?ps"] assms(2)
    by (simp_all add: len)
  then show ?thesis
    using split num parse_pairs_pieces [OF assms(3)] assms(1)
    by (simp add: RangeSet_Parse_def ps RangeSet_of_ranges)
qed

end

section \<open>The interface the readers of a block map rely on\<close>

locale block_index =
  fixes inv :: "'r \<Rightarrow> bool"
    and blocks :: "'r \<Rightarrow> nat list"
    and sub :: "'r \<Rightarrow> size_t \<Rightarrow> size_t \<Rightarrow> 'r option checked"
    and num :: "'r \<Rightarrow> size_t \<Rightarrow> size_t checked"
  assumes sub_in: "inv r \<Longrightarrow> unat s + unat n \<le> length (blocks r) \<Longrightarrow>
      \<exists>r'. sub r s n = Ret (Some r') \<and> inv r' \<and> blocks r' = take (unat n) (drop (unat s) (blocks r))"
    and sub_out: "inv r \<Longrightarrow> \<not> unat s + unat n \<le> length (blocks r) \<Longrightarrow> sub r s n = Ret None"
    and num_in: "inv r \<Longrightarrow> unat i < length (blocks r) \<Longrightarrow> num r i = Ret (of_nat (blocks r ! unat i))"
begin

lemma sub_not_Abort: "inv r \<Longrightarrow> sub r s n \<noteq> Abort"
  using sub_in sub_out by (metis checked.distinct(1))

lemma sub_SomeD:
  assumes "inv r" "sub r s n = Ret (Some r')"
  shows "inv r'" "unat s + unat n \<le> length (blocks r)"
    "blocks r' = take (unat n) (drop (unat s) (blocks r))"
  using assms sub_in [of r s n] sub_out [of r s n] by auto

lemma num_sub:
  assumes "inv r" "sub r s n = Ret (Some r')" "unat i < unat n" "length (blocks r) < 2 ^ 64"
  shows "num r' i = num r (s + i)"
proof -
  note sub = sub_SomeD [OF assms(1,2)]
  have "unat (s + i) = unat s + unat i"
    using sub(2) assms(3,4) by (simp add: unat_add_nowrap)
  then show ?thesis
    using sub assms num_in [of r' i] num_in [of r "s + i"] by simp
qed

end

interpretation rs: block_index rs_inv block_list GetSubRanges GetBlockNumber
  by unfold_locales (simp_all add: GetSubRanges_Some GetSubRanges_None GetBlockNumber_nth)

section \<open>Properties of the class\<close>

text \<open>C22. \<open>GetSubRanges\<close> on a well-formed set: a request inside the set returns a well-formed set that
  holds exactly the requested slice of the block list, in order; any other request, one whose end
  index wraps around 64 bits included, returns \<open>std::nullopt\<close>. No \<open>CHECK\<close> fails.\<close>

theorem GetSubRanges_slice:
  assumes "rs_inv rs"
  shows "if unat start + unat n \<le> length (block_list rs)
         then \<exists>r. GetSubRanges rs start n = Ret (Some r) \<and> rs_inv r \<and>
                block_list r = take (unat n) (drop (unat start) (block_list rs))
         else GetSubRanges rs start n = Ret None"
  using rs.sub_in [OF assms] rs.sub_out [OF assms] by simp

definition example_set :: range_set where
  "example_set = RangeSet_of [(0, 5), (10, 15)]"

lemma example_set_simps [simp]:
  "rs_ranges example_set = [(0, 5), (10, 15)]" "rs_blocks example_set = 10"
  by (simp_all add: example_set_def RangeSet_of_def RangeSet_empty_def PushBack_def SIZE_MAX_def Let_def)

lemma block_list_example_set: "block_list example_set = [0, 1, 2, 3, 4, 10, 11, 12, 13, 14]"
  by (simp add: block_list_def upt_rec)

lemma rs_inv_example_set [simp]: "rs_inv example_set"
  by (simp add: example_set_def RangeSet_of_inv)

theorem GetSubRanges_slice_witness:
  "rs_inv example_set \<and>
   (\<exists>r. GetSubRanges example_set 1 5 = Ret (Some r) \<and> rs_inv r \<and>
      block_list r = [1, 2, 3, 4, 10]) \<and> GetSubRanges example_set 6 5 = Ret None"
  using GetSubRanges_slice [OF rs_inv_example_set, of 1 5] GetSubRanges_slice [OF rs_inv_example_set, of 6 5]
  by (simp add: block_list_example_set)

lemma Split_partition:
  assumes "rs_inv rs" "rs_ranges rs \<noteq> []" "groups \<noteq> 0"
  shows "\<exists>gs. RangeSet_Split rs groups = Some gs \<and> concat (map block_list gs) = block_list rs \<and>
    list_all rs_inv gs \<and> length gs = min (unat groups) (length (block_list rs)) \<and>
    (let total = length (block_list rs); q = total div length gs; x = total mod length gs
     in map (length \<circ> block_list) gs = replicate x (q + 1) @ replicate (length gs - x) q)"
proof -
  let ?t = "length (block_list rs)"
  define g where "g = (if rs_blocks rs < groups then rs_blocks rs else groups)"
  have valid: "list_all (\<lambda>(a, b). a < b) (rs_ranges rs)" and t: "unat (rs_blocks rs) = ?t" "?t < 2 ^ 64 - 1"
    using assms(1) by (simp_all add: rs_inv_def)
  obtain r it where it: "rs_ranges rs = r # it" using assms(2) by (cases "rs_ranges rs") auto
  have pend: "pending (hd (rs_ranges rs)) (rs_ranges rs) = block_list rs"
    by (simp add: pending_def it block_list_def)
  have g: "unat g = min (unat groups) ?t"
    using t by (simp add: g_def word_less_nat_alt)
  have pos: "0 < unat g"
    using assms(2,3) blocks_of_Nil_iff [OF valid] by (simp add: g block_list_def unat_gt_0)
  define sizes where "sizes = replicate (unat (rs_blocks rs mod g)) (rs_blocks rs div g + 1) @
    replicate (unat g - unat (rs_blocks rs mod g)) (rs_blocks rs div g)"
  have sizes: "map unat sizes = replicate (?t mod unat g) (?t div unat g + 1) @
      replicate (unat g - ?t mod unat g) (?t div unat g)"
    unfolding sizes_def blocks_per_group_unat [OF pos] t ..
  have "rs_ranges rs \<noteq> [] \<longrightarrow> fst (hd (rs_ranges rs)) < snd (hd (rs_ranges rs))"
    using valid it by (cases r) auto
  moreover have "sum_list (map unat sizes) = length (pending (hd (rs_ranges rs)) (rs_ranges rs))"
    unfolding sizes pend by (rule sum_group_sizes [OF pos])
  ultimately have "\<exists>gs. Split_groups sizes (hd (rs_ranges rs)) (rs_ranges rs) = Some gs \<and>
      concat (map block_list gs) = block_list rs \<and>
      map (length \<circ> block_list) gs = map unat sizes \<and> list_all rs_inv gs"
    using Split_groups_spec [OF valid, of "hd (rs_ranges rs)" sizes] t(2) by (simp add: pend)
  moreover have "length sizes = unat g"
    using pos by (simp add: sizes_def unat_mod)
  moreover have "RangeSet_Split rs groups = Split_groups sizes (hd (rs_ranges rs)) (rs_ranges rs)"
    using assms(2,3) by (simp add: RangeSet_Split_def sizes_def g_def Let_def)
  ultimately obtain gs where gs: "RangeSet_Split rs groups = Some gs"
      "concat (map block_list gs) = block_list rs" "map (length \<circ> block_list) gs = map unat sizes"
      "list_all rs_inv gs"
    by auto
  moreover have "length gs = unat g"
    using gs(3) \<open>length sizes = unat g\<close> by (metis length_map)
  ultimately show ?thesis
    unfolding sizes Let_def g [symmetric] by simp
qed

text \<open>C23. \<open>Split\<close> partitions the set: the groups, put one after another, hold exactly the blocks of the
  set in their order, every group is well formed, there are as many groups as asked for (or as blocks,
  if fewer), and their sizes are the mean plus one for the first groups and the mean for the others.
  The iterator never moves past the end.\<close>

theorem RangeSet_Split_partition:
  assumes "rs_inv rs" "rs_ranges rs \<noteq> []" "groups \<noteq> 0"
  shows "\<exists>gs. RangeSet_Split rs groups = Some gs \<and> concat (map block_list gs) = block_list rs \<and>
    list_all rs_inv gs \<and> length gs = min (unat groups) (length (block_list rs)) \<and>
    (let total = length (block_list rs); q = total div length gs; x = total mod length gs
     in map (length \<circ> block_list) gs = replicate x (q + 1) @ replicate (length gs - x) q)"
  using Split_partition [OF assms] .

theorem RangeSet_Split_partition_witness:
  "\<exists>gs. RangeSet_Split example_set 3 = Some gs \<and>
     concat (map block_list gs) = [0, 1, 2, 3, 4, 10, 11, 12, 13, 14] \<and>
     map (length \<circ> block_list) gs = [4, 3, 3]"
  using RangeSet_Split_partition [OF rs_inv_example_set, of 3]
  by (auto simp: block_list_example_set Let_def)

text \<open>\<open>Overlaps\<close> decides whether two well-formed sets share a block.\<close>

theorem Overlaps_shares_block:
  assumes "rs_inv rs" "rs_inv other"
  shows "Overlaps rs other \<longleftrightarrow> (\<exists>b. b \<in> set (block_list rs) \<and> b \<in> set (block_list other))"
  using Overlaps_iff [OF assms] by auto

lemma example_overlap_sets:
  "rs_ranges (RangeSet_of [(14, 16)]) = [(14, 16)]" "rs_ranges (RangeSet_of [(5, 10)]) = [(5, 10)]"
  by (simp_all add: RangeSet_of_def RangeSet_empty_def PushBack_def SIZE_MAX_def Let_def)

lemma example_overlap_blocks:
  "block_list (RangeSet_of [(14, 16)]) = [14, 15]" "block_list (RangeSet_of [(5, 10)]) = [5, 6, 7, 8, 9]"
  by (simp_all add: block_list_def example_overlap_sets upt_rec)

theorem Overlaps_shares_block_witness:
  "Overlaps example_set (RangeSet_of [(14, 16)]) \<and> \<not> Overlaps example_set (RangeSet_of [(5, 10)])"
  using Overlaps_shares_block [OF rs_inv_example_set RangeSet_of_inv, of "[(14, 16)]"]
    Overlaps_shares_block [OF rs_inv_example_set RangeSet_of_inv, of "[(5, 10)]"]
  by (simp add: block_list_example_set example_overlap_blocks) presburger

text \<open>Parsing the text \<open>ToString\<close> writes gives the set back, for every well-formed non-empty set whose
  bounds and token count are within the \<open>INT_MAX\<close> limit \<open>Parse\<close> puts on numbers, given that libbase's
  \<open>Split\<close> and \<open>ParseUint\<close> undo joining and decimal printing.\<close>

theorem RangeSet_Parse_ToString:
  assumes "libbase_text Split ParseUint" and "rs_inv rs" "rs_ranges rs \<noteq> []"
    and "list_all (\<lambda>(a, b). a \<le> INT_MAX \<and> b \<le> INT_MAX) (rs_ranges rs)"
    and "2 * length (rs_ranges rs) \<le> unat INT_MAX"
  shows "RangeSet_Parse Split ParseUint (RangeSet_ToString rs) = rs"
  using libbase_text.Parse_ToString [OF assms] .

theorem RangeSet_Parse_ToString_witness:
  "RangeSet_ToString example_set = ''4,0,5,10,15'' \<and>
   RangeSet_Parse split_on dec_parse_uint (RangeSet_ToString example_set) = example_set"
proof -
  have "RangeSet_ToString example_set = ''4,0,5,10,15''"
    by (simp add: RangeSet_ToString_def dec_eval)
  then show ?thesis
    using RangeSet_Parse_ToString [OF dec_text.libbase_text_axioms rs_inv_example_set]
    by (simp add: INT_MAX_def)
qed

end
