(* ===== verification/Sorted_Range_Set.thy ===== *)
theory Sorted_Range_Set
  imports Range_Set
begin

text \<open>
  The class \<open>SortedRangeSet\<close> of \<open>otautil/rangeset.cpp\<close>: a \<open>RangeSet\<close> whose ranges are kept sorted and
  merged, used to place the bytes of a file in a set of 4096-byte blocks. The first section holds the
  methods; the second shows that \<open>Insert\<close> computes the union of two block sets in canonical form, and
  that the offset translation is the position of a block in the set.
\<close>

section \<open>The methods\<close>

definition kBlockSize :: size_t where
  "kBlockSize = 4096"

text \<open>\<open>std::sort\<close> orders pairs lexicographically.\<close>

definition SortedRangeSet_of :: "range list \<Rightarrow> range_set" where
  "SortedRangeSet_of pairs = (let rs = RangeSet_of pairs in rs\<lparr>rs_ranges := sort (rs_ranges rs)\<rparr>)"

text \<open>\<open>ranges_.push_back(to_insert); blocks_ += \<dots>\<close>, which \<open>Insert\<close> does without \<open>PushBack\<close>'s checks.\<close>

definition append_range :: "range_set \<Rightarrow> range \<Rightarrow> range_set" where
  "append_range rs r =
     rs\<lparr>rs_ranges := rs_ranges rs @ [r], rs_blocks := rs_blocks rs + (snd r - fst r)\<rparr>"

fun insert_loop :: "range \<Rightarrow> range list \<Rightarrow> range_set \<Rightarrow> range_set" where
  "insert_loop to_insert [] rs = append_range rs to_insert"
| "insert_loop to_insert (r # it) rs =
     (if fst r \<le> snd to_insert
      then insert_loop (fst to_insert, max (snd to_insert) (snd r)) it rs
      else insert_loop r it (append_range rs to_insert))"

definition Insert_set :: "range_set \<Rightarrow> range_set \<Rightarrow> range_set" where
  "Insert_set this rs =
     (if rs_ranges rs = [] then this
      else let temp = sort (rs_ranges this @ rs_ranges rs)
           in insert_loop (hd temp) (tl temp) (Clear this))"

definition Insert_range :: "range_set \<Rightarrow> range \<Rightarrow> range_set" where
  "Insert_range this to_insert = Insert_set this (SortedRangeSet_of [to_insert])"

definition file_range :: "size_t \<Rightarrow> size_t \<Rightarrow> range" where
  "file_range start len = (start div kBlockSize, (start + len - 1) div kBlockSize + 1)"

definition Insert_file :: "range_set \<Rightarrow> size_t \<Rightarrow> size_t \<Rightarrow> range_set" where
  "Insert_file this start len = Insert_range this (file_range start len)"

definition Overlaps_file :: "range_set \<Rightarrow> size_t \<Rightarrow> size_t \<Rightarrow> bool" where
  "Overlaps_file this start len = Overlaps this (RangeSet_of [file_range start len])"

fun offset_loop :: "size_t \<Rightarrow> size_t \<Rightarrow> size_t \<Rightarrow> range list \<Rightarrow> size_t checked" where
  "offset_loop old_offset old_block_start new_block_start [] = Abort"
| "offset_loop old_offset old_block_start new_block_start ((start, end) # rest) =
     (if old_block_start \<ge> end
      then offset_loop old_offset old_block_start (new_block_start + (end - start)) rest
      else if old_block_start \<ge> start
      then Ret ((new_block_start + (old_block_start - start)) * kBlockSize + old_offset mod kBlockSize)
      else Abort)"

definition GetOffsetInRangeSet :: "range_set \<Rightarrow> size_t \<Rightarrow> size_t checked" where
  "GetOffsetInRangeSet this old_offset =
     offset_loop old_offset (old_offset div kBlockSize) 0 (rs_ranges this)"

text \<open>
  The canonical form \<open>Insert\<close> leaves behind: non-empty ranges, in order, with a gap between any two,
  and the exact block count.
\<close>

definition separated :: "range list \<Rightarrow> bool" where
  "separated rr = (list_all (\<lambda>(a, b). a < b) rr \<and> sorted_wrt (\<lambda>p q. snd p < fst q) rr)"

definition sorted_inv :: "range_set \<Rightarrow> bool" where
  "sorted_inv rs = (separated (rs_ranges rs) \<and> unat (rs_blocks rs) = length (block_list rs))"

section \<open>Insertion\<close>

lemma append_range_simps [simp]:
  "rs_ranges (append_range rs r) = rs_ranges rs @ [r]"
  "rs_blocks (append_range rs r) = rs_blocks rs + (snd r - fst r)"
  by (simp_all add: append_range_def)

lemma separated_snoc:
  "separated (rr @ [(a, b)]) \<longleftrightarrow> separated rr \<and> a < b \<and> list_all (\<lambda>p. snd p < a) rr"
  by (auto simp: separated_def sorted_wrt_append list_all_iff)

lemma append_range_inv:
  assumes "sorted_inv rs" "a < b" "list_all (\<lambda>p. snd p < a) (rs_ranges rs)"
    and "length (block_list rs) \<le> unat a"
  shows "sorted_inv (append_range rs (a, b))"
    "length (block_list (append_range rs (a, b))) \<le> unat b"
    "block_list (append_range rs (a, b)) = block_list rs @ [unat a..<unat b]"
proof -
  have ab: "unat a < unat b" "unat (b - a) = unat b - unat a"
    using assms(2) by (simp_all add: word_less_nat_alt unat_sub_less)
  show bl: "block_list (append_range rs (a, b)) = block_list rs @ [unat a..<unat b]"
    by (simp add: block_list_def)
  then show "length (block_list (append_range rs (a, b))) \<le> unat b"
    using assms(4) ab by simp
  have "unat (rs_blocks rs + (b - a)) = unat (rs_blocks rs) + (unat b - unat a)"
    using assms(1,4) ab unat_less_64 [of b] unat_add_nowrap [of "rs_blocks rs" "b - a"]
    by (simp add: sorted_inv_def)
  then show "sorted_inv (append_range rs (a, b))"
    using assms bl by (simp add: sorted_inv_def separated_snoc)
qed

lemma insert_loop_spec:
  assumes "list_all (\<lambda>(a, b). a < b) (t # it)" "sorted_wrt (\<lambda>p q. fst p \<le> fst q) (t # it)"
    and "sorted_inv rs" "list_all (\<lambda>p. snd p < fst t) (rs_ranges rs)" "length (block_list rs) \<le> unat (fst t)"
  shows "sorted_inv (insert_loop t it rs) \<and>
    set (block_list (insert_loop t it rs)) = set (block_list rs) \<union> set (blocks_of (t # it))"
  using assms
proof (induction t it rs rule: insert_loop.induct)
  case (1 t rs)
  then show ?case
    using append_range_inv [of rs "fst t" "snd t"] by (cases t) auto
next
  case (2 t r it rs)
  obtain a b c d where t: "t = (a, b)" and r: "r = (c, d)" by (cases t; cases r)
  have le: "unat a < unat b" "unat c < unat d" "unat a \<le> unat c"
    using "2.prems" t r by (auto simp: word_less_nat_alt word_le_nat_alt)
  show ?case
  proof (cases "c \<le> b")
    case True
    have "unat (max b d) = max (unat b) (unat d)"
      by (auto simp: max_def word_le_nat_alt)
    then have "set (blocks_of ((a, max b d) # it)) = set (blocks_of (t # r # it))"
      using le True t r by (auto simp: word_le_nat_alt)
    moreover have "a < max b d" using le by (auto simp: max_def word_less_nat_alt word_le_nat_alt)
    ultimately show ?thesis
      using "2.IH"(1) "2.prems" True t r by auto
  next
    case False
    have "length (block_list (append_range rs t)) \<le> unat c" "sorted_inv (append_range rs t)"
        "block_list (append_range rs t) = block_list rs @ [unat a..<unat b]"
      using append_range_inv [of rs a b] "2.prems" t r False
      by (auto simp: word_le_nat_alt)
    moreover have "list_all (\<lambda>p. snd p < c) (rs_ranges (append_range rs t))"
      using "2.prems" t r False by (auto simp: list_all_iff)
    ultimately show ?thesis
      using "2.IH"(2) "2.prems" False t r by auto
  qed
qed

lemma sorted_lex_fst: "sorted xs \<Longrightarrow> sorted_wrt (\<lambda>p q. fst p \<le> fst q) (xs :: range list)"
  by (rule sorted_wrt_mono_rel [of _ "(\<le>)"]) (auto simp: less_eq_prod_def)

lemma Insert_set_nonempty:
  assumes "list_all (\<lambda>(a, b). a < b) (rs_ranges this)" "list_all (\<lambda>(a, b). a < b) (rs_ranges rs)"
    and "rs_ranges rs \<noteq> []"
  shows "sorted_inv (Insert_set this rs) \<and>
    set (block_list (Insert_set this rs)) = set (block_list this) \<union> set (block_list rs)"
proof -
  define temp where "temp = sort (rs_ranges this @ rs_ranges rs)"
  have set_temp: "set temp = set (rs_ranges this) \<union> set (rs_ranges rs)"
    by (simp add: temp_def)
  then obtain t it where ti: "temp = t # it"
    using assms(3) by (cases temp) auto
  have "list_all (\<lambda>(a, b). a < b) (t # it)"
    using assms(1,2) set_temp unfolding ti by (auto simp: list_all_iff)
  moreover have "sorted_wrt (\<lambda>p q. fst p \<le> fst q) (t # it)"
    using sorted_lex_fst [of temp] unfolding ti [symmetric] by (simp add: temp_def)
  moreover have "sorted_inv (Clear this)" "block_list (Clear this) = []" "rs_ranges (Clear this) = []"
    by (simp_all add: Clear_def sorted_inv_def separated_def block_list_def)
  ultimately have "sorted_inv (insert_loop t it (Clear this)) \<and>
      set (block_list (insert_loop t it (Clear this))) = set (blocks_of (t # it))"
    using insert_loop_spec [of t it "Clear this"] by simp
  moreover have "set (blocks_of (t # it)) = set (block_list this) \<union> set (block_list rs)"
    unfolding ti [symmetric] set_blocks_of set_temp block_list_def by blast
  moreover have "Insert_set this rs = insert_loop t it (Clear this)"
    using assms(3) ti by (simp add: Insert_set_def temp_def [symmetric])
  ultimately show ?thesis by simp
qed

lemma separated_sorted: "separated rr \<Longrightarrow> sorted_wrt (<) (blocks_of rr)"
proof (induction rr)
  case (Cons r rr)
  obtain a b where r: "r = (a, b)" by (cases r)
  have "\<forall>y\<in>set (blocks_of rr). unat b \<le> y"
    using Cons.prems r by (force simp: separated_def set_blocks_of list_all_iff word_less_nat_alt)
  then show ?case
    using Cons r by (fastforce simp: separated_def sorted_wrt_append)
qed simp

lemma sorted_inv_count: "sorted_inv rs \<Longrightarrow> unat (rs_blocks rs) = card (set (block_list rs))"
  using separated_sorted [of "rs_ranges rs"]
  by (simp add: sorted_inv_def block_list_def distinct_card strict_sorted_iff)

section \<open>The blocks of a byte region\<close>

lemma image_div_interval:
  fixes s l k :: nat
  assumes "0 < l" "0 < k"
  shows "(\<lambda>off. off div k) ` {s..<s + l} = {s div k..(s + l - 1) div k}"
proof
  show "(\<lambda>off. off div k) ` {s..<s + l} \<subseteq> {s div k..(s + l - 1) div k}"
    by (auto intro!: div_le_mono)
  show "{s div k..(s + l - 1) div k} \<subseteq> (\<lambda>off. off div k) ` {s..<s + l}"
  proof
    fix j
    assume j: "j \<in> {s div k..(s + l - 1) div k}"
    show "j \<in> (\<lambda>off. off div k) ` {s..<s + l}"
    proof (cases "j = s div k")
      case True
      then show ?thesis using assms by auto
    next
      case False
      then have "s div k < j" using j by simp
      then have "s < j * k" using assms(2) by (simp add: div_less_iff_less_mult)
      moreover have "j * k \<le> s + l - 1"
        using j assms(2) by (simp add: less_eq_div_iff_mult_less_eq)
      ultimately have "j * k \<in> {s..<s + l}" using assms by auto
      then show ?thesis using assms(2) by (metis imageI nonzero_mult_div_cancel_right less_numeral_extra(3))
    qed
  qed
qed

lemma unat_kBlockSize [simp]: "unat kBlockSize = 4096"
  by (simp add: kBlockSize_def)

lemma file_range_blocks:
  assumes "0 < unat len" "unat start + unat len \<le> 2 ^ 64"
  shows "fst (file_range start len) < snd (file_range start len)"
    "unat (snd (file_range start len)) \<le> 2 ^ 52"
    "{unat (fst (file_range start len))..<unat (snd (file_range start len))} =
       (\<lambda>off. off div 4096) ` {unat start..<unat start + unat len}"
proof -
  have len1: "unat (len - 1) = unat len - 1"
    using assms(1) by (intro unat_minus_one) (auto simp: unat_gt_0)
  have end1: "unat (start + len - 1) = unat start + unat len - 1"
    using assms len1 unat_add_nowrap [of start "len - 1"] by (simp add: add_diff_eq)
  have "unat ((start + len - 1) div kBlockSize) = (unat start + unat len - 1) div 4096"
    by (simp add: unat_div end1)
  moreover have "(unat start + unat len - 1) div 4096 < 2 ^ 52"
    using assms(2) by simp
  ultimately have last: "unat (snd (file_range start len)) = (unat start + unat len - 1) div 4096 + 1"
    unfolding file_range_def by (simp add: unat_add_nowrap)
  have first: "unat (fst (file_range start len)) = unat start div 4096"
    by (simp add: file_range_def unat_div)
  show "unat (snd (file_range start len)) \<le> 2 ^ 52"
    using last \<open>(unat start + unat len - 1) div 4096 < 2 ^ 52\<close> by linarith
  have "unat start div 4096 \<le> (unat start + unat len - 1) div 4096"
    using assms(1) by (intro div_le_mono) simp
  then show "fst (file_range start len) < snd (file_range start len)"
    unfolding word_less_nat_alt first last by simp
  show "{unat (fst (file_range start len))..<unat (snd (file_range start len))} =
       (\<lambda>off. off div 4096) ` {unat start..<unat start + unat len}"
    unfolding first last image_div_interval [OF assms(1), of 4096 "unat start", simplified] by auto
qed

lemma RangeSet_of_single:
  assumes "fst r < snd r" "unat (snd r) < 2 ^ 64 - 1"
  shows "rs_ranges (RangeSet_of [r]) = [r]" "rs_inv (RangeSet_of [r])"
    "set (block_list (RangeSet_of [r])) = {unat (fst r)..<unat (snd r)}"
proof -
  obtain a b where r: "r = (a, b)" by (cases r)
  have "length (block_list RangeSet_empty) + (unat b - unat a) < 2 ^ 64 - 1"
    using assms(2) r by simp
  then obtain rs' where "PushBack RangeSet_empty (a, b) = (True, rs')"
    using PushBack_ok [of RangeSet_empty a b] assms(1) r by auto
  then show *: "rs_ranges (RangeSet_of [r]) = [r]"
    using PushBack_blocks [of RangeSet_empty a b rs'] r by (simp add: RangeSet_of_def)
  show "rs_inv (RangeSet_of [r])" by (rule RangeSet_of_inv)
  show "set (block_list (RangeSet_of [r])) = {unat (fst r)..<unat (snd r)}"
    using * r by (simp add: block_list_def)
qed

section \<open>Offsets\<close>

lemma offset_loop_missing:
  assumes "unat blk \<notin> set (blocks_of rr)"
  shows "offset_loop old blk new rr = Abort"
  using assms by (induction old blk new rr rule: offset_loop.induct) (auto simp: word_le_nat_alt)

lemma offset_word:
  assumes "unat n \<le> unat a" "a \<le> old div kBlockSize"
  shows "unat ((n + (old div kBlockSize - a)) * kBlockSize + old mod kBlockSize) =
    (unat n + (unat old div 4096 - unat a)) * 4096 + unat old mod 4096"
proof -
  let ?i = "unat n + (unat old div 4096 - unat a)"
  have blk: "unat (old div kBlockSize) = unat old div 4096"
    by (simp add: unat_div)
  then have sub: "unat (old div kBlockSize - a) = unat old div 4096 - unat a"
    using assms(2) by (simp add: unat_sub)
  have "?i \<le> unat old div 4096"
    using assms blk by (simp add: word_le_nat_alt)
  then have "?i * 4096 + unat old mod 4096 \<le> unat old"
    by (metis add_le_cancel_right div_mult_mod_eq mult_le_mono1)
  then have bound: "?i * 4096 + unat old mod 4096 < 18446744073709551616"
    using unat_less_64 [of old] by linarith
  then have "unat (n + (old div kBlockSize - a)) = ?i"
    using sub unat_add_nowrap [of n "old div kBlockSize - a"] by simp
  then have "unat ((n + (old div kBlockSize - a)) * kBlockSize) = ?i * 4096"
    using bound unat_mult_nowrap [of "n + (old div kBlockSize - a)" kBlockSize] by simp
  then show ?thesis
    using bound unat_add_nowrap [of "(n + (old div kBlockSize - a)) * kBlockSize" "old mod kBlockSize"]
    by (simp add: unat_mod)
qed

lemma offset_loop_found:
  assumes "separated rr" "length pre = unat new" "\<forall>r\<in>set rr. length pre \<le> unat (fst r)"
    and "unat old div 4096 \<in> set (blocks_of rr)"
  shows "\<exists>i res. i < length (pre @ blocks_of rr) \<and> (pre @ blocks_of rr) ! i = unat old div 4096 \<and>
     offset_loop old (old div kBlockSize) new rr = Ret res \<and> unat res = i * 4096 + unat old mod 4096"
  using assms
proof (induction rr arbitrary: pre new)
  case (Cons r rr)
  obtain a b where r: "r = (a, b)" by (cases r)
  have ab: "a < b" "unat a < unat b" "separated rr" "\<forall>q\<in>set rr. unat b < unat (fst q)"
    using Cons.prems(1) r by (auto simp: separated_def word_less_nat_alt)
  have pre: "length pre \<le> unat a" using Cons.prems(3) r by simp
  have blk: "unat (old div kBlockSize) = unat old div 4096"
    by (simp add: unat_div)
  show ?case
  proof (cases "old div kBlockSize \<ge> b")
    case True
    then have "unat old div 4096 \<in> set (blocks_of rr)"
      using Cons.prems(4) r blk by (auto simp: word_le_nat_alt)
    moreover have "unat (new + (b - a)) = length (pre @ [unat a..<unat b])"
      using Cons.prems(2) pre ab unat_less_64 [of b] unat_add_nowrap [of new "b - a"]
      by (simp add: unat_sub_less)
    moreover have "\<forall>q\<in>set rr. length (pre @ [unat a..<unat b]) \<le> unat (fst q)"
      using ab pre by fastforce
    ultimately show ?thesis
      using Cons.IH [OF ab(3), of "pre @ [unat a..<unat b]" "new + (b - a)"] True r by simp
  next
    case False
    have "unat a \<le> unat old div 4096"
      using Cons.prems(4) r ab(2,4) by (force simp: set_blocks_of)
    then have in_a: "a \<le> old div kBlockSize" using blk by (simp add: word_le_nat_alt)
    let ?i = "unat new + (unat old div 4096 - unat a)"
    have lt: "unat old div 4096 < unat b" using False blk by (simp add: word_le_nat_alt)
    have "?i < length (pre @ blocks_of (r # rr))" "(pre @ blocks_of (r # rr)) ! ?i = unat old div 4096"
      using r diff_less_mono [OF lt \<open>unat a \<le> unat old div 4096\<close>] \<open>unat a \<le> unat old div 4096\<close>
      unfolding Cons.prems(2) [symmetric] nth_append_length_plus
      by (simp_all add: nth_append)
    moreover have "offset_loop old (old div kBlockSize) new (r # rr) =
        Ret ((new + (old div kBlockSize - a)) * kBlockSize + old mod kBlockSize)"
      using False in_a r by simp
    moreover note offset_word [OF _ in_a, of new]
    ultimately show ?thesis
      using Cons.prems(2) pre by metis
  qed
qed simp

section \<open>Properties\<close>

text \<open>C21. Inserting a set of non-empty ranges into a sorted set gives a sorted set, with its ranges
  merged so that a gap separates any two of them, that holds exactly the blocks of both; its block
  counter is the size of the union and never wraps.\<close>

theorem Insert_set_union:
  assumes "sorted_inv this" "list_all (\<lambda>(a, b). a < b) (rs_ranges rs)"
  shows "sorted_inv (Insert_set this rs) \<and>
    set (block_list (Insert_set this rs)) = set (block_list this) \<union> set (block_list rs) \<and>
    unat (rs_blocks (Insert_set this rs)) = card (set (block_list this) \<union> set (block_list rs))"
proof -
  have *: "sorted_inv (Insert_set this rs) \<and>
      set (block_list (Insert_set this rs)) = set (block_list this) \<union> set (block_list rs)"
    using assms Insert_set_nonempty [of this rs]
    by (cases "rs_ranges rs = []") (auto simp: Insert_set_def block_list_def sorted_inv_def separated_def)
  then show ?thesis
    using sorted_inv_count by auto
qed

definition two_ranges :: range_set where
  "two_ranges = \<lparr>rs_ranges = [(1, 9), (15, 19)], rs_blocks = 12\<rparr>"

lemma two_ranges_inv: "sorted_inv two_ranges"
  by (simp add: two_ranges_def sorted_inv_def separated_def block_list_def)

theorem Insert_set_union_witness:
  "sorted_inv (Insert_set two_ranges (RangeSet_of [(9, 15)])) \<and>
   unat (rs_blocks (Insert_set two_ranges (RangeSet_of [(9, 15)]))) = 18"
proof -
  have r: "rs_ranges (RangeSet_of [(9, 15)]) = [(9, 15)]" using RangeSet_of_single [of "(9, 15)"] by simp
  have "set (block_list two_ranges) \<union> set (block_list (RangeSet_of [(9, 15)])) = {1..<19}"
    unfolding block_list_def set_blocks_of r by (auto simp: two_ranges_def)
  then show ?thesis
    using Insert_set_union [OF two_ranges_inv, of "RangeSet_of [(9, 15)]"] r by simp
qed

text \<open>For a non-empty byte region that does not run past the 64-bit address space, \<open>Insert(start, len)\<close>
  adds exactly the 4096-byte blocks the region touches, and \<open>Overlaps(start, len)\<close> says whether one of
  them is in the set.\<close>

theorem Insert_file_blocks:
  assumes "sorted_inv this" "rs_inv this" "0 < unat len" "unat start + unat len \<le> 2 ^ 64"
  shows "sorted_inv (Insert_file this start len) \<and>
    set (block_list (Insert_file this start len)) =
      set (block_list this) \<union> (\<lambda>off. off div 4096) ` {unat start..<unat start + unat len} \<and>
    Overlaps_file this start len =
      (\<exists>off\<in>{unat start..<unat start + unat len}. off div 4096 \<in> set (block_list this))"
proof -
  note fr = file_range_blocks [OF assms(3,4)]
  note single = RangeSet_of_single [OF fr(1)]
  have "unat (snd (file_range start len)) < 2 ^ 64 - 1" using fr(2) by simp
  note single = single [OF this]
  have "SortedRangeSet_of [file_range start len] = RangeSet_of [file_range start len]"
    using single(1) by (simp add: SortedRangeSet_of_def)
  then show ?thesis
    using Insert_set_union [OF assms(1), of "RangeSet_of [file_range start len]"] single fr(1,3)
      Overlaps_iff [OF assms(2) single(2)]
    by (auto simp: Insert_file_def Insert_range_def Overlaps_file_def split_beta)
qed

theorem Insert_file_blocks_witness:
  "set (block_list (Insert_file two_ranges 40960 1)) = set (block_list two_ranges) \<union> {10}"
proof -
  have "{40960..<40961} = {40960 :: nat}" by auto
  moreover have "rs_inv two_ranges" by (simp add: two_ranges_def rs_inv_def block_list_def)
  ultimately show ?thesis
    using Insert_file_blocks [OF two_ranges_inv, of 1 40960] by simp
qed

text \<open>\<open>GetOffsetInRangeSet\<close> on a sorted set: an offset whose block is in the set is moved to the
  position of that block in the set, byte position kept, with no arithmetic wrapping around; for any
  other offset the \<open>CHECK\<close> stops the program.\<close>

theorem GetOffsetInRangeSet_position:
  assumes "sorted_inv this"
  shows "if unat off div 4096 \<in> set (block_list this)
         then \<exists>i res. i < length (block_list this) \<and> block_list this ! i = unat off div 4096 \<and>
                GetOffsetInRangeSet this off = Ret res \<and> unat res = i * 4096 + unat off mod 4096
         else GetOffsetInRangeSet this off = Abort"
  using assms offset_loop_found [of "rs_ranges this" "[]" 0 off]
    offset_loop_missing [of "off div kBlockSize" "rs_ranges this" off 0]
  by (simp add: GetOffsetInRangeSet_def sorted_inv_def block_list_def unat_div)

theorem GetOffsetInRangeSet_position_witness:
  "(\<exists>res. GetOffsetInRangeSet two_ranges 65546 = Ret res) \<and> GetOffsetInRangeSet two_ranges 40960 = Abort"
proof -
  have "16 \<in> set (block_list two_ranges)" "10 \<notin> set (block_list two_ranges)"
    by (simp_all add: two_ranges_def block_list_def)
  then show ?thesis
    using GetOffsetInRangeSet_position [OF two_ranges_inv, of 65546]
      GetOffsetInRangeSet_position [OF two_ranges_inv, of 40960] by auto
qed

end
