(* ===== verification/Block_Map.thy ===== *)
theory Block_Map
  imports Range_Set
begin

text \<open>
  Block maps, \<open>otautil/sysutil.cpp\<close>: the parser of a block map file (\<open>BlockMapData\<close>) and the mapping of
  the blocks it names into one contiguous piece of memory (\<open>MemMapping\<close>). The first section models the
  conversions of \<open>sscanf\<close> the parser uses, the second the two classes; then the lemmas on what the parser
  accepts, the round trip with the text form, and the layout of the mapped memory.
\<close>

section \<open>Unsigned conversions of sscanf\<close>

text \<open>
  A conversion \<open>%lu\<close> skips white space, takes an optional sign and at least one decimal digit, and
  converts them the way \<open>strtoumax\<close> does: a value too large becomes the maximum, a minus sign negates.
  The result is the value and the text that was not consumed.
\<close>

definition is_space :: "char \<Rightarrow> bool" where
  "is_space c = (c = CHR '' '' \<or> (9 \<le> (of_char c :: nat) \<and> (of_char c :: nat) \<le> 13))"

definition scan_sign :: "string \<Rightarrow> bool \<times> string" where
  "scan_sign s = (case s of c # t \<Rightarrow> if c = CHR ''-'' then (True, t) else if c = CHR ''+'' then (False, t) else (False, s)
                  | [] \<Rightarrow> (False, s))"

definition strtoumax :: "bool \<Rightarrow> string \<Rightarrow> u64" where
  "strtoumax neg ds = (if dec_val ds \<ge> 2 ^ 64 then SIZE_MAX
                       else if neg then - of_nat (dec_val ds) else of_nat (dec_val ds))"

definition scan_uint :: "string \<Rightarrow> (u64 \<times> string) option" where
  "scan_uint s =
     (let (neg, t) = scan_sign (dropWhile is_space s); ds = takeWhile is_digit t in
      if ds = [] then None else Some (strtoumax neg ds, dropWhile is_digit t))"

definition sscanf_u :: "string \<Rightarrow> u64 option" where
  "sscanf_u s = map_option fst (scan_uint s)"

definition sscanf_uu :: "string \<Rightarrow> (u64 \<times> u64) option" where
  "sscanf_uu s =
     (case scan_uint s of None \<Rightarrow> None
      | Some (a, t) \<Rightarrow> map_option (\<lambda>(b, _). (a, b)) (scan_uint t))"

section \<open>BlockMapData\<close>

record block_map_data =
  bm_path :: string
  bm_file_size :: u64
  bm_block_size :: u32
  bm_block_ranges :: range_set

definition BlockMapData_empty :: block_map_data where
  "BlockMapData_empty = \<lparr>bm_path = [], bm_file_size = 0, bm_block_size = 0, bm_block_ranges = RangeSet_empty\<rparr>"

text \<open>\<open>explicit operator bool\<close>.\<close>

definition bm_valid :: "block_map_data \<Rightarrow> bool" where
  "bm_valid m = (bm_path m \<noteq> [])"

text \<open>The loop over the range lines: \<open>None\<close> is the early \<open>return {}\<close>.\<close>

fun parse_range_lines :: "string list \<Rightarrow> range_set \<Rightarrow> u64 \<Rightarrow> (range_set \<times> u64) option" where
  "parse_range_lines [] ranges remaining_blocks = Some (ranges, remaining_blocks)"
| "parse_range_lines (line # lines) ranges remaining_blocks =
     (case sscanf_uu line of None \<Rightarrow> None
      | Some (start, end) \<Rightarrow>
          let range_blocks = end - start in
          if end \<le> start \<or> range_blocks > remaining_blocks then None
          else parse_range_lines lines (snd (PushBack ranges (start, end))) (remaining_blocks - range_blocks))"

text \<open>
  \<open>content\<close> is what \<open>ReadFileToString\<close> delivered, \<open>None\<close> when it failed; \<open>Trim\<close> and \<open>Split\<close> are those of
  libbase. The block size is scanned with \<open>%u\<close>, which stores the low 32 bits.
\<close>

definition ParseBlockMapFile ::
  "(string \<Rightarrow> string) \<Rightarrow> (string \<Rightarrow> char \<Rightarrow> string list) \<Rightarrow> string option \<Rightarrow> block_map_data" where
  "ParseBlockMapFile Trim Split content =
     (case content of None \<Rightarrow> BlockMapData_empty
      | Some text \<Rightarrow>
        let lines = Split (Trim text) (CHR ''\<newline>'') in
        if length lines < 4 then BlockMapData_empty
        else case sscanf_uu (lines ! 1) of None \<Rightarrow> BlockMapData_empty
        | Some (file_size, blk) \<Rightarrow>
          let blksize = (ucast blk :: u32) in
          if file_size = 0 \<or> blksize = 0 then BlockMapData_empty
          else case sscanf_u (lines ! 2) of None \<Rightarrow> BlockMapData_empty
          | Some range_count \<Rightarrow>
            let blocks = ((file_size - 1) div ucast blksize) + 1 in
            if blocks > 4294967295 \<or> range_count = 0 \<or> of_nat (length lines) \<noteq> 3 + range_count
            then BlockMapData_empty
            else case parse_range_lines (take (unat range_count) (drop 3 lines)) RangeSet_empty blocks of
              None \<Rightarrow> BlockMapData_empty
            | Some (ranges, remaining_blocks) \<Rightarrow>
                if remaining_blocks \<noteq> 0 then BlockMapData_empty
                else \<lparr>bm_path = lines ! 0, bm_file_size = file_size, bm_block_size = blksize,
                      bm_block_ranges = ranges\<rparr>)"

section \<open>MemMapping\<close>

text \<open>
  The object's fields, and the file-backed mappings that exist in the address space: start address,
  length and offset on the device. The system calls are arguments: \<open>reserve n\<close> is the address of an
  anonymous mapping of \<open>n\<close> bytes, \<open>map_fixed a n off\<close> says whether mapping \<open>n\<close> bytes of the device from
  \<open>off\<close> at address \<open>a\<close> succeeds (with \<open>MAP_FIXED\<close> the address is the one asked for).
\<close>

record mem_mapping =
  mm_addr :: u64
  mm_length :: size_t
  mm_ranges :: "(u64 \<times> size_t) list"

type_synonym mapping = "u64 \<times> u64 \<times> u64"

fun map_block_ranges ::
  "(u64 \<Rightarrow> u64 \<Rightarrow> u64 \<Rightarrow> bool) \<Rightarrow> u32 \<Rightarrow> range list \<Rightarrow> u64 \<Rightarrow> size_t \<Rightarrow> mapping list \<Rightarrow> bool \<times> mapping list \<times> size_t" where
  "map_block_ranges map_fixed blksize [] nxt remaining_size maps = (True, maps, remaining_size)"
| "map_block_ranges map_fixed blksize ((start, end) # rest) nxt remaining_size maps =
     (let range_size = (end - start) * ucast blksize; offset = start * ucast blksize in
      if \<not> map_fixed nxt range_size offset then (False, maps, remaining_size)
      else map_block_ranges map_fixed blksize rest (nxt + range_size) (remaining_size - range_size)
             (maps @ [(nxt, range_size, offset)]))"

text \<open>
  The result is the return value, the object and the mappings left in the address space: on the error
  paths the whole reservation is unmapped again.
\<close>

definition MapBlockFile ::
  "(u64 \<Rightarrow> u64 option) \<Rightarrow> (string \<Rightarrow> bool) \<Rightarrow> (u64 \<Rightarrow> u64 \<Rightarrow> u64 \<Rightarrow> bool) \<Rightarrow> block_map_data \<Rightarrow> mem_mapping
    \<Rightarrow> bool \<times> mem_mapping \<times> mapping list" where
  "MapBlockFile reserve open_ok map_fixed bm mm =
     (if \<not> bm_valid bm then (False, mm, [])
      else
        let blksize = bm_block_size bm;
            blocks = ((bm_file_size bm - 1) div ucast blksize) + 1 in
        case reserve (blocks * ucast blksize) of None \<Rightarrow> (False, mm, [])
        | Some base \<Rightarrow>
          if \<not> open_ok (bm_path bm) then (False, mm, [])
          else
            case map_block_ranges map_fixed blksize (rs_ranges (bm_block_ranges bm)) base (blocks * ucast blksize) [] of
              (False, maps, _) \<Rightarrow> (False, mm\<lparr>mm_ranges := map (\<lambda>(a, n, _). (a, n)) maps\<rparr>, [])
            | (True, maps, remaining_size) \<Rightarrow>
                let mm' = mm\<lparr>mm_ranges := map (\<lambda>(a, n, _). (a, n)) maps\<rparr> in
                if remaining_size \<noteq> 0 then (False, mm', [])
                else (True, mm'\<lparr>mm_addr := base, mm_length := bm_file_size bm\<rparr>, maps))"

text \<open>\<open>MapFD\<close> for a regular file: \<open>fstat\<close> gives the size, the mapping starts at offset 0.\<close>

definition MapFD ::
  "u64 option \<Rightarrow> (u64 \<Rightarrow> u64 option) \<Rightarrow> mem_mapping \<Rightarrow> bool \<times> mem_mapping \<times> mapping list" where
  "MapFD st_size mmap mm =
     (case st_size of None \<Rightarrow> (False, mm, [])
      | Some sz \<Rightarrow>
        (case mmap sz of None \<Rightarrow> (False, mm, [])
         | Some p \<Rightarrow> (True, mm\<lparr>mm_addr := p, mm_length := sz, mm_ranges := [(p, sz)]\<rparr>, [(p, sz, 0)])))"

text \<open>\<open>MapFile\<close>: \<open>@\<close> announces a block map, any other name a regular file.\<close>

definition MapFile ::
  "(string \<Rightarrow> block_map_data) \<Rightarrow> (u64 \<Rightarrow> u64 option) \<Rightarrow> (string \<Rightarrow> bool) \<Rightarrow> (u64 \<Rightarrow> u64 \<Rightarrow> u64 \<Rightarrow> bool)
    \<Rightarrow> (string \<Rightarrow> u64 option) \<Rightarrow> (u64 \<Rightarrow> u64 option) \<Rightarrow> string \<Rightarrow> mem_mapping \<Rightarrow> bool \<times> mem_mapping \<times> mapping list" where
  "MapFile parse reserve open_ok map_fixed fstat mmap fn mm =
     (case fn of [] \<Rightarrow> (False, mm, [])
      | c # rest \<Rightarrow>
        if c = CHR ''@'' then MapBlockFile reserve open_ok map_fixed (parse rest) mm
        else if \<not> open_ok fn then (False, mm, [])
        else MapFD (fstat fn) mmap mm)"

section \<open>What a block map promises\<close>

text \<open>
  The contract the readers of a block map rely on: the ranges hold exactly the blocks of the file, a
  block count that fits 32 bits, and the sizes are positive.
\<close>

definition block_map_ok :: "block_map_data \<Rightarrow> bool" where
  "block_map_ok m =
     (0 < unat (bm_file_size m) \<and> 0 < unat (bm_block_size m) \<and> rs_inv (bm_block_ranges m) \<and>
      rs_ranges (bm_block_ranges m) \<noteq> [] \<and>
      length (block_list (bm_block_ranges m)) = (unat (bm_file_size m) - 1) div unat (bm_block_size m) + 1 \<and>
      length (block_list (bm_block_ranges m)) < 2 ^ 32)"

text \<open>The text form, and the device offset a mapped address shows.\<close>

definition range_line :: "range \<Rightarrow> string" where
  "range_line r = to_dec (unat (fst r)) @ CHR '' '' # to_dec (unat (snd r))"

definition block_map_lines :: "block_map_data \<Rightarrow> string list" where
  "block_map_lines m =
     bm_path m # (to_dec (unat (bm_file_size m)) @ CHR '' '' # to_dec (unat (bm_block_size m))) #
     to_dec (length (rs_ranges (bm_block_ranges m))) # map range_line (rs_ranges (bm_block_ranges m))"

fun shows_offset :: "mapping list \<Rightarrow> nat \<Rightarrow> nat option" where
  "shows_offset [] a = None"
| "shows_offset ((p, n, off) # maps) a =
     (if unat p \<le> a \<and> a < unat p + unat n then Some (unat off + (a - unat p)) else shows_offset maps a)"

locale libbase_lines =
  fixes Trim :: "string \<Rightarrow> string"
    and Split :: "string \<Rightarrow> char \<Rightarrow> string list"
  assumes Trim_end: "s \<noteq> [] \<Longrightarrow> \<not> is_space (hd s) \<Longrightarrow> \<not> is_space (last s) \<Longrightarrow> list_all is_space t \<Longrightarrow> Trim (s @ t) = s"
    and Split_join: "ps \<noteq> [] \<Longrightarrow> list_all (\<lambda>p. c \<notin> set p) ps \<Longrightarrow> Split (join c ps) c = ps"

definition trim_ws :: "string \<Rightarrow> string" where
  "trim_ws s = rev (dropWhile is_space (rev (dropWhile is_space s)))"

interpretation ws_lines: libbase_lines trim_ws split_on
proof unfold_locales
  fix s t :: string
  assume *: "s \<noteq> []" "\<not> is_space (hd s)" "\<not> is_space (last s)" "list_all is_space t"
  then have "dropWhile is_space (s @ t) = s @ t" by (cases s) auto
  moreover have "dropWhile is_space (rev t @ rev s) = dropWhile is_space (rev s)"
    using * by (intro dropWhile_append2) (auto simp: list_all_iff)
  moreover have "dropWhile is_space (rev s) = rev s"
    using * by (cases s rule: rev_cases) auto
  ultimately show "trim_ws (s @ t) = s" by (simp add: trim_ws_def)
qed (simp add: split_on_join)

section \<open>The parser accepts only well-formed block maps\<close>

lemma PushBack_small:
  assumes "rs_inv rs" "start < end" "length (block_list rs) + unat (end - start) < 2 ^ 63"
  shows "rs_inv (snd (PushBack rs (start, end)))"
    and "rs_ranges (snd (PushBack rs (start, end))) = rs_ranges rs @ [(start, end)]"
proof -
  have "fst (PushBack rs (start, end))"
    using assms PushBack_True_iff [OF assms(1)] by (simp add: unat_sub_less)
  then have "PushBack rs (start, end) = (True, snd (PushBack rs (start, end)))"
    by (metis prod.collapse)
  from PushBack_blocks [OF assms(1) this] show
    "rs_inv (snd (PushBack rs (start, end)))"
    "rs_ranges (snd (PushBack rs (start, end))) = rs_ranges rs @ [(start, end)]"
    by blast+
qed

lemma parse_range_lines_ok:
  assumes "parse_range_lines lines rs rem = Some (rs', rem')" "rs_inv rs"
    and "length (block_list rs) + unat rem < 2 ^ 63"
  shows "rs_inv rs' \<and> length (block_list rs') + unat rem' = length (block_list rs) + unat rem \<and>
    length (rs_ranges rs') = length (rs_ranges rs) + length lines"
  using assms
proof (induction lines rs rem rule: parse_range_lines.induct)
  case (1 ranges remaining)
  then show ?case by simp
next
  case (2 line lines ranges remaining)
  from "2.prems"(1) obtain start "end" where
    se: "sscanf_uu line = Some (start, end)" "start < end" "end - start \<le> remaining"
    and rec: "parse_range_lines lines (snd (PushBack ranges (start, end))) (remaining - (end - start)) = Some (rs', rem')"
    by (auto simp: Let_def not_le split: option.splits if_splits)
  let ?p = "snd (PushBack ranges (start, end))"
  have fits: "length (block_list ranges) + unat (end - start) < 2 ^ 63"
    using se(3) "2.prems"(3) by (simp add: word_le_nat_alt)
  note p = PushBack_small [OF "2.prems"(2) se(2) fits]
  have len: "length (block_list ?p) = length (block_list ranges) + unat (end - start)"
    using se(2) by (simp add: block_list_def p(2) unat_sub_less)
  have rem: "unat (remaining - (end - start)) = unat remaining - unat (end - start)"
    using se(3) by (simp add: unat_sub)
  show ?case
    using "2.IH" [OF se(1) refl refl _ rec p(1)] se "2.prems"(3)
    by (auto simp: len rem p(2) word_le_nat_alt word_less_nat_alt)
qed

lemma RangeSet_empty_simps [simp]:
  "rs_inv RangeSet_empty" "block_list RangeSet_empty = []" "rs_ranges RangeSet_empty = []"
  by (simp_all add: rs_inv_def RangeSet_empty_def block_list_def)

lemma ceil_div_word:
  fixes fs :: u64 and bs :: u32
  assumes "fs \<noteq> 0"
  shows "unat ((fs - 1) div ucast bs + 1) = (unat fs - 1) div unat bs + 1"
proof -
  define q where "q = (fs - 1) div ucast bs"
  have q: "unat q = (unat fs - 1) div unat bs"
    using assms by (simp add: q_def unat_div unat_minus_one)
  then have "unat q \<le> unat fs - 1" by (metis div_le_dividend)
  moreover have "0 < unat fs" using assms by (simp add: unat_gt_0)
  ultimately have "unat q + unat (1 :: u64) < 2 ^ LENGTH(64)"
    using unat_less_64 [of fs] by simp
  from unat_add_nowrap [OF this] show ?thesis by (simp add: q flip: q_def)
qed

lemma ParseBlockMapFile_valid:
  assumes "bm_valid (ParseBlockMapFile Trim Split content)"
  shows "block_map_ok (ParseBlockMapFile Trim Split content)"
proof -
  define lines where "lines = Split (Trim (the content)) (CHR ''\<newline>'')"
  obtain file_size blksize range_count ranges where
    res: "ParseBlockMapFile Trim Split content =
      \<lparr>bm_path = lines ! 0, bm_file_size = file_size, bm_block_size = (blksize :: u32), bm_block_ranges = ranges\<rparr>" and
    pl: "parse_range_lines (take (unat range_count) (drop 3 lines)) RangeSet_empty
           (((file_size - 1) div ucast blksize) + 1) = Some (ranges, 0)" and
    l: "4 \<le> length lines" and fs: "file_size \<noteq> 0" "blksize \<noteq> 0" and
    bl: "((file_size - 1) div ucast blksize) + 1 \<le> 4294967295" and
    rc: "range_count \<noteq> (0 :: u64)" "of_nat (length lines) = 3 + range_count"
    using assms
    by (auto simp: lines_def bm_valid_def ParseBlockMapFile_def BlockMapData_empty_def Let_def not_less not_le
        split: option.splits if_splits prod.splits)
  let ?blocks = "((file_size - 1) div ucast blksize) + 1 :: u64"
  have small: "unat ?blocks < 2 ^ 32" using bl by (simp add: word_le_nat_alt)
  have ok: "rs_inv ranges" "length (block_list ranges) = unat ?blocks"
    "length (rs_ranges ranges) = min (unat range_count) (length lines - 3)"
    using parse_range_lines_ok [OF pl] small by auto
  moreover have "rs_ranges ranges \<noteq> []"
  proof
    assume "rs_ranges ranges = []"
    with ok(3) l have "unat range_count = 0" by auto
    with rc(1) show False by (simp add: word_unat_eq_iff)
  qed
  ultimately show ?thesis
    using fs small by (simp add: res block_map_ok_def unat_gt_0 ceil_div_word)
qed

section \<open>The text form is parsed back\<close>

lemma digit_not_space: "is_digit c \<Longrightarrow> \<not> is_space c"
  by (auto simp: is_digit_def is_space_def)

lemma digit_not_sign: "is_digit c \<Longrightarrow> c \<noteq> CHR ''-'' \<and> c \<noteq> CHR ''+''"
  by (auto simp: is_digit_def)

lemma scan_uint_to_dec:
  assumes "n < 2 ^ 64" "t = [] \<or> \<not> is_digit (hd t)"
  shows "scan_uint (to_dec n @ t) = Some (of_nat n, t)" and "scan_uint (CHR '' '' # to_dec n @ t) = Some (of_nat n, t)"
proof -
  obtain c ds where cs: "to_dec n = c # ds" by (cases "to_dec n") auto
  then have c: "is_digit c" using to_dec_digits [of n] by simp
  have "takeWhile is_digit (to_dec n @ t) = to_dec n @ takeWhile is_digit t"
    and "dropWhile is_digit (to_dec n @ t) = dropWhile is_digit t"
    using to_dec_digits [of n] by (auto simp: list_all_iff)
  moreover have "takeWhile is_digit t = []" "dropWhile is_digit t = t"
    using assms(2) by (cases t; simp)+
  ultimately have td: "takeWhile is_digit (to_dec n @ t) = to_dec n" "dropWhile is_digit (to_dec n @ t) = t"
    by simp_all
  have sg: "scan_sign (to_dec n @ t) = (False, to_dec n @ t)" and sp: "dropWhile is_space (to_dec n @ t) = to_dec n @ t"
    using c digit_not_sign [OF c] digit_not_space [OF c] by (simp_all add: cs scan_sign_def)
  show "scan_uint (to_dec n @ t) = Some (of_nat n, t)"
    using assms(1) by (simp add: scan_uint_def sg sp td strtoumax_def)
  then show "scan_uint (CHR '' '' # to_dec n @ t) = Some (of_nat n, t)"
    by (simp add: scan_uint_def is_space_def)
qed

lemma sscanf_u_to_dec: "n < 2 ^ 64 \<Longrightarrow> sscanf_u (to_dec n) = Some (of_nat n)"
  using scan_uint_to_dec(1) [of n "[]"] by (simp add: sscanf_u_def)

lemma sscanf_uu_to_dec:
  assumes "n < 2 ^ 64" "k < 2 ^ 64"
  shows "sscanf_uu (to_dec n @ CHR '' '' # to_dec k) = Some (of_nat n, of_nat k)"
proof -
  have "\<not> is_digit (CHR '' '')" by (simp add: is_digit_def)
  then show ?thesis
    using scan_uint_to_dec(1) [OF assms(1), of "CHR '' '' # to_dec k"] scan_uint_to_dec(2) [OF assms(2), of "[]"]
    by (simp add: sscanf_uu_def)
qed

lemma sscanf_uu_range_line: "sscanf_uu (range_line r) = Some r"
  using sscanf_uu_to_dec [of "unat (fst r)" "unat (snd r)"] unat_less_64 [of "fst r"] unat_less_64 [of "snd r"]
  by (simp add: range_line_def)

lemma length_ranges_le_blocks: "list_all (\<lambda>(a, b). a < b) rr \<Longrightarrow> length rr \<le> length (blocks_of rr)"
  by (induction rr) (auto simp: word_less_nat_alt)

lemma parse_range_lines_text:
  assumes "rs_inv rs" "list_all (\<lambda>(a, b). a < b) rr" "unat rem = length (blocks_of rr)"
    and "length (block_list rs) + unat rem < 2 ^ 63"
  shows "\<exists>rs'. parse_range_lines (map range_line rr) rs rem = Some (rs', 0) \<and> rs_inv rs' \<and>
    rs_ranges rs' = rs_ranges rs @ rr"
  using assms
proof (induction rr arbitrary: rs rem)
  case (Cons r rr)
  obtain a b where r: "r = (a, b)" by (cases r)
  have ab: "a < b" "unat (b - a) = unat b - unat a" using Cons.prems(2) by (auto simp: r unat_sub_less)
  have le: "b - a \<le> rem" using Cons.prems(3) ab by (simp add: r word_le_nat_alt)
  have "length (block_list rs) + unat (b - a) < 2 ^ 63"
    using le Cons.prems(4) by (simp add: word_le_nat_alt)
  note p = PushBack_small [OF Cons.prems(1) ab(1) this]
  have len: "length (block_list (snd (PushBack rs (a, b)))) = length (block_list rs) + (unat b - unat a)"
    by (simp add: block_list_def p(2))
  have "unat (rem - (b - a)) = length (blocks_of rr)"
    using le Cons.prems(3) ab by (simp add: unat_sub r)
  with Cons.IH [OF p(1) _ this] show ?case
    using Cons.prems(2,3,4) ab le
    by (auto simp: r sscanf_uu_range_line Let_def len p(2) unat_sub not_le not_less)
qed (auto simp: word_unat_eq_iff)

lemma last_join:
  assumes "ps \<noteq> []" "last ps \<noteq> []"
  shows "join c ps \<noteq> [] \<and> last (join c ps) = last (last ps)"
  using assms by (induction c ps rule: join.induct) auto

lemma hd_join: "p \<noteq> [] \<Longrightarrow> hd (join c (p # ps)) = hd p"
  by (cases ps) auto

lemma join_not_Nil: "p \<noteq> [] \<Longrightarrow> join c (p # ps) \<noteq> []"
  by (cases ps) auto

lemma to_dec_no_newline [simp]: "CHR ''\<newline>'' \<notin> set (to_dec n)"
  using to_dec_digits [of n] by (auto simp: list_all_iff is_digit_def)

lemma last_to_dec_digit: "\<not> is_space (last (to_dec n))"
  using to_dec_digits [of n] digit_not_space by (auto simp: list_all_iff)

context libbase_lines
begin

lemma ParseBlockMapFile_text:
  assumes ok: "block_map_ok m" and path: "bm_path m \<noteq> []" "CHR ''\<newline>'' \<notin> set (bm_path m)" "\<not> is_space (hd (bm_path m))"
  shows "ParseBlockMapFile Trim Split (Some (join (CHR ''\<newline>'') (block_map_lines m) @ ''\<newline>'')) = m"
proof -
  let ?rr = "rs_ranges (bm_block_ranges m)" and ?ls = "block_map_lines m"
  have rr: "?rr \<noteq> []" "list_all (\<lambda>(a, b). a < b) ?rr" using ok by (auto simp: block_map_ok_def rs_inv_def)
  have last: "last ?ls = range_line (last ?rr)" using rr(1) by (simp add: block_map_lines_def last_map)
  then have "\<not> is_space (last (join (CHR ''\<newline>'') ?ls))"
    using last_join [of ?ls] last_to_dec_digit
    by (simp add: block_map_lines_def range_line_def)
  moreover have "\<not> is_space (hd (join (CHR ''\<newline>'') ?ls))" "join (CHR ''\<newline>'') ?ls \<noteq> []"
    using path by (simp_all add: block_map_lines_def hd_join join_not_Nil)
  ultimately have "Trim (join (CHR ''\<newline>'') ?ls @ ''\<newline>'') = join (CHR ''\<newline>'') ?ls"
    by (intro Trim_end) (auto simp: is_space_def)
  moreover have "Split (join (CHR ''\<newline>'') ?ls) (CHR ''\<newline>'') = ?ls"
    using path by (intro Split_join) (auto simp: block_map_lines_def range_line_def list_all_iff)
  ultimately have lines: "Split (Trim (join (CHR ''\<newline>'') ?ls @ ''\<newline>'')) (CHR ''\<newline>'') = ?ls"
    by simp
  obtain rs where
    p: "parse_range_lines (map range_line ?rr) RangeSet_empty ((bm_file_size m - 1) div ucast (bm_block_size m) + 1)
        = Some (rs, 0)" "rs_inv rs" "rs_ranges rs = ?rr"
    using parse_range_lines_text [of RangeSet_empty ?rr "(bm_file_size m - 1) div ucast (bm_block_size m) + 1"] rr ok
    by (auto simp: block_map_ok_def ceil_div_word block_list_def unat_gt_0)
  have rs: "rs = bm_block_ranges m"
    using p ok by (auto simp: block_map_ok_def rs_inv_def block_list_def word_unat_eq_iff intro: range_set.equality)
  have n: "length ?rr < 2 ^ 63" "unat (of_nat (length ?rr) :: u64) = length ?rr"
    using length_ranges_le_blocks [OF rr(2)] ok by (simp_all add: block_map_ok_def block_list_def unat_of_nat_small)
  have sizes: "sscanf_uu (?ls ! 1) = Some (bm_file_size m, ucast (bm_block_size m))"
    using sscanf_uu_to_dec [of "unat (bm_file_size m)" "unat (bm_block_size m)"]
      unat_less_64 [of "bm_file_size m"] unat_less_32 [of "bm_block_size m"]
    by (simp add: block_map_lines_def)
  have count: "sscanf_u (?ls ! 2) = Some (of_nat (length ?rr))"
    using sscanf_u_to_dec [of "length ?rr"] n by (simp add: block_map_lines_def)
  have blocks: "\<not> (bm_file_size m - 1) div ucast (bm_block_size m) + 1 > 4294967295"
    using ok by (simp add: block_map_ok_def word_less_nat_alt ceil_div_word unat_gt_0)
  have nz: "bm_file_size m \<noteq> 0" "bm_block_size m \<noteq> 0" "(of_nat (length ?rr) :: u64) \<noteq> 0"
    using ok n rr(1) by (auto simp: block_map_ok_def word_unat_eq_iff)
  have "\<not> length ?ls < 4" "of_nat (length ?ls) = 3 + (of_nat (length ?rr) :: u64)"
    "take (length ?rr) (drop 3 ?ls) = map range_line ?rr" "?ls ! 0 = bm_path m"
    using rr(1) by (simp_all add: block_map_lines_def numeral_3_eq_3 numeral_eq_Suc Suc_le_eq)
  then show ?thesis
    using p rs sizes count blocks nz n
    by (simp add: ParseBlockMapFile_def Let_def lines)
qed

end

section \<open>The memory a block map is mapped to\<close>

lemma range_bytes:
  fixes a b :: u64
  assumes "a < b" "unat b * unat bs < 2 ^ 64"
  shows "unat ((b - a) * ucast (bs :: u32)) = (unat b - unat a) * unat bs" "unat (a * ucast bs) = unat a * unat bs"
proof -
  have "(unat b - unat a) * unat bs < 2 ^ 64" "unat a * unat bs < 2 ^ 64"
    using assms(1) by (auto simp del: power_numeral simp: word_less_nat_alt intro: le_less_trans [OF mult_le_mono1 assms(2)])
  then show "unat ((b - a) * ucast bs) = (unat b - unat a) * unat bs" "unat (a * ucast bs) = unat a * unat bs"
    using unat_mult_nowrap [of "b - a" "ucast bs"] unat_mult_nowrap [of a "ucast bs"] assms(1)
    by (simp_all add: unat_sub_less)
qed

lemma nth_upt_byte:
  assumes "i < (b - a) * bs" "a < b"
  shows "([a..<b] @ ys) ! (i div bs) * bs + i mod bs = a * bs + (i :: nat)"
proof -
  have "i div bs < b - a" using assms by (simp add: less_mult_imp_div_less)
  then show ?thesis by (simp add: nth_append add_mult_distrib)
qed

lemma nth_drop_byte:
  assumes "(b - a) * bs \<le> i" "0 < bs" "a < b"
  shows "([a..<b] @ ys) ! (i div bs) = ys ! ((i - (b - a) * bs) div bs)" "(i - (b - a) * bs) mod bs = i mod (bs :: nat)"
proof -
  define j where "j = i - (b - a) * bs"
  have i: "i = j + (b - a) * bs" using assms by (simp add: j_def)
  show "([a..<b] @ ys) ! (i div bs) = ys ! ((i - (b - a) * bs) div bs)"
    using assms(2) by (simp add: i nth_append)
  show "(i - (b - a) * bs) mod bs = i mod bs" by (simp add: i)
qed

lemma ceil_covers: "0 < n \<Longrightarrow> 0 < k \<Longrightarrow> n \<le> ((n - 1) div k + 1) * (k :: nat)"
  using dividend_less_times_div [of k "n - 1"] by (simp add: algebra_simps)

lemma map_block_ranges_all: "\<forall>a n off. map_fixed a n off \<Longrightarrow> fst (map_block_ranges map_fixed bs rr nxt rem maps)"
  by (induction rr arbitrary: nxt rem maps) (auto simp: Let_def)

lemma map_block_ranges_layout:
  assumes "map_block_ranges map_fixed bs rr nxt rem maps = (True, maps', rem')"
    and "list_all (\<lambda>(a, b). a < b \<and> unat b * unat bs < 2 ^ 64) rr" "0 < unat bs"
    and "unat nxt + length (blocks_of rr) * unat bs < 2 ^ 64" "unat rem = length (blocks_of rr) * unat bs"
  shows "rem' = 0 \<and> (\<exists>new. maps' = maps @ new \<and>
    (\<forall>i < length (blocks_of rr) * unat bs. shows_offset new (unat nxt + i) =
       Some (blocks_of rr ! (i div unat bs) * unat bs + i mod unat bs)))"
  using assms
proof (induction rr arbitrary: nxt rem maps)
  case Nil
  then show ?case by (simp add: word_unat_eq_iff)
next
  case (Cons r rr)
  obtain a b where r: "r = (a, b)" by (cases r)
  define sz off where "sz = (b - a) * ucast bs" and "off = a * ucast bs"
  have ab: "a < b" "unat b * unat bs < 2 ^ 64" using Cons.prems(2) by (auto simp: r)
  have u: "unat sz = (unat b - unat a) * unat bs" "unat off = unat a * unat bs"
    using range_bytes [OF ab] by (simp_all add: sz_def off_def)
  have tot: "length (blocks_of (r # rr)) * unat bs = unat sz + length (blocks_of rr) * unat bs"
    by (simp add: r u add_mult_distrib)
  have un: "unat (nxt + sz) = unat nxt + unat sz"
    using Cons.prems(4) unfolding tot by (intro unat_add_nowrap) simp
  have ur: "unat (rem - sz) = unat rem - unat sz"
    using Cons.prems(5) unfolding tot by (intro unat_sub) (simp add: word_le_nat_alt)
  have rec: "map_block_ranges map_fixed bs rr (nxt + sz) (rem - sz) (maps @ [(nxt, sz, off)]) = (True, maps', rem')"
    using Cons.prems(1) by (simp add: r Let_def sz_def off_def split: if_splits)
  have pre: "unat (nxt + sz) + length (blocks_of rr) * unat bs < 2 ^ 64"
    "unat (rem - sz) = length (blocks_of rr) * unat bs"
    using Cons.prems(4,5) unfolding tot un ur by simp_all
  from Cons.IH [OF rec _ Cons.prems(3) pre] Cons.prems(2) obtain new where
    new: "rem' = 0" "maps' = maps @ (nxt, sz, off) # new" and
    at: "\<And>i. i < length (blocks_of rr) * unat bs \<Longrightarrow> shows_offset new (unat (nxt + sz) + i) =
       Some (blocks_of rr ! (i div unat bs) * unat bs + i mod unat bs)"
    by auto
  have "shows_offset ((nxt, sz, off) # new) (unat nxt + i) =
      Some (blocks_of (r # rr) ! (i div unat bs) * unat bs + i mod unat bs)"
    if i: "i < length (blocks_of (r # rr)) * unat bs" for i
  proof (cases "i < unat sz")
    case True
    then show ?thesis
      using nth_upt_byte [of i "unat b" "unat a" "unat bs" "blocks_of rr"] ab(1) by (simp add: r u word_less_nat_alt)
  next
    case False
    then have "i - unat sz < length (blocks_of rr) * unat bs" "(unat b - unat a) * unat bs \<le> i"
      using i unfolding tot u(1) by linarith+
    with at [of "i - unat sz"] nth_drop_byte(1) [of "unat b" "unat a" "unat bs" i "blocks_of rr"]
      nth_drop_byte(2) [of "unat b" "unat a" "unat bs" i] False ab(1) Cons.prems(3)
    show ?thesis by (simp add: un r word_less_nat_alt flip: u)
  qed
  with new show ?case by auto
qed

section \<open>Properties\<close>

definition sample_map :: block_map_data where
  "sample_map = \<lparr>bm_path = ''/dev/b'', bm_file_size = 5000, bm_block_size = 4096,
     bm_block_ranges = \<lparr>rs_ranges = [(10, 11), (3, 4)], rs_blocks = 2\<rparr>\<rparr>"

lemma sample_map_ok: "block_map_ok sample_map"
  by (simp add: block_map_ok_def sample_map_def rs_inv_def block_list_def)

text \<open>C29. Whatever the content of the file and however libbase trims and splits it, a block map that
  \<open>ParseBlockMapFile\<close> accepts has positive sizes, at least one range, only non-empty ranges, and exactly as
  many blocks as the file needs, fewer than \<open>2 ^ 32\<close>.\<close>

theorem ParseBlockMapFile_accepts:
  assumes "bm_valid (ParseBlockMapFile Trim Split content)"
  shows "block_map_ok (ParseBlockMapFile Trim Split content)"
  using assms by (rule ParseBlockMapFile_valid)

theorem ParseBlockMapFile_accepts_witness:
  "block_map_ok (ParseBlockMapFile trim_ws split_on (Some (join (CHR ''\<newline>'') (block_map_lines sample_map) @ ''\<newline>'')))"
proof (rule ParseBlockMapFile_accepts)
  have "ParseBlockMapFile trim_ws split_on (Some (join (CHR ''\<newline>'') (block_map_lines sample_map) @ ''\<newline>''))
      = sample_map"
    by (rule ws_lines.ParseBlockMapFile_text [OF sample_map_ok]) (simp_all add: sample_map_def is_space_def)
  then show "bm_valid (ParseBlockMapFile trim_ws split_on
      (Some (join (CHR ''\<newline>'') (block_map_lines sample_map) @ ''\<newline>'')))"
    by (simp add: bm_valid_def sample_map_def)
qed

text \<open>C24. A well-formed block map written in its text form (device, sizes, range count, one range per line)
  is parsed back to itself.\<close>

theorem ParseBlockMapFile_roundtrip:
  assumes "libbase_lines Trim Split" "block_map_ok m"
    and "bm_path m \<noteq> []" "CHR ''\<newline>'' \<notin> set (bm_path m)" "\<not> is_space (hd (bm_path m))"
  shows "ParseBlockMapFile Trim Split (Some (join (CHR ''\<newline>'') (block_map_lines m) @ ''\<newline>'')) = m"
  using assms by (rule libbase_lines.ParseBlockMapFile_text)

theorem ParseBlockMapFile_roundtrip_witness:
  "ParseBlockMapFile trim_ws split_on (Some (join (CHR ''\<newline>'') (block_map_lines sample_map) @ ''\<newline>'')) = sample_map"
  by (rule ParseBlockMapFile_roundtrip [OF ws_lines.libbase_lines_axioms sample_map_ok])
    (simp_all add: sample_map_def is_space_def)

text \<open>C16. When the reservation does not reach the end of the address space and the device is smaller than
  \<open>2 ^ 64\<close> bytes, a successful \<open>MapBlockFile\<close> shows at \<open>addr + i\<close>, for every byte \<open>i\<close> of the file, the
  device byte where the block map places it; and it succeeds when the system calls do.\<close>

theorem MapBlockFile_layout:
  assumes ok: "block_map_ok bm" "bm_valid bm"
    and dev: "list_all (\<lambda>(a, b). unat b * unat (bm_block_size bm) < 2 ^ 64) (rs_ranges (bm_block_ranges bm))"
    and res: "reserve (((bm_file_size bm - 1) div ucast (bm_block_size bm) + 1) * ucast (bm_block_size bm)) = Some base"
    and top: "unat base + length (block_list (bm_block_ranges bm)) * unat (bm_block_size bm) < 2 ^ 64"
    and opn: "open_ok (bm_path bm)"
  shows "((\<forall>a n off. map_fixed a n off) \<longrightarrow> fst (MapBlockFile reserve open_ok map_fixed bm mm)) \<and>
    (case MapBlockFile reserve open_ok map_fixed bm mm of (mapped, mm', maps) \<Rightarrow> mapped \<longrightarrow>
       mm_addr mm' = base \<and> mm_length mm' = bm_file_size bm \<and>
       (\<forall>i < unat (bm_file_size bm). shows_offset maps (unat (mm_addr mm') + i) =
          Some (block_list (bm_block_ranges bm) ! (i div unat (bm_block_size bm)) * unat (bm_block_size bm)
                + i mod unat (bm_block_size bm))))"
proof -
  let ?bs = "bm_block_size bm" and ?rr = "rs_ranges (bm_block_ranges bm)"
  define sz where "sz = ((bm_file_size bm - 1) div ucast ?bs + 1) * ucast ?bs"
  have fs: "0 < unat (bm_file_size bm)" "0 < unat ?bs" and
    len: "length (blocks_of ?rr) = (unat (bm_file_size bm) - 1) div unat ?bs + 1" and
    rr: "list_all (\<lambda>(a, b). a < b \<and> unat b * unat ?bs < 2 ^ 64) ?rr"
    using ok(1) dev by (auto simp: block_map_ok_def rs_inv_def block_list_def list_all_iff)
  have "unat ((bm_file_size bm - 1) div ucast ?bs + 1) = length (blocks_of ?rr)"
    using len fs(1) by (simp add: ceil_div_word unat_gt_0)
  then have sz: "unat sz = length (blocks_of ?rr) * unat ?bs"
    using unat_mult_nowrap [of "(bm_file_size bm - 1) div ucast ?bs + 1" "ucast ?bs"] top
    by (simp add: sz_def block_list_def)
  have covers: "unat (bm_file_size bm) \<le> length (blocks_of ?rr) * unat ?bs"
    using ceil_covers [OF fs] by (simp only: len)
  note loop = map_block_ranges_layout [OF _ rr fs(2) top [unfolded block_list_def] sz, of map_fixed "[]"]
  obtain mapped maps rem' where
    m: "map_block_ranges map_fixed ?bs ?rr base sz [] = (mapped, maps, rem')"
    by (cases "map_block_ranges map_fixed ?bs ?rr base sz []")
  have all: "mapped" if "\<forall>a n off. map_fixed a n off"
    using map_block_ranges_all [OF that, of ?bs ?rr base sz "[]"] m by simp
  show ?thesis
  proof (cases mapped)
    case False
    then show ?thesis
      using all res opn ok(2) m by (auto simp: MapBlockFile_def Let_def simp flip: sz_def)
  next
    case True
    with loop m have "rem' = 0" "\<And>i. i < length (blocks_of ?rr) * unat ?bs \<Longrightarrow> shows_offset maps (unat base + i) =
        Some (blocks_of ?rr ! (i div unat ?bs) * unat ?bs + i mod unat ?bs)"
      by auto
    then show ?thesis
      using True res opn ok(2) m covers
      by (auto simp: MapBlockFile_def Let_def block_list_def simp flip: sz_def)
  qed
qed

theorem MapBlockFile_layout_witness:
  "\<exists>mm' maps. MapBlockFile (\<lambda>n. Some 65536) (\<lambda>p. True) (\<lambda>a n off. True) sample_map
       \<lparr>mm_addr = 0, mm_length = 0, mm_ranges = []\<rparr> = (True, mm', maps) \<and>
     mm_length mm' = 5000 \<and> shows_offset maps (unat (mm_addr mm') + 4097) = Some 12289"
proof -
  have "rs_ranges (bm_block_ranges sample_map) = [(10, 11), (3, 4)]" "bm_block_size sample_map = 4096"
    "bm_file_size sample_map = 5000" "bm_valid sample_map"
    by (simp_all add: sample_map_def bm_valid_def)
  then show ?thesis
    using MapBlockFile_layout [OF sample_map_ok, of "\<lambda>n. Some 65536" 65536 "\<lambda>p. True" "\<lambda>a n off. True"
        "\<lparr>mm_addr = 0, mm_length = 0, mm_ranges = []\<rparr>"]
    by (auto simp: block_list_def split: prod.splits dest: spec [of _ 4097])
qed

end
