(* ===== verification/Fuse_Provider.thy ===== *)
theory Fuse_Provider
  imports Block_Map
begin

text \<open>
  The data providers of the sideload file system, \<open>fuse_sideload/fuse_provider.cpp\<close>: a provider that
  reads a regular file and one that reads the blocks of a block map from the block device. The first
  section holds the two classes. The second states what a device read and a provider promise, as two
  locales; the rest proves that the providers keep that promise, and shows the one request on which the
  block provider does not.
\<close>

section \<open>The providers\<close>

text \<open>
  \<open>ReadFullyAtOffset\<close> of libbase on the provider's descriptor is the argument \<open>rd\<close>: length and offset to
  success and the bytes it stored at the start of the buffer. \<open>ReadBlockAlignedData\<close> gives the return
  value and the bytes written from the start of the caller's buffer.
\<close>

type_synonym device_read = "u64 \<Rightarrow> u64 \<Rightarrow> bool \<times> bytes"

record file_provider =
  fp_file_size :: u64
  fp_fuse_block_size :: u32
  fp_open :: bool

definition FuseFileDataProvider :: "u64 option \<Rightarrow> bool \<Rightarrow> u32 \<Rightarrow> file_provider" where
  "FuseFileDataProvider st_size opened block_size =
     (case st_size of
        None \<Rightarrow> \<lparr>fp_file_size = 0, fp_fuse_block_size = 0, fp_open = False\<rparr>
      | Some sz \<Rightarrow>
          if \<not> opened then \<lparr>fp_file_size = 0, fp_fuse_block_size = 0, fp_open = False\<rparr>
          else \<lparr>fp_file_size = sz, fp_fuse_block_size = block_size, fp_open = True\<rparr>)"

definition File_ReadBlockAlignedData :: "device_read \<Rightarrow> file_provider \<Rightarrow> u32 \<Rightarrow> u32 \<Rightarrow> bool \<times> bytes" where
  "File_ReadBlockAlignedData rd p fetch_size start_block =
     (let offset = ucast start_block * ucast (fp_fuse_block_size p) :: u64 in
      if ucast fetch_size > fp_file_size p \<or> offset > fp_file_size p - ucast fetch_size then (False, [])
      else rd (ucast fetch_size) offset)"

definition File_Close :: "file_provider \<Rightarrow> file_provider" where
  "File_Close p = p\<lparr>fp_open := False\<rparr>"

record block_provider =
  bp_file_size :: u64
  bp_fuse_block_size :: u32
  bp_open :: bool
  bp_source_block_size :: u32
  bp_ranges :: range_set

text \<open>The constructor stops the process unless the fuse block is a whole number of source blocks.\<close>

definition FuseBlockDataProvider :: "u64 \<Rightarrow> u32 \<Rightarrow> u32 \<Rightarrow> range_set \<Rightarrow> block_provider checked" where
  "FuseBlockDataProvider file_size fuse_block_size source_block_size ranges =
     (if fuse_block_size mod source_block_size \<noteq> 0 then Abort
      else Ret \<lparr>bp_file_size = file_size, bp_fuse_block_size = fuse_block_size, bp_open = True,
                bp_source_block_size = source_block_size, bp_ranges = ranges\<rparr>)"

definition CreateFromBlockMap ::
  "(string \<Rightarrow> bool) \<Rightarrow> block_map_data \<Rightarrow> u32 \<Rightarrow> block_provider option checked" where
  "CreateFromBlockMap open_ok block_map fuse_block_size =
     (if \<not> bm_valid block_map then Ret None
      else if \<not> open_ok (bm_path block_map) then Ret None
      else case FuseBlockDataProvider (bm_file_size block_map) fuse_block_size (bm_block_size block_map)
                  (bm_block_ranges block_map) of
             Abort \<Rightarrow> Abort | Ret p \<Rightarrow> Ret (Some p))"

text \<open>The loop over the sub-ranges; \<open>out\<close> is what has been written to the buffer.\<close>

fun read_sub_ranges :: "device_read \<Rightarrow> u32 \<Rightarrow> range list \<Rightarrow> bytes \<Rightarrow> bool \<times> bytes" where
  "read_sub_ranges rd source_block_size [] out = (True, out)"
| "read_sub_ranges rd source_block_size ((range_start, range_end) # rest) out =
     (let bytes_start = range_start * ucast source_block_size;
          bytes_to_read = (range_end - range_start) * ucast source_block_size in
      case rd bytes_to_read bytes_start of
        (False, d) \<Rightarrow> (False, out @ d)
      | (True, d) \<Rightarrow> read_sub_ranges rd source_block_size rest (out @ d))"

definition Block_ReadBlockAlignedData ::
  "device_read \<Rightarrow> block_provider \<Rightarrow> u32 \<Rightarrow> u32 \<Rightarrow> (bool \<times> bytes) checked" where
  "Block_ReadBlockAlignedData rd p fetch_size start_block =
     (let offset = ucast start_block * ucast (bp_fuse_block_size p) :: u64;
          sbs = bp_source_block_size p in
      if ucast fetch_size > bp_file_size p \<or> offset > bp_file_size p - ucast fetch_size then Ret (False, [])
      else case GetSubRanges (bp_ranges p) (offset div ucast sbs) (ucast (fetch_size div sbs)) of
        Abort \<Rightarrow> Abort
      | Ret None \<Rightarrow> Ret (False, [])
      | Ret (Some read_ranges) \<Rightarrow>
        (case read_sub_ranges rd sbs (rs_ranges read_ranges) [] of
           (False, out) \<Rightarrow> Ret (False, out)
         | (True, out) \<Rightarrow>
             let tailing_bytes = ucast (fetch_size mod sbs) :: u64 in
             if tailing_bytes = 0 then Ret (True, out)
             else case (if rs_ranges read_ranges \<noteq> [] then Ret (snd (last (rs_ranges read_ranges)))
                        else GetBlockNumber (bp_ranges p) (offset div ucast sbs)) of
               Abort \<Rightarrow> Abort
             | Ret tail_block \<Rightarrow>
                 (case rd tailing_bytes (tail_block * ucast sbs) of (ok, d) \<Rightarrow> Ret (ok, out @ d))))"

definition Block_Close :: "block_provider \<Rightarrow> block_provider" where
  "Block_Close p = p\<lparr>bp_open := False\<rparr>"

section \<open>Contracts\<close>

text \<open>
  What \<open>ReadFullyAtOffset\<close> promises for a descriptor whose content \<open>dev\<close> does not change: it succeeds
  with exactly the bytes asked for, and only inside the content.
\<close>

locale stable_device =
  fixes rd :: device_read and dev :: bytes
  assumes rd_ok: "rd n off = (True, d) \<Longrightarrow> unat off + unat n \<le> length dev \<and> d = take (unat n) (drop (unat off) dev)"
    and rd_in: "unat off + unat n \<le> length dev \<Longrightarrow> fst (rd n off)"

definition pread_list :: "bytes \<Rightarrow> device_read" where
  "pread_list dev n off =
     (if unat off + unat n \<le> length dev then (True, take (unat n) (drop (unat off) dev)) else (False, drop (unat off) dev))"

interpretation mem_device: stable_device "pread_list dev" dev for dev
  by unfold_locales (auto simp: pread_list_def split: if_splits)

text \<open>
  What the sideload server needs of a provider in a state \<open>p\<close>: the size it announces is that of its
  content, and a request for one block, cut at the end of the file, delivers the content there and
  leaves the provider as it was.
\<close>

locale block_source =
  fixes ok :: "'p \<Rightarrow> bool"
    and read :: "'p \<Rightarrow> u32 \<Rightarrow> u32 \<Rightarrow> bool \<times> bytes \<times> 'p"
    and fsize :: "'p \<Rightarrow> u64" and bsize :: "'p \<Rightarrow> u32" and content :: "'p \<Rightarrow> bytes"
  assumes size: "ok p \<Longrightarrow> unat (fsize p) = length (content p)"
    and read_block: "ok p \<Longrightarrow> unat b * unat (bsize p) < length (content p) \<Longrightarrow>
      unat n = min (unat (bsize p)) (length (content p) - unat b * unat (bsize p)) \<Longrightarrow>
      read p n b = (True, take (unat n) (drop (unat b * unat (bsize p)) (content p)), p)"

text \<open>The bytes of a file that a block map describes.\<close>

definition blk :: "bytes \<Rightarrow> nat \<Rightarrow> nat \<Rightarrow> bytes" where
  "blk dev s b = take s (drop (b * s) dev)"

definition mapped_bytes :: "bytes \<Rightarrow> nat \<Rightarrow> nat list \<Rightarrow> bytes" where
  "mapped_bytes dev s bl = concat (map (blk dev s) bl)"

definition bp_content :: "bytes \<Rightarrow> block_provider \<Rightarrow> bytes" where
  "bp_content dev p = take (unat (bp_file_size p))
     (mapped_bytes dev (unat (bp_source_block_size p)) (block_list (bp_ranges p)))"

text \<open>The provider as \<open>CreateFromBlockMap\<close> builds it, on a device that holds all its blocks.\<close>

definition bp_ok :: "bytes \<Rightarrow> block_provider \<Rightarrow> bool" where
  "bp_ok dev p =
     (0 < unat (bp_file_size p) \<and> 0 < unat (bp_source_block_size p) \<and> rs_inv (bp_ranges p) \<and>
      unat (bp_source_block_size p) dvd unat (bp_fuse_block_size p) \<and>
      length (block_list (bp_ranges p)) = (unat (bp_file_size p) - 1) div unat (bp_source_block_size p) + 1 \<and>
      length dev < 2 ^ 64 \<and>
      list_all (\<lambda>b. (b + 1) * unat (bp_source_block_size p) \<le> length dev) (block_list (bp_ranges p)))"

text \<open>
  The case the block provider's tail computation covers: no partial block, or nothing but a partial
  block, or a partial block that follows the last whole one on the device.
\<close>

definition tail_ok :: "block_provider \<Rightarrow> u32 \<Rightarrow> u32 \<Rightarrow> bool" where
  "tail_ok p fetch_size start_block =
     (let s = unat (bp_source_block_size p); n = unat fetch_size div s;
          k = unat start_block * unat (bp_fuse_block_size p) div s in
      unat fetch_size mod s = 0 \<or> n = 0 \<or>
      block_list (bp_ranges p) ! (k + n) = Suc (block_list (bp_ranges p) ! (k + n - 1)))"

section \<open>Blocks of equal length\<close>

lemma concat_uniform:
  assumes "\<forall>x\<in>set xs. length x = s"
  shows "length (concat xs) = length xs * s"
    and "drop (k * s) (concat xs) = concat (drop k xs)"
    and "take (k * s) (concat xs) = concat (take k xs)"
proof -
  show "length (concat xs) = length xs * s" using assms by (induction xs) auto
  show "drop (k * s) (concat xs) = concat (drop k xs)" "take (k * s) (concat xs) = concat (take k xs)"
    using assms
  proof (induction xs arbitrary: k)
    case (Cons x xs)
    { case 1 with Cons show ?case by (cases k) auto
    next case 2 with Cons show ?case by (cases k) auto }
  qed auto
qed

lemma concat_uniform_slice:
  assumes "\<forall>x\<in>set xs. length x = s" "k + n < length xs" "t \<le> s"
  shows "take (n * s + t) (drop (k * s) (concat xs)) = concat (take n (drop k xs)) @ take t (xs ! (k + n))"
proof -
  have len: "length (concat (take n (drop k xs))) = n * s"
    using concat_uniform(1) [of "take n (drop k xs)" s] assms by (auto dest!: in_set_takeD in_set_dropD)
  have "drop k xs = take n (drop k xs) @ xs ! (k + n) # drop (Suc (k + n)) xs"
    using assms(2) by (metis Cons_nth_drop_Suc add.commute append_take_drop_id drop_drop)
  then have "concat (drop k xs) = concat (take n (drop k xs)) @ xs ! (k + n) @ concat (drop (Suc (k + n)) xs)"
    by (metis concat.simps(2) concat_append)
  then show ?thesis
    using assms(1,2,3) len by (simp add: concat_uniform(2))
qed

lemma blk_range:
  assumes "a \<le> b" "b * s \<le> length dev"
  shows "take ((b - a) * s) (drop (a * s) dev) = concat (map (blk dev s) [a..<b])"
  using assms
proof (induction b)
  case (Suc b)
  show ?case
  proof (cases "a \<le> b")
    case True
    have "take ((Suc b - a) * s) (drop (a * s) dev) =
        take ((b - a) * s) (drop (a * s) dev) @ take s (drop ((b - a) * s) (drop (a * s) dev))"
    proof -
      have "(Suc b - a) * s = (b - a) * s + s" using True by (simp add: Suc_diff_le)
      then show ?thesis by (simp only: take_add)
    qed
    also have "drop ((b - a) * s) (drop (a * s) dev) = drop (b * s) dev"
      using True by (simp flip: add_mult_distrib)
    finally show ?thesis using Suc True by (simp add: blk_def)
  qed (use Suc in \<open>simp add: le_Suc_eq\<close>)
qed simp

section \<open>The file provider\<close>

lemma u64_mult_u32: "unat (ucast (a :: u32) * ucast (b :: u32) :: u64) = unat a * unat b"
proof -
  have "unat a * unat b \<le> 4294967295 * 4294967295"
    using unat_less_32 [of a] unat_less_32 [of b] by (intro mult_le_mono) auto
  then show ?thesis using unat_mult_nowrap [of "ucast a :: u64" "ucast b"] by simp
qed

lemma in_bounds_iff:
  fixes fs off :: u64 and n :: u32
  shows "\<not> (ucast n > fs \<or> off > fs - ucast n) \<longleftrightarrow> unat off + unat n \<le> unat fs"
proof (cases "ucast n \<le> fs")
  case True
  then have "unat (fs - ucast n) = unat fs - unat n" by (simp add: unat_sub)
  then show ?thesis using True by (auto simp: word_less_nat_alt word_le_nat_alt)
qed (auto simp: word_less_nat_alt word_le_nat_alt)

context stable_device
begin

lemma rd_exact: "unat off + unat n \<le> length dev \<Longrightarrow> rd n off = (True, take (unat n) (drop (unat off) dev))"
  using rd_ok [of n off "snd (rd n off)"] rd_in [of off n] by (cases "rd n off") simp

lemma File_read:
  assumes "unat (fp_file_size p) = length dev"
  shows "if unat start * unat (fp_fuse_block_size p) + unat n \<le> length dev
     then File_ReadBlockAlignedData rd p n start =
        (True, take (unat n) (drop (unat start * unat (fp_fuse_block_size p)) dev))
     else File_ReadBlockAlignedData rd p n start = (False, [])"
  using in_bounds_iff [where n = n and fs = "fp_file_size p" and off = "ucast start * ucast (fp_fuse_block_size p)"] assms
    rd_exact [of "ucast start * ucast (fp_fuse_block_size p)" "ucast n"]
  by (auto simp: File_ReadBlockAlignedData_def Let_def u64_mult_u32)

end

section \<open>The block provider\<close>

context stable_device
begin

lemma read_sub_ranges_blocks:
  assumes "list_all (\<lambda>(a, b). a < b) rr" "\<forall>b\<in>set (blocks_of rr). (b + 1) * unat s \<le> length dev" "length dev < 2 ^ 64"
  shows "read_sub_ranges rd s rr out = (True, out @ mapped_bytes dev (unat s) (blocks_of rr))"
  using assms
proof (induction rr arbitrary: out)
  case (Cons r rr)
  obtain a b where r: "r = (a, b)" by (cases r)
  have ab: "a < b" using Cons.prems(1) by (simp add: r)
  then have "unat b - 1 \<in> set (blocks_of (r # rr))" by (auto simp: r word_less_nat_alt)
  from bspec [OF Cons.prems(2) this] ab have end_in: "unat b * unat s \<le> length dev"
    by (cases "unat b") (simp_all add: word_less_nat_alt)
  note u = range_bytes [OF ab, of s]
  have split: "(unat b - unat a) * unat s + unat a * unat s = unat b * unat s"
    using ab by (simp add: word_less_nat_alt flip: add_mult_distrib)
  have "rd ((b - a) * ucast s) (a * ucast s) = (True, take ((unat b - unat a) * unat s) (drop (unat a * unat s) dev))"
    using rd_exact [of "a * ucast s" "(b - a) * ucast s"] u end_in Cons.prems(3) split by simp
  moreover have "take ((unat b - unat a) * unat s) (drop (unat a * unat s) dev) =
      concat (map (blk dev (unat s)) [unat a..<unat b])"
    using ab end_in by (intro blk_range) (simp_all add: word_less_nat_alt)
  ultimately show ?case
    using Cons by (simp add: r mapped_bytes_def)
qed (simp add: mapped_bytes_def)

end

lemma mapped_bytes_uniform:
  assumes "\<forall>b\<in>set bl. (b + 1) * s \<le> length dev"
  shows "\<forall>x\<in>set (map (blk dev s) bl). length x = s"
  using assms by (auto simp: blk_def algebra_simps)

lemma mapped_bytes_slice:
  assumes "\<forall>b\<in>set bl. (b + 1) * s \<le> length dev" "k + n < length bl" "t \<le> s"
  shows "take (n * s + t) (drop (k * s) (mapped_bytes dev s bl)) =
    mapped_bytes dev s (take n (drop k bl)) @ take t (drop (bl ! (k + n) * s) dev)"
  using concat_uniform_slice [OF mapped_bytes_uniform [OF assms(1)], of k n t] assms(2,3)
  by (simp add: mapped_bytes_def take_map drop_map blk_def min_def)

lemma mapped_bytes_slice_full:
  assumes "\<forall>b\<in>set bl. (b + 1) * s \<le> length dev"
  shows "take (n * s) (drop (k * s) (mapped_bytes dev s bl)) = mapped_bytes dev s (take n (drop k bl))"
proof -
  have "\<forall>x\<in>set (map (blk dev s) (drop k bl)). length x = s"
    using assms by (intro mapped_bytes_uniform) (blast dest: in_set_dropD)
  from concat_uniform(3) [OF this, of n] concat_uniform(2) [OF mapped_bytes_uniform [OF assms], of k]
  show ?thesis by (simp add: mapped_bytes_def take_map drop_map)
qed

text \<open>The last block of a non-empty set is the one before the end of its last range.\<close>

lemma last_range_block:
  assumes "rs_inv r" "rs_ranges r \<noteq> []"
  shows "unat (snd (last (rs_ranges r))) = Suc (last (block_list r))" "block_list r \<noteq> []"
proof -
  obtain rr a b where rr: "rs_ranges r = rr @ [(a, b)]"
    using assms(2) by (metis append_butlast_last_id prod.collapse)
  then have "a < b" using assms(1) by (simp add: rs_inv_def)
  then show "unat (snd (last (rs_ranges r))) = Suc (last (block_list r))" "block_list r \<noteq> []"
    by (simp_all add: rr block_list_def word_less_nat_alt)
qed

lemma tail_block_number:
  assumes "rs_inv rs" "rs_inv r" "block_list r = take n (drop k (block_list rs))" "k + n < length (block_list rs)"
    and "unat i = k" "block_list rs ! k < 2 ^ 64"
    and "n \<noteq> 0 \<Longrightarrow> block_list rs ! (k + n) = Suc (block_list rs ! (k + n - 1))"
  shows "\<exists>b. (if rs_ranges r \<noteq> [] then Ret (snd (last (rs_ranges r))) else GetBlockNumber rs i) = Ret b \<and>
    unat b = block_list rs ! (k + n)"
proof (cases "rs_ranges r = []")
  case True
  then have "block_list r = []" by (simp add: block_list_def)
  then have "n = 0" using assms(3,4) by simp
  then show ?thesis
    using True rs.num_in [OF assms(1), of i] assms(4,5,6) by (simp add: unat_of_nat_small)
next
  case False
  note l = last_range_block [OF assms(2) False]
  then have n: "n \<noteq> 0" using assms(3) by auto
  have "last (block_list r) = block_list rs ! (k + n - 1)"
    using n assms(3,4) by (simp add: last_conv_nth min_def)
  then show ?thesis using False l(1) assms(7) [OF n] by simp
qed

text \<open>The index arithmetic of one request: whole blocks \<open>k\<close> to \<open>k + n\<close> and \<open>t\<close> more bytes.\<close>

lemma request_blocks:
  fixes fs s off f :: nat
  assumes "s dvd off" "off + f \<le> fs" "0 < s" "0 < fs"
  shows "off = off div s * s" "off div s + f div s \<le> (fs - 1) div s + 1"
    "f mod s \<noteq> 0 \<Longrightarrow> off div s + f div s < (fs - 1) div s + 1"
proof -
  show off: "off = off div s * s" using assms(1) by simp
  have f: "f = f div s * s + f mod s" by simp
  have le: "(off div s + f div s) * s + f mod s \<le> fs"
    using assms(2) off f by (metis add.assoc add_mult_distrib)
  then show "f mod s \<noteq> 0 \<Longrightarrow> off div s + f div s < (fs - 1) div s + 1"
    using assms(3) by (simp add: less_Suc_eq_le less_eq_div_iff_mult_less_eq)
  show "off div s + f div s \<le> (fs - 1) div s + 1"
  proof (cases "off div s + f div s")
    case (Suc m)
    then have "m * s \<le> fs - 1" using le assms(3) by (cases s) auto
    then show ?thesis using Suc assms(3) by (simp add: less_eq_div_iff_mult_less_eq)
  qed simp
qed

context stable_device
begin

lemma Block_read:
  assumes ok: "bp_ok dev p" and tail: "tail_ok p f start"
    and in_file: "unat start * unat (bp_fuse_block_size p) + unat f \<le> unat (bp_file_size p)"
  shows "Block_ReadBlockAlignedData rd p f start =
    Ret (True, take (unat f) (drop (unat start * unat (bp_fuse_block_size p)) (bp_content dev p)))"
proof -
  let ?s = "bp_source_block_size p" and ?B = "block_list (bp_ranges p)"
  define offset where "offset = (ucast start * ucast (bp_fuse_block_size p) :: u64)"
  define off where "off = unat start * unat (bp_fuse_block_size p)"
  define s k n t where "s = unat ?s" and "k = off div s" and "n = unat f div s" and "t = unat f mod s"
  have s: "0 < s" and inv: "rs_inv (bp_ranges p)" and len: "length ?B = (unat (bp_file_size p) - 1) div s + 1"
    and dev: "\<forall>b\<in>set ?B. (b + 1) * s \<le> length dev" "length dev < 2 ^ 64" and dvd: "s dvd off" and fs: "0 < unat (bp_file_size p)"
    using ok by (auto simp: bp_ok_def s_def off_def list_all_iff)
  note idx = request_blocks [OF dvd _ s fs, of "unat f", folded k_def n_def t_def, folded len]
  have kn: "off = k * s" "k + n \<le> length ?B" "t \<noteq> 0 \<Longrightarrow> k + n < length ?B"
    using idx in_file by (simp_all add: off_def)
  have u: "unat offset = off" "unat (offset div ucast ?s) = k" "unat (ucast (f div ?s) :: u64) = n"
    "unat (ucast (f mod ?s) :: u64) = t"
    by (simp_all add: offset_def off_def u64_mult_u32 unat_div unat_mod k_def n_def t_def s_def)
  have f: "unat f = n * s + t" by (simp add: n_def t_def)
  obtain r where r: "GetSubRanges (bp_ranges p) (offset div ucast ?s) (ucast (f div ?s)) = Ret (Some r)"
    "rs_inv r" "block_list r = take n (drop k ?B)"
    using rs.sub_in [OF inv, of "offset div ucast ?s" "ucast (f div ?s)"] kn(2) u by auto
  have out: "read_sub_ranges rd ?s (rs_ranges r) [] = (True, mapped_bytes dev s (take n (drop k ?B)))"
    using read_sub_ranges_blocks [of "rs_ranges r" ?s "[]"] r(2,3) dev
    by (auto simp: rs_inv_def block_list_def s_def dest!: in_set_takeD in_set_dropD)
  have bounds: "\<not> (ucast f > bp_file_size p \<or> offset > bp_file_size p - ucast f)"
    using in_bounds_iff [where n = f and fs = "bp_file_size p" and off = offset] in_file u(1) by (simp add: off_def)
  have slice: "take (unat f) (drop off (bp_content dev p)) =
      take (n * s + t) (drop (k * s) (mapped_bytes dev s ?B))"
  proof -
    have "off + unat f \<le> unat (bp_file_size p)" using in_file by (simp add: off_def)
    then have "take (unat f) (drop off (bp_content dev p)) = take (unat f) (drop off (mapped_bytes dev s ?B))"
      by (simp add: bp_content_def s_def take_drop min_def)
    then show ?thesis by (simp only: f kn(1))
  qed
  define tb where "tb = (if rs_ranges r \<noteq> [] then Ret (snd (last (rs_ranges r)))
    else GetBlockNumber (bp_ranges p) (offset div ucast ?s))"
  have run: "Block_ReadBlockAlignedData rd p f start =
      (if t = 0 then Ret (True, mapped_bytes dev s (take n (drop k ?B)))
       else case tb of Abort \<Rightarrow> Abort | Ret tail_block \<Rightarrow>
         (case rd (ucast (f mod ?s)) (tail_block * ucast ?s) of
            (ok, d) \<Rightarrow> Ret (ok, mapped_bytes dev s (take n (drop k ?B)) @ d)))"
    using r(1) out bounds u(4)
    by (simp add: Block_ReadBlockAlignedData_def Let_def tb_def word_unat_eq_iff flip: offset_def)
  show ?thesis
  proof (cases "t = 0")
    case True
    then show ?thesis
      using mapped_bytes_slice_full [OF dev(1), of n k] slice run by (simp add: off_def)
  next
    case False
    have kl: "k + n < length ?B" using kn(3) False .
    have at: "(?B ! (k + n) + 1) * s \<le> length dev" using dev(1) kl by auto
    have "?B ! k + 1 \<le> (?B ! k + 1) * s" using s by (cases s) auto
    moreover have "(?B ! k + 1) * s \<le> length dev" using dev(1) kl by auto
    ultimately have at_k: "?B ! k < 2 ^ 64" using dev(2) by linarith
    obtain b where b: "tb = Ret b" "unat b = ?B ! (k + n)"
      using tail_block_number [OF inv r(2,3) kl u(2)] at_k tail False
      by (auto simp: tb_def tail_ok_def Let_def n_def t_def s_def k_def off_def)
    have "unat (b * ucast ?s) = ?B ! (k + n) * s"
      using unat_mult_nowrap [of b "ucast ?s"] at dev(2) b(2) by (simp add: s_def)
    moreover have "t \<le> s" using s by (simp add: t_def less_imp_le)
    ultimately have "rd (ucast (f mod ?s)) (b * ucast ?s) = (True, take t (drop (?B ! (k + n) * s) dev))"
      using rd_exact [of "b * ucast ?s" "ucast (f mod ?s)"] u(4) at by simp
    then show ?thesis
      using mapped_bytes_slice [OF dev(1) kl \<open>t \<le> s\<close>] slice run b(1) False by (simp add: off_def)
  qed
qed

end

lemma Block_read_out:
  assumes "\<not> unat start * unat (bp_fuse_block_size p) + unat f \<le> unat (bp_file_size p)"
  shows "Block_ReadBlockAlignedData rd p f start = Ret (False, [])"
  using in_bounds_iff [where n = f and fs = "bp_file_size p" and off = "ucast start * ucast (bp_fuse_block_size p)"] assms
  by (auto simp: Block_ReadBlockAlignedData_def Let_def u64_mult_u32)

lemma length_bp_content:
  assumes "bp_ok dev p"
  shows "length (bp_content dev p) = unat (bp_file_size p)"
proof -
  let ?s = "unat (bp_source_block_size p)" and ?B = "block_list (bp_ranges p)"
  have "\<forall>b\<in>set ?B. (b + 1) * ?s \<le> length dev" and len: "length ?B = (unat (bp_file_size p) - 1) div ?s + 1"
    and pos: "0 < unat (bp_file_size p)" "0 < ?s"
    using assms by (simp_all add: bp_ok_def list_all_iff)
  then have "length (mapped_bytes dev ?s ?B) = length ?B * ?s"
    using concat_uniform(1) [OF mapped_bytes_uniform] by (simp add: mapped_bytes_def)
  moreover have "unat (bp_file_size p) \<le> length ?B * ?s"
    using ceil_covers [OF pos] by (simp only: len)
  ultimately show ?thesis by (simp add: bp_content_def)
qed

section \<open>Both providers are block sources\<close>

definition file_read :: "bytes \<times> file_provider \<Rightarrow> u32 \<Rightarrow> u32 \<Rightarrow> bool \<times> bytes \<times> bytes \<times> file_provider" where
  "file_read w n b = (case File_ReadBlockAlignedData (pread_list (fst w)) (snd w) n b of (ok, d) \<Rightarrow> (ok, d, w))"

interpretation file_source: block_source
  "\<lambda>w. unat (fp_file_size (snd w)) = length (fst w)" file_read
  "\<lambda>w. fp_file_size (snd w)" "\<lambda>w. fp_fuse_block_size (snd w)" fst
proof unfold_locales
  fix w :: "bytes \<times> file_provider" and b n :: u32
  assume "unat (fp_file_size (snd w)) = length (fst w)" "unat b * unat (fp_fuse_block_size (snd w)) < length (fst w)"
    "unat n = min (unat (fp_fuse_block_size (snd w))) (length (fst w) - unat b * unat (fp_fuse_block_size (snd w)))"
  then show "file_read w n b = (True, take (unat n) (drop (unat b * unat (fp_fuse_block_size (snd w))) (fst w)), w)"
    using mem_device.File_read [of "snd w" "fst w" b n] by (auto simp: file_read_def split: if_splits)
qed

text \<open>The block provider on a device \<open>dev\<close>; a request that stops the process has no result to report.\<close>

definition block_read :: "bytes \<times> block_provider \<Rightarrow> u32 \<Rightarrow> u32 \<Rightarrow> bool \<times> bytes \<times> bytes \<times> block_provider" where
  "block_read w n b =
     (case Block_ReadBlockAlignedData (pread_list (fst w)) (snd w) n b of Ret (ok, d) \<Rightarrow> (ok, d, w) | Abort \<Rightarrow> (False, [], w))"

definition last_request_ok :: "block_provider \<Rightarrow> bool" where
  "last_request_ok p =
     (let fs = unat (bp_file_size p); bs = unat (bp_fuse_block_size p); b = (fs - 1) div bs in
      tail_ok p (of_nat (min bs (fs - b * bs))) (of_nat b))"

lemma whole_requests_tail_ok: "unat (bp_source_block_size p) dvd unat n \<Longrightarrow> tail_ok p n b"
  by (simp add: tail_ok_def Let_def)

lemma block_request_tail_ok:
  assumes "bp_ok dev p" "last_request_ok p" "unat b * unat (bp_fuse_block_size p) < unat (bp_file_size p)"
    and n: "unat n = min (unat (bp_fuse_block_size p)) (unat (bp_file_size p) - unat b * unat (bp_fuse_block_size p))"
  shows "tail_ok p n b"
proof (cases "unat n = unat (bp_fuse_block_size p)")
  case True
  then show ?thesis using assms(1) by (intro whole_requests_tail_ok) (simp add: bp_ok_def)
next
  case False
  define fs bs where "fs = unat (bp_file_size p)" and "bs = unat (bp_fuse_block_size p)"
  have "fs - unat b * bs < bs" "unat b * bs < fs" using False assms(3) n by (auto simp: fs_def bs_def)
  then have "(fs - 1) div bs = unat b" by (intro div_nat_eqI) (auto simp: algebra_simps)
  moreover have "of_nat (min bs (fs - unat b * bs)) = n"
    by (simp flip: n [folded fs_def bs_def])
  ultimately show ?thesis
    using assms(2) by (simp add: last_request_ok_def Let_def flip: fs_def bs_def)
qed

interpretation blockdev_source: block_source
  "\<lambda>w. bp_ok (fst w) (snd w) \<and> last_request_ok (snd w)" block_read
  "\<lambda>w. bp_file_size (snd w)" "\<lambda>w. bp_fuse_block_size (snd w)" "\<lambda>w. bp_content (fst w) (snd w)"
proof unfold_locales
  fix w :: "bytes \<times> block_provider" and b n :: u32
  assume ok: "bp_ok (fst w) (snd w) \<and> last_request_ok (snd w)"
  then show "unat (bp_file_size (snd w)) = length (bp_content (fst w) (snd w))" by (simp add: length_bp_content)
  let ?bs = "unat (bp_fuse_block_size (snd w))"
  assume b: "unat b * ?bs < length (bp_content (fst w) (snd w))"
    and n: "unat n = min ?bs (length (bp_content (fst w) (snd w)) - unat b * ?bs)"
  have "tail_ok (snd w) n b"
    using ok b n by (intro block_request_tail_ok [of "fst w"]) (simp_all add: length_bp_content)
  then show "block_read w n b = (True, take (unat n) (drop (unat b * ?bs) (bp_content (fst w) (snd w))), w)"
    using mem_device.Block_read [of "fst w" "snd w" n b] ok b n by (simp add: block_read_def length_bp_content)
qed

lemma CreateFromBlockMap_ok:
  assumes "block_map_ok m" "CreateFromBlockMap open_ok m fbs = Ret (Some p)" "length dev < 2 ^ 64"
    and "list_all (\<lambda>b. (b + 1) * unat (bm_block_size m) \<le> length dev) (block_list (bm_block_ranges m))"
  shows "bp_ok dev p" "bp_file_size p = bm_file_size m" "bp_ranges p = bm_block_ranges m"
    "bp_source_block_size p = bm_block_size m" "bp_fuse_block_size p = fbs"
proof -
  have p: "fbs mod bm_block_size m = 0" "p = \<lparr>bp_file_size = bm_file_size m, bp_fuse_block_size = fbs, bp_open = True,
      bp_source_block_size = bm_block_size m, bp_ranges = bm_block_ranges m\<rparr>"
    using assms(2) by (auto simp: CreateFromBlockMap_def FuseBlockDataProvider_def split: if_splits)
  from p(1) have "unat (fbs mod bm_block_size m) = 0" by simp
  then have "unat (bm_block_size m) dvd unat fbs" by (simp add: unat_mod dvd_eq_mod_eq_0)
  then show "bp_ok dev p" "bp_file_size p = bm_file_size m" "bp_ranges p = bm_block_ranges m"
    "bp_source_block_size p = bm_block_size m" "bp_fuse_block_size p = fbs"
    using assms(1,3,4) by (simp_all add: p(2) bp_ok_def block_map_ok_def)
qed

section \<open>Properties\<close>

definition sample_device :: bytes where
  "sample_device = map of_nat [0..<16]"

definition sample_provider :: "range list \<Rightarrow> block_provider" where
  "sample_provider rr = \<lparr>bp_file_size = 6, bp_fuse_block_size = 8, bp_open = True, bp_source_block_size = 4,
     bp_ranges = RangeSet_of rr\<rparr>"

lemma sample_ranges:
  "RangeSet_of [(2, 4)] = \<lparr>rs_ranges = [(2, 4)], rs_blocks = 2\<rparr>"
  "RangeSet_of [(0, 1), (3, 4)] = \<lparr>rs_ranges = [(0, 1), (3, 4)], rs_blocks = 2\<rparr>"
  by code_simp+

text \<open>On a file that does not change, the file provider delivers exactly the bytes asked for when the
  request lies inside the file, and refuses it without touching the buffer otherwise; the byte offset does
  not wrap.\<close>

theorem File_ReadBlockAlignedData_exact:
  assumes "stable_device rd dev" "unat (fp_file_size p) = length dev"
  shows "if unat start * unat (fp_fuse_block_size p) + unat n \<le> length dev
     then File_ReadBlockAlignedData rd p n start =
        (True, take (unat n) (drop (unat start * unat (fp_fuse_block_size p)) dev))
     else File_ReadBlockAlignedData rd p n start = (False, [])"
  using stable_device.File_read [OF assms] .

theorem File_ReadBlockAlignedData_exact_witness:
  "File_ReadBlockAlignedData (pread_list sample_device) (FuseFileDataProvider (Some 16) True 8) 5 1 = (True, [8, 9, 10, 11, 12])"
  using File_ReadBlockAlignedData_exact [OF mem_device.stable_device_axioms,
      of "FuseFileDataProvider (Some 16) True 8" sample_device 1 5]
  by (simp add: sample_device_def FuseFileDataProvider_def upt_rec drop_map take_map)

text \<open>C15. On a device that does not change, the block provider never fails a \<open>CHECK\<close>; a request inside
  the file delivers exactly the bytes of the mapped file at that offset, across range boundaries and with
  a partial last block, provided the partial block is the only one read or directly follows the last whole
  block on the device; a request outside the file is refused.\<close>

theorem Block_ReadBlockAlignedData_exact:
  assumes "stable_device rd dev" "bp_ok dev p" "tail_ok p n start"
  shows "if unat start * unat (bp_fuse_block_size p) + unat n \<le> unat (bp_file_size p)
     then Block_ReadBlockAlignedData rd p n start =
        Ret (True, take (unat n) (drop (unat start * unat (bp_fuse_block_size p)) (bp_content dev p)))
     else Block_ReadBlockAlignedData rd p n start = Ret (False, [])"
  using stable_device.Block_read [OF assms] Block_read_out [of start p n rd] by simp

lemma sample_provider_ok:
  "bp_ok sample_device (sample_provider [(2, 4)])" "bp_ok sample_device (sample_provider [(0, 1), (3, 4)])"
  by (simp_all add: bp_ok_def sample_device_def sample_provider_def block_list_def sample_ranges
      rs_inv_def upt_rec)

theorem Block_ReadBlockAlignedData_exact_witness:
  "Block_ReadBlockAlignedData (pread_list sample_device) (sample_provider [(2, 4)]) 6 0 = Ret (True, [8, 9, 10, 11, 12, 13])"
  using Block_ReadBlockAlignedData_exact [OF mem_device.stable_device_axioms sample_provider_ok(1), of 6 0]
  by (simp add: tail_ok_def bp_content_def mapped_bytes_def blk_def sample_device_def sample_provider_def block_list_def
      sample_ranges upt_rec)


end
