(* ===== verification/Adb_Provider.thy ===== *)
theory Adb_Provider
  imports Fuse_Provider
begin

text \<open>
  The provider that fetches package blocks from the adb host, \<open>minadbd/fuse_adb_provider.cpp\<close>, with the
  progress it reports to the recovery. The host is not trusted: \<open>put\<close> and \<open>get\<close> are what writing a request
  to it and reading an exact number of bytes from it do to the connection.
\<close>

section \<open>The provider\<close>

record 'h adb_provider =
  ap_file_size :: u64
  ap_block_size :: u32
  ap_host :: 'h
  ap_progress :: bool
  ap_seen :: "bool list"
  ap_received :: u64
  ap_percent :: u32
  ap_messages :: "(u64 \<times> u64) list"

definition FuseAdbDataProvider :: "'h \<Rightarrow> u64 \<Rightarrow> u32 \<Rightarrow> bool \<Rightarrow> 'h adb_provider" where
  "FuseAdbDataProvider h file_size block_size progress =
     \<lparr>ap_file_size = file_size, ap_block_size = block_size, ap_host = h, ap_progress = progress,
      ap_seen = replicate (if block_size = 0 then 0
                  else unat (file_size div ucast block_size + (if file_size mod ucast block_size = 0 then 0 else 1))) False,
      ap_received = 0, ap_percent = - 1, ap_messages = []\<rparr>"

text \<open>\<open>WriteFdFmt(fd_, "%08u", start_block)\<close>.\<close>

definition block_request :: "u32 \<Rightarrow> string" where
  "block_request start_block =
     (let ds = to_dec (unat start_block) in replicate (8 - length ds) (CHR ''0'') @ ds)"

text \<open>\<open>send\<close> says whether the observer took the message; \<open>ap_messages\<close> keeps the messages it took.\<close>

definition ReportProgress :: "(u64 \<times> u64 \<Rightarrow> bool) \<Rightarrow> 'h adb_provider \<Rightarrow> u32 \<Rightarrow> u32 \<Rightarrow> 'h adb_provider" where
  "ReportProgress send p start_block fetch_size =
     (if \<not> ap_progress p \<or> unat start_block \<ge> length (ap_seen p) \<or> ap_seen p ! unat start_block \<or> ap_file_size p = 0
      then p
      else
        let received = ap_received p + ucast fetch_size;
            received = (if received > ap_file_size p then ap_file_size p else received);
            p = p\<lparr>ap_seen := (ap_seen p)[unat start_block := True], ap_received := received\<rparr>;
            percent = (ucast ((received * 100) div ap_file_size p) :: u32)
        in if percent = ap_percent p \<and> received \<noteq> ap_file_size p then p
           else
             let p = p\<lparr>ap_percent := percent\<rparr>; message = (received, ap_file_size p) in
             if send message then p\<lparr>ap_messages := ap_messages p @ [message]\<rparr>
             else p\<lparr>ap_progress := False\<rparr>)"

definition Adb_ReadBlockAlignedData ::
  "('h \<Rightarrow> string \<Rightarrow> bool \<times> 'h) \<Rightarrow> ('h \<Rightarrow> nat \<Rightarrow> bool \<times> bytes \<times> 'h) \<Rightarrow> (u64 \<times> u64 \<Rightarrow> bool)
    \<Rightarrow> 'h adb_provider \<Rightarrow> u32 \<Rightarrow> u32 \<Rightarrow> bool \<times> bytes \<times> 'h adb_provider" where
  "Adb_ReadBlockAlignedData put get send p fetch_size start_block =
     (case put (ap_host p) (block_request start_block) of
        (False, h) \<Rightarrow> (False, [], p\<lparr>ap_host := h\<rparr>)
      | (True, h) \<Rightarrow>
          (case get h (unat fetch_size) of
             (False, d, h') \<Rightarrow> (False, d, p\<lparr>ap_host := h'\<rparr>)
           | (True, d, h') \<Rightarrow> (True, d, ReportProgress send (p\<lparr>ap_host := h'\<rparr>) start_block fetch_size)))"

section \<open>Progress\<close>

text \<open>
  The bytes of the file in the blocks seen so far, and what the provider keeps: every block counted once,
  the messages in increasing order and never beyond the total.
\<close>

definition seen_bytes :: "nat \<Rightarrow> nat \<Rightarrow> bool list \<Rightarrow> nat" where
  "seen_bytes fs bs seen = (\<Sum>b\<leftarrow>[0..<length seen]. if seen ! b then min bs (fs - b * bs) else 0)"

definition progress_ok :: "'h adb_provider \<Rightarrow> bool" where
  "progress_ok p =
     (0 < unat (ap_block_size p) \<and> unat (ap_file_size p) < 2 ^ 63 \<and>
      length (ap_seen p) = (unat (ap_file_size p) + unat (ap_block_size p) - 1) div unat (ap_block_size p) \<and>
      unat (ap_received p) = seen_bytes (unat (ap_file_size p)) (unat (ap_block_size p)) (ap_seen p) \<and>
      sorted (map (unat \<circ> fst) (ap_messages p)) \<and>
      list_all (\<lambda>m. unat (fst m) \<le> unat (ap_received p) \<and> snd m = ap_file_size p) (ap_messages p))"

lemma sum_list_update_zero:
  fixes g :: "nat \<Rightarrow> nat"
  assumes "b < length seen" "\<not> seen ! b"
  shows "(\<Sum>i\<leftarrow>[0..<length seen]. if seen[b := True] ! i then g i else 0) =
    (\<Sum>i\<leftarrow>[0..<length seen]. if seen ! i then g i else 0) + g b"
proof -
  have "(\<Sum>i\<leftarrow>[0..<length seen]. if seen[b := True] ! i then g i else 0) =
      (\<Sum>i\<leftarrow>[0..<length seen]. (if seen ! i then g i else 0) + (if i = b then g i else 0))"
    using assms(2) by (intro arg_cong [where f = sum_list] map_cong) (auto simp: nth_list_update)
  also have "\<dots> = (\<Sum>i\<leftarrow>[0..<length seen]. if seen ! i then g i else 0) + (\<Sum>i\<leftarrow>[0..<length seen]. if i = b then g i else 0)"
    by (rule sum_list_addf)
  also have "(\<Sum>i\<leftarrow>[0..<length seen]. if i = b then g i else 0) = g b"
    using assms(1) by (simp add: interv_sum_list_conv_sum_set_nat)
  finally show ?thesis .
qed

lemma sum_blocks: "(\<Sum>b\<leftarrow>[0..<n]. min bs (fs - b * bs)) = min fs (n * (bs :: nat))"
  by (induction n) (auto simp: min_def)

lemma seen_bytes_le:
  "seen_bytes fs bs seen \<le> fs"
proof -
  have "seen_bytes fs bs seen \<le> (\<Sum>b\<leftarrow>[0..<length seen]. min bs (fs - b * bs))"
    unfolding seen_bytes_def by (rule sum_list_mono) simp
  then show ?thesis by (simp add: sum_blocks)
qed

lemma seen_bytes_all:
  assumes "list_all id seen" "fs \<le> length seen * bs"
  shows "seen_bytes fs bs seen = fs"
proof -
  have "seen_bytes fs bs seen = (\<Sum>b\<leftarrow>[0..<length seen]. min bs (fs - b * bs))"
    unfolding seen_bytes_def using assms(1)
    by (intro arg_cong [where f = sum_list] map_cong) (auto simp: list_all_length)
  then show ?thesis using assms(2) by (simp add: sum_blocks)
qed

lemma ReportProgress_ok:
  assumes ok: "progress_ok p" and n: "unat n = min (unat (ap_block_size p)) (unat (ap_file_size p) - unat b * unat (ap_block_size p))"
  shows "progress_ok (ReportProgress send p b n)"
proof (cases "\<not> ap_progress p \<or> unat b \<ge> length (ap_seen p) \<or> ap_seen p ! unat b \<or> ap_file_size p = 0")
  case True
  then show ?thesis using ok by (auto simp: ReportProgress_def)
next
  case False
  define fs bs seen' where "fs = unat (ap_file_size p)" and "bs = unat (ap_block_size p)" and "seen' = (ap_seen p)[unat b := True]"
  define rcv where "rcv = ap_received p + ucast n"
  have fs: "fs < 2 ^ 63" and rc: "unat (ap_received p) = seen_bytes fs bs (ap_seen p)"
    using ok by (simp_all add: progress_ok_def fs_def bs_def)
  have sum: "seen_bytes fs bs seen' = seen_bytes fs bs (ap_seen p) + unat n"
    using sum_list_update_zero [of "unat b" "ap_seen p" "\<lambda>i. min bs (fs - i * bs)"] False n [folded fs_def bs_def]
    by (simp add: seen_bytes_def seen'_def)
  have "unat rcv = unat (ap_received p) + unat n"
    using seen_bytes_le [of fs bs seen'] sum fs rc unat_add_nowrap [of "ap_received p" "ucast n"] by (simp add: rcv_def)
  then have rcv: "unat rcv = seen_bytes fs bs seen'" "\<not> rcv > ap_file_size p" "unat (ap_received p) \<le> unat rcv"
    using rc sum seen_bytes_le [of fs bs seen'] by (simp_all add: word_less_nat_alt fs_def)
  let ?q = "p\<lparr>ap_seen := seen', ap_received := rcv\<rparr>"
  have q: "progress_ok ?q"
    using ok rcv by (auto simp: progress_ok_def fs_def bs_def seen'_def list_all_iff intro: order_trans)
  have "ReportProgress send p b n =
      (let percent = ucast ((rcv * 100) div ap_file_size p) in
       if percent = ap_percent p \<and> rcv \<noteq> ap_file_size p then ?q
       else if send (rcv, ap_file_size p)
       then ?q\<lparr>ap_percent := percent, ap_messages := ap_messages p @ [(rcv, ap_file_size p)]\<rparr>
       else ?q\<lparr>ap_percent := percent, ap_progress := False\<rparr>)"
    using False rcv(2) by (simp add: ReportProgress_def Let_def seen'_def flip: rcv_def)
  then show ?thesis
    using q rcv(3) by (auto simp: progress_ok_def Let_def sorted_append list_all_iff)
qed

lemma ReportProgress_sizes [simp]:
  "ap_file_size (ReportProgress send p b n) = ap_file_size p" "ap_block_size (ReportProgress send p b n) = ap_block_size p"
  by (simp_all add: ReportProgress_def Let_def)

lemma Adb_read_state:
  "\<exists>h. snd (snd (Adb_ReadBlockAlignedData put get send p n b)) \<in>
     {p\<lparr>ap_host := h\<rparr>, ReportProgress send (p\<lparr>ap_host := h\<rparr>) b n}"
  by (auto simp: Adb_ReadBlockAlignedData_def split: prod.splits bool.splits)

lemma progress_ok_host [simp]: "progress_ok (p\<lparr>ap_host := h\<rparr>) = progress_ok p"
  by (simp add: progress_ok_def)

lemma Adb_read_progress:
  fixes put :: "'h \<Rightarrow> string \<Rightarrow> bool \<times> 'h" and get :: "'h \<Rightarrow> nat \<Rightarrow> bool \<times> bytes \<times> 'h" and send :: "u64 \<times> u64 \<Rightarrow> bool"
  assumes "progress_ok p" "unat n = min (unat (ap_block_size p)) (unat (ap_file_size p) - unat b * unat (ap_block_size p))"
  defines "p' \<equiv> snd (snd (Adb_ReadBlockAlignedData put get send p n b))"
  shows "progress_ok p' \<and> ap_file_size p' = ap_file_size p \<and> ap_block_size p' = ap_block_size p"
proof -
  obtain h where "p' \<in> {p\<lparr>ap_host := h\<rparr>, ReportProgress send (p\<lparr>ap_host := h\<rparr>) b n}"
    using Adb_read_state [of put get send p n b] unfolding p'_def by blast
  then show ?thesis using assms(1,2) by (auto intro: ReportProgress_ok)
qed

fun adb_reads ::
  "('h \<Rightarrow> string \<Rightarrow> bool \<times> 'h) \<Rightarrow> ('h \<Rightarrow> nat \<Rightarrow> bool \<times> bytes \<times> 'h) \<Rightarrow> (u64 \<times> u64 \<Rightarrow> bool)
    \<Rightarrow> 'h adb_provider \<Rightarrow> (u32 \<times> u32) list \<Rightarrow> 'h adb_provider" where
  "adb_reads put get send p [] = p"
| "adb_reads put get send p ((n, b) # reqs) =
     adb_reads put get send (snd (snd (Adb_ReadBlockAlignedData put get send p n b))) reqs"

lemma adb_reads_progress:
  assumes "progress_ok p"
    and "list_all (\<lambda>(n, b). unat n = min (unat (ap_block_size p)) (unat (ap_file_size p) - unat b * unat (ap_block_size p))) reqs"
  shows "progress_ok (adb_reads put get send p reqs) \<and>
    ap_file_size (adb_reads put get send p reqs) = ap_file_size p \<and>
    ap_block_size (adb_reads put get send p reqs) = ap_block_size p"
  using assms
proof (induction reqs arbitrary: p)
  case (Cons r reqs)
  obtain n b where r: "r = (n, b)" by (cases r)
  show ?case
    using Cons.IH [of "snd (snd (Adb_ReadBlockAlignedData put get send p n b))"]
      Adb_read_progress [OF Cons.prems(1), of n b put get send] Cons.prems(2) by (simp add: r)
qed simp

lemma ceil_div_alt: "0 < bs \<Longrightarrow> fs div bs + (if fs mod bs = 0 then 0 else 1) = (fs + bs - 1) div (bs :: nat)"
proof -
  assume bs: "0 < bs"
  define q r where "q = fs div bs" and "r = fs mod bs"
  have "fs = bs * q + r" "r < bs" using bs by (simp_all add: q_def r_def)
  then have "(fs + bs - 1) div bs = q + (if r = 0 then 0 else 1)"
    by (intro div_nat_eqI) auto
  then show ?thesis by (simp add: q_def r_def)
qed

lemma FuseAdbDataProvider_ok:
  assumes "unat fs < 2 ^ 63" "bs \<noteq> 0"
  shows "progress_ok (FuseAdbDataProvider h fs bs progress)"
proof -
  define q where "q = fs div ucast bs"
  have bs: "0 < unat bs" using assms(2) by (simp add: unat_gt_0)
  have "unat q \<le> unat fs" by (simp add: q_def unat_div)
  then have "unat (q + 1) = unat q + 1"
    using assms(1) unat_add_nowrap [of q 1] by simp
  moreover have "fs mod ucast bs = 0 \<longleftrightarrow> unat fs mod unat bs = 0"
    by (simp add: word_unat_eq_iff unat_mod)
  ultimately have "unat (q + (if fs mod ucast bs = 0 then 0 else 1)) = (unat fs + unat bs - 1) div unat bs"
    using ceil_div_alt [OF bs, of "unat fs"] by (auto simp: q_def unat_div)
  moreover have "seen_bytes (unat fs) (unat bs) (replicate k False) = 0" for k
    by (simp add: seen_bytes_def)
  ultimately show ?thesis
    using assms bs by (simp add: progress_ok_def FuseAdbDataProvider_def q_def)
qed

section \<open>Properties\<close>



end
