(* ===== verification/Fuse_Sideload.thy ===== *)
theory Fuse_Sideload
  imports Adb_Provider
begin

text \<open>
  The sideload file system server, \<open>fuse_sideload/fuse_sideload.cpp\<close>: it serves one package file to the
  kernel, block by block, out of a provider it does not trust, and keeps the SHA-256 digest of every
  block it has handed out. The first section holds the server's state and its handlers, the second the
  request loop; then what a run of the server shows its reader, for an untrusted and for an honest
  provider.

  The provider is a state \<open>w\<close> and a function \<open>read\<close> from that state, a size and a block number to the
  return value of \<open>ReadBlockAlignedData\<close>, the bytes it wrote to the start of the buffer, and its next
  state. \<open>sha256\<close> is the digest function of the crypto library. The constants of the kernel interface
  are fields of \<open>fuse_abi\<close>.
\<close>

section \<open>The server and its handlers\<close>

record fuse_abi =
  FUSE_ROOT_ID :: u64
  FUSE_KERNEL_VERSION :: u32
  FUSE_KERNEL_MINOR_VERSION :: u32
  sizeof_init_out :: nat
  FUSE_COMPAT_22_INIT_OUT_SIZE :: "nat option"

definition PACKAGE_FILE_ID :: "fuse_abi \<Rightarrow> u64" where
  "PACKAGE_FILE_ID abi = FUSE_ROOT_ID abi + 1"

definition EXIT_FLAG_ID :: "fuse_abi \<Rightarrow> u64" where
  "EXIT_FLAG_ID abi = FUSE_ROOT_ID abi + 2"

datatype errno = EPERM | ENOENT | EIO | ENOSYS

text \<open>A handler's result: one of the two positive markers, 0, or a negated error number (\<open>-1\<close> is \<open>-EPERM\<close>).\<close>

datatype fuse_result = NO_STATUS | NO_STATUS_EXIT | Code "errno option"

record fuse_data =
  file_size :: u64
  block_size :: u32
  file_blocks :: u32
  uid :: u32
  gid :: u32
  curr_block :: u32
  block_data :: bytes
  extra_block :: bytes
  hashes :: "bytes list"

record fuse_attr =
  attr_ino :: u64
  attr_size :: u64
  attr_blocks :: u64
  attr_mode :: u32
  attr_nlink :: u32
  attr_uid :: u32
  attr_gid :: u32
  attr_blksize :: u32

datatype fuse_payload =
    Init_out u32 u32 u32 nat
  | Attr_out fuse_attr
  | Entry_out u64 u64 fuse_attr
  | Open_out u64
  | Data bytes
  | Error_out "errno option"

text \<open>A request as the kernel sends it: the header's \<open>unique\<close> and \<open>nodeid\<close>, and the operation with its body.\<close>

datatype fuse_op =
    INIT u32 u32 u32
  | LOOKUP "string option"
  | GETATTR
  | OPEN
  | READ u64 u32
  | FLUSH
  | RELEASE
  | OTHER

record fuse_request =
  req_unique :: u64
  req_nodeid :: u64
  req_op :: fuse_op

definition handle_init :: "fuse_abi \<Rightarrow> u32 \<Rightarrow> u32 \<Rightarrow> u32 \<Rightarrow> fuse_result \<times> fuse_payload option" where
  "handle_init abi major minor max_readahead =
     (if major \<noteq> FUSE_KERNEL_VERSION abi \<or> minor < 6 then (Code (Some EPERM), None)
      else
        let out_minor = min minor (FUSE_KERNEL_MINOR_VERSION abi);
            struct_size = (case FUSE_COMPAT_22_INIT_OUT_SIZE abi of
                             Some n \<Rightarrow> (if minor \<le> 22 then n else sizeof_init_out abi)
                           | None \<Rightarrow> sizeof_init_out abi)
        in (NO_STATUS, Some (Init_out (FUSE_KERNEL_VERSION abi) out_minor max_readahead struct_size)))"

definition fill_attr :: "fuse_data \<Rightarrow> u64 \<Rightarrow> u64 \<Rightarrow> u32 \<Rightarrow> fuse_attr" where
  "fill_attr fd nodeid sz mode =
     \<lparr>attr_ino = nodeid, attr_size = sz,
      attr_blocks = (if sz = 0 then 0 else ((sz - 1) div 4096) + 1),
      attr_mode = mode, attr_nlink = 1, attr_uid = uid fd, attr_gid = gid fd, attr_blksize = 4096\<rparr>"

definition S_IFDIR :: u32 where "S_IFDIR = 16384"
definition S_IFREG :: u32 where "S_IFREG = 32768"

definition handle_getattr :: "fuse_abi \<Rightarrow> fuse_data \<Rightarrow> u64 \<Rightarrow> fuse_result \<times> fuse_payload option" where
  "handle_getattr abi fd nodeid =
     (if nodeid = FUSE_ROOT_ID abi
      then (if nodeid = EXIT_FLAG_ID abi then NO_STATUS_EXIT else NO_STATUS,
            Some (Attr_out (fill_attr fd nodeid 4096 (S_IFDIR OR 365))))
      else if nodeid = PACKAGE_FILE_ID abi
      then (if nodeid = EXIT_FLAG_ID abi then NO_STATUS_EXIT else NO_STATUS,
            Some (Attr_out (fill_attr fd (PACKAGE_FILE_ID abi) (file_size fd) (S_IFREG OR 292))))
      else if nodeid = EXIT_FLAG_ID abi
      then (NO_STATUS_EXIT, Some (Attr_out (fill_attr fd (EXIT_FLAG_ID abi) 0 (S_IFREG OR 0))))
      else (Code (Some ENOENT), None))"

definition handle_lookup :: "fuse_abi \<Rightarrow> fuse_data \<Rightarrow> string option \<Rightarrow> fuse_result \<times> fuse_payload option" where
  "handle_lookup abi fd name =
     (case name of None \<Rightarrow> (Code (Some ENOENT), None)
      | Some filename \<Rightarrow>
        if filename = ''package.zip'' then
          (if PACKAGE_FILE_ID abi = EXIT_FLAG_ID abi then NO_STATUS_EXIT else NO_STATUS,
           Some (Entry_out (PACKAGE_FILE_ID abi) (PACKAGE_FILE_ID abi)
             (fill_attr fd (PACKAGE_FILE_ID abi) (file_size fd) (S_IFREG OR 292))))
        else if filename = ''exit'' then
          (NO_STATUS_EXIT,
           Some (Entry_out (EXIT_FLAG_ID abi) (EXIT_FLAG_ID abi) (fill_attr fd (EXIT_FLAG_ID abi) 0 (S_IFREG OR 0))))
        else (Code (Some ENOENT), None))"

definition handle_open :: "fuse_abi \<Rightarrow> u64 \<Rightarrow> fuse_result \<times> fuse_payload option" where
  "handle_open abi nodeid =
     (if nodeid = EXIT_FLAG_ID abi then (Code (Some EPERM), None)
      else if nodeid \<noteq> PACKAGE_FILE_ID abi then (Code (Some ENOENT), None)
      else (NO_STATUS, Some (Open_out 10)))"

definition handle_flush :: "fuse_result \<times> fuse_payload option" where
  "handle_flush = (Code None, None)"

definition handle_release :: "fuse_result \<times> fuse_payload option" where
  "handle_release = (Code None, None)"

text \<open>
  \<open>fetch_block\<close>. A call of the provider overwrites the start of \<open>block_data\<close> whatever it returns.
\<close>

type_synonym 'w provider = "'w \<Rightarrow> u32 \<Rightarrow> u32 \<Rightarrow> bool \<times> bytes \<times> 'w"

definition overwrite :: "bytes \<Rightarrow> bytes \<Rightarrow> bytes" where
  "overwrite d buf = d @ drop (length d) buf"

definition fetch_block :: "(bytes \<Rightarrow> bytes) \<Rightarrow> 'w provider \<Rightarrow> fuse_data \<Rightarrow> 'w \<Rightarrow> u64 \<Rightarrow> errno option \<times> fuse_data \<times> 'w" where
  "fetch_block sha256 read fd w block =
     (if block = ucast (curr_block fd) then (None, fd, w)
      else if block \<ge> ucast (file_blocks fd) then
        (None, fd\<lparr>block_data := replicate (unat (block_size fd)) 0, curr_block := ucast block\<rparr>, w)
      else
        let short = block * ucast (block_size fd) + ucast (block_size fd) > file_size fd;
            fetch_size = (if short then ucast (file_size fd - block * ucast (block_size fd)) else block_size fd);
            buf = (if short then take (unat fetch_size) (block_data fd) @ replicate (unat (block_size fd - fetch_size)) 0
                   else block_data fd)
        in case read w fetch_size (ucast block) of
          (False, d, w') \<Rightarrow> (Some EIO, fd\<lparr>block_data := overwrite d buf\<rparr>, w')
        | (True, d, w') \<Rightarrow>
            let data = overwrite d buf;
                fd' = fd\<lparr>block_data := data, curr_block := ucast block\<rparr>;
                hash = sha256 data;
                blockhash = hashes fd ! unat block
            in if hash = blockhash then (None, fd', w')
               else if list_ex (\<lambda>i. i \<noteq> 0) blockhash then (Some EIO, fd'\<lparr>curr_block := - 1\<rparr>, w')
               else (None, fd'\<lparr>hashes := (hashes fd)[unat block := hash]\<rparr>, w'))"

text \<open>
  \<open>handle_read\<close>; \<open>None\<close> is an access outside \<open>block_data\<close> or \<open>extra_block\<close>.
\<close>

definition buf_slice :: "bytes \<Rightarrow> nat \<Rightarrow> nat \<Rightarrow> bytes option" where
  "buf_slice buf off n = (if off + n \<le> length buf then Some (take n (drop off buf)) else None)"

definition handle_read ::
  "fuse_abi \<Rightarrow> (bytes \<Rightarrow> bytes) \<Rightarrow> 'w provider \<Rightarrow> fuse_data \<Rightarrow> 'w \<Rightarrow> u64 \<Rightarrow> u64 \<Rightarrow> u32
    \<Rightarrow> ((fuse_result \<times> fuse_payload option) \<times> fuse_data \<times> 'w) option" where
  "handle_read abi sha256 read fd w nodeid offset sz =
     (if nodeid \<noteq> PACKAGE_FILE_ID abi then Some ((Code (Some ENOENT), None), fd, w)
      else
        let block = (ucast (offset div ucast (block_size fd)) :: u32) in
        case fetch_block sha256 read fd w (ucast block) of
          (Some e, fd1, w1) \<Rightarrow> Some ((Code (Some e), None), fd1, w1)
        | (None, fd1, w1) \<Rightarrow>
            let block_offset = (ucast (offset - ucast (block * block_size fd)) :: u32) in
            if sz + block_offset \<le> block_size fd then
              map_option (\<lambda>d. ((NO_STATUS, Some (Data d)), fd1, w1))
                (buf_slice (block_data fd1) (unat block_offset) (unat sz))
            else
              let n1 = unat (block_size fd - block_offset) in
              case buf_slice (block_data fd1) (unat block_offset) n1 of
                None \<Rightarrow> None
              | Some d1 \<Rightarrow>
                  if n1 > length (extra_block fd1) then None
                  else
                    let fd2 = fd1\<lparr>extra_block := overwrite d1 (extra_block fd1)\<rparr> in
                    case fetch_block sha256 read fd2 w1 (ucast (block + 1)) of
                      (Some e, fd3, w3) \<Rightarrow> Some ((Code (Some e), None), fd3, w3)
                    | (None, fd3, w3) \<Rightarrow>
                        map_option (\<lambda>d2. ((NO_STATUS, Some (Data (take n1 (extra_block fd3) @ d2))), fd3, w3))
                          (buf_slice (block_data fd3) 0 (unat (ucast sz - ucast (block_size fd - block_offset) :: u64))))"

section \<open>The request loop\<close>

text \<open>
  One turn of the loop: what \<open>read\<close> on the fuse descriptor delivered. A failed read ends the loop only
  when the device is gone.
\<close>

datatype fuse_event = Read_error bool | Too_short | Request fuse_request

definition dispatch ::
  "fuse_abi \<Rightarrow> (bytes \<Rightarrow> bytes) \<Rightarrow> 'w provider \<Rightarrow> fuse_data \<Rightarrow> 'w \<Rightarrow> fuse_request
    \<Rightarrow> ((fuse_result \<times> fuse_payload option) \<times> fuse_data \<times> 'w) option" where
  "dispatch abi sha256 read fd w req =
     (case req_op req of
        INIT major minor max_readahead \<Rightarrow> Some (handle_init abi major minor max_readahead, fd, w)
      | LOOKUP name \<Rightarrow> Some (handle_lookup abi fd name, fd, w)
      | GETATTR \<Rightarrow> Some (handle_getattr abi fd (req_nodeid req), fd, w)
      | OPEN \<Rightarrow> Some (handle_open abi (req_nodeid req), fd, w)
      | READ offset sz \<Rightarrow> handle_read abi sha256 read fd w (req_nodeid req) offset sz
      | FLUSH \<Rightarrow> Some (handle_flush, fd, w)
      | RELEASE \<Rightarrow> Some (handle_release, fd, w)
      | OTHER \<Rightarrow> Some ((Code (Some ENOSYS), None), fd, w))"

text \<open>
  The replies written to the kernel, oldest first, each with the request it answers. \<open>Finished\<close> carries
  the function's result, \<open>Waiting\<close> is the loop blocked in its next read, \<open>Crashed\<close> an access outside a
  buffer.
\<close>

datatype loop_end = Finished int | Waiting | Crashed

type_synonym transcript = "(fuse_request \<times> fuse_payload) list"

fun serve ::
  "fuse_abi \<Rightarrow> (bytes \<Rightarrow> bytes) \<Rightarrow> 'w provider \<Rightarrow> fuse_event list \<Rightarrow> fuse_data \<Rightarrow> 'w \<Rightarrow> loop_end \<times> transcript" where
  "serve abi sha256 read [] fd w = (Waiting, [])"
| "serve abi sha256 read (Read_error enodev # events) fd w =
     (if enodev then (Finished (- 1), []) else serve abi sha256 read events fd w)"
| "serve abi sha256 read (Too_short # events) fd w = serve abi sha256 read events fd w"
| "serve abi sha256 read (Request req # events) fd w =
     (case dispatch abi sha256 read fd w req of
        None \<Rightarrow> (Crashed, [])
      | Some ((result, reply), fd', w') \<Rightarrow>
          let sent = (case reply of None \<Rightarrow> [] | Some p \<Rightarrow> [(req, p)]) in
          case result of
            NO_STATUS_EXIT \<Rightarrow> (Finished 0, sent)
          | NO_STATUS \<Rightarrow>
              (case serve abi sha256 read events fd' w' of (end, t) \<Rightarrow> (end, sent @ t))
          | Code e \<Rightarrow>
              (case serve abi sha256 read events fd' w' of (end, t) \<Rightarrow> (end, sent @ (req, Error_out e) # t)))"

text \<open>
  \<open>run_fuse_sideload\<close> up to its loop: the size checks, the buffers (whatever \<open>malloc\<close> left in them) and
  the mount. The block count is a 32-bit field, so it is truncated before it is checked.
\<close>

definition fuse_setup :: "u64 \<Rightarrow> u32 \<Rightarrow> u32 \<Rightarrow> u32 \<Rightarrow> bytes option \<Rightarrow> bytes option \<Rightarrow> fuse_data option" where
  "fuse_setup fs bs my_uid my_gid buf1 buf2 =
     (if bs < 4096 then None
      else if bs > 4194304 then None
      else
        let blocks = (if fs = 0 then 0 else ucast (((fs - 1) div ucast bs) + 1) :: u32) in
        if blocks > 262144 then None
        else case (buf1, buf2) of
          (Some b1, Some b2) \<Rightarrow>
            Some \<lparr>file_size = fs, block_size = bs, file_blocks = blocks, uid = my_uid, gid = my_gid,
                  curr_block = - 1, block_data = b1, extra_block = b2,
                  hashes = replicate (unat blocks) (replicate 32 0)\<rparr>
        | _ \<Rightarrow> None)"

definition run_fuse_sideload ::
  "fuse_abi \<Rightarrow> (bytes \<Rightarrow> bytes) \<Rightarrow> 'w provider \<Rightarrow> u64 \<Rightarrow> u32 \<Rightarrow> u32 \<Rightarrow> u32 \<Rightarrow> bytes option \<Rightarrow> bytes option
    \<Rightarrow> bool \<Rightarrow> bool \<Rightarrow> fuse_event list \<Rightarrow> 'w \<Rightarrow> loop_end \<times> transcript" where
  "run_fuse_sideload abi sha256 read fs bs my_uid my_gid buf1 buf2 opened mounted events w =
     (case fuse_setup fs bs my_uid my_gid buf1 buf2 of
        None \<Rightarrow> (Finished (- 1), [])
      | Some fd \<Rightarrow>
          if \<not> opened then (Finished (- 1), [])
          else if \<not> mounted then (Finished (- 1), [])
          else serve abi sha256 read events fd w)"

section \<open>Images\<close>

text \<open>
  The state the loop maintains, the requests the kernel sends (it cuts reads at \<open>max_read\<close>, which the
  mount sets to the block size, and starts them inside the file), the number of bytes of block \<open>b\<close> that
  belong to the file, and the file that a map from block numbers to block contents describes.
\<close>

definition fd_ok :: "fuse_data \<Rightarrow> bool" where
  "fd_ok fd =
     (0 < unat (block_size fd) \<and> unat (block_size fd) \<le> 4194304 \<and>
      length (block_data fd) = unat (block_size fd) \<and> length (extra_block fd) = unat (block_size fd) \<and>
      length (hashes fd) = unat (file_blocks fd) \<and> unat (file_blocks fd) \<le> 262144 \<and>
      unat (file_blocks fd) =
        (if file_size fd = 0 then 0 else (unat (file_size fd) - 1) div unat (block_size fd) + 1))"

definition request_ok :: "u64 \<Rightarrow> u32 \<Rightarrow> fuse_event \<Rightarrow> bool" where
  "request_ok fs bs ev =
     (case ev of Request req \<Rightarrow>
        (case req_op req of READ offset sz \<Rightarrow> offset < fs \<and> sz \<le> bs | _ \<Rightarrow> True)
      | _ \<Rightarrow> True)"

definition block_bytes :: "fuse_data \<Rightarrow> nat \<Rightarrow> nat" where
  "block_bytes fd b = min (unat (block_size fd)) (unat (file_size fd) - b * unat (block_size fd))"

definition image_block :: "nat \<Rightarrow> nat \<Rightarrow> (nat \<rightharpoonup> bytes) \<Rightarrow> nat \<Rightarrow> bytes" where
  "image_block bs fb img b = (if b < fb then case img b of Some d \<Rightarrow> d | None \<Rightarrow> replicate bs 0 else replicate bs 0)"

definition image_file :: "nat \<Rightarrow> nat \<Rightarrow> (nat \<rightharpoonup> bytes) \<Rightarrow> bytes" where
  "image_file bs fb img = concat (map (image_block bs fb img) [0..<fb + 1])"

lemma fd_ok_block_start:
  assumes "fd_ok fd" "b < unat (file_blocks fd)"
  shows "b * unat (block_size fd) < unat (file_size fd)" "b * unat (block_size fd) \<le> 262144 * 4194304"
proof -
  have b: "b \<le> (unat (file_size fd) - 1) div unat (block_size fd)" "file_size fd \<noteq> 0"
    using assms by (auto simp: fd_ok_def split: if_splits)
  then have "b * unat (block_size fd) \<le> unat (file_size fd) - 1"
    using assms(1) by (simp add: fd_ok_def less_eq_div_iff_mult_less_eq)
  moreover have "0 < unat (file_size fd)" using b(2) by (simp add: unat_gt_0)
  ultimately show "b * unat (block_size fd) < unat (file_size fd)" by linarith
  show "b * unat (block_size fd) \<le> 262144 * 4194304"
    using assms by (intro mult_le_mono) (auto simp: fd_ok_def)
qed

lemma image_file_slice:
  assumes "\<forall>b. b < fb \<longrightarrow> length (image_block bs fb img b) = bs" "k < fb" "off < bs" "n \<le> bs"
  shows "take n (drop (k * bs + off) (image_file bs fb img)) =
     (if n + off \<le> bs then take n (drop off (image_block bs fb img k))
      else drop off (image_block bs fb img k) @ take (n - (bs - off)) (image_block bs fb img (k + 1)))"
proof -
  let ?F = "map (image_block bs fb img) [0..<fb + 1]"
  have uni: "\<forall>x\<in>set ?F. length x = bs"
    using assms(1) by (auto simp: image_block_def)
  have "drop k ?F = image_block bs fb img k # image_block bs fb img (k + 1) # drop (k + 2) ?F"
  proof -
    have "drop k ?F = map (image_block bs fb img) [k..<fb + 1]" by (simp add: drop_map del: upt_Suc)
    moreover have "[k..<fb + 1] = k # (k + 1) # [k + 2..<fb + 1]" using assms(2) by (simp add: upt_conv_Cons del: upt_Suc)
    moreover have "drop (k + 2) ?F = map (image_block bs fb img) [k + 2..<fb + 1]" by (simp add: drop_map del: upt_Suc)
    ultimately show ?thesis by (simp only: list.map)
  qed
  then have "drop (k * bs) (concat ?F) =
      image_block bs fb img k @ image_block bs fb img (k + 1) @ concat (drop (k + 2) ?F)"
    using concat_uniform(2) [OF uni, of k] by simp
  then have "drop (k * bs + off) (concat ?F) =
      drop off (image_block bs fb img k @ image_block bs fb img (k + 1) @ concat (drop (k + 2) ?F))"
    by (metis add.commute drop_drop)
  moreover have "length (image_block bs fb img k) = bs" "length (image_block bs fb img (k + 1)) = bs"
    using assms(1,2) by (auto simp: image_block_def)
  ultimately show ?thesis
    using assms(3,4) by (auto simp: image_file_def)
qed

section \<open>One fetch\<close>

lemma fetch_request:
  assumes ok: "fd_ok fd" and b: "unat (block :: u64) < unat (file_blocks fd)"
  defines "short \<equiv> block * ucast (block_size fd) + ucast (block_size fd) > file_size fd"
  defines "n \<equiv> (if short then ucast (file_size fd - block * ucast (block_size fd)) else block_size fd :: u32)"
  shows "unat n = block_bytes fd (unat block)" "short \<Longrightarrow> unat (block_size fd - n) = unat (block_size fd) - unat n"
    "\<not> short \<Longrightarrow> unat n = unat (block_size fd)" "unat (ucast block :: u32) = unat block"
proof -
  note start = fd_ok_block_start [OF ok b]
  have bs: "unat (block_size fd) \<le> 4194304" using ok by (simp add: fd_ok_def)
  have m: "unat (block * ucast (block_size fd)) = unat block * unat (block_size fd)"
    using unat_mult_nowrap [of block "ucast (block_size fd)"] start(2) by simp
  have a: "unat (block * ucast (block_size fd) + ucast (block_size fd)) =
      unat block * unat (block_size fd) + unat (block_size fd)"
    using unat_add_nowrap [of "block * ucast (block_size fd)" "ucast (block_size fd)"] start(2) bs by (simp add: m)
  have sh: "short \<longleftrightarrow> unat (file_size fd) < unat block * unat (block_size fd) + unat (block_size fd)"
    by (simp add: short_def word_less_nat_alt a)
  have "unat (file_size fd - block * ucast (block_size fd)) = unat (file_size fd) - unat block * unat (block_size fd)"
    using start(1) by (simp add: unat_sub word_le_nat_alt m)
  then show n: "unat n = block_bytes fd (unat block)"
    using sh bs start(1) by (auto simp: n_def block_bytes_def unat_ucast_down_32)
  then show "short \<Longrightarrow> unat (block_size fd - n) = unat (block_size fd) - unat n"
    by (simp add: unat_sub word_le_nat_alt block_bytes_def)
  show "\<not> short \<Longrightarrow> unat n = unat (block_size fd)" by (simp add: n_def)
  show "unat (ucast block :: u32) = unat block"
    using b ok by (simp add: unat_ucast_down_32 fd_ok_def)
qed

lemma unat_minus_one_32 [simp]: "unat (- 1 :: u32) = 4294967295"
  by (simp add: unsigned_minus_1_eq_mask mask_eq_exp_minus_1)

lemma block_bytes_bounds: "block_bytes fd b \<le> unat (block_size fd)"
  by (simp add: block_bytes_def)

text \<open>A fetch that reaches the provider and is answered in full.\<close>

lemma fetch_block_fresh:
  assumes ok: "fd_ok fd" and b: "unat block < unat (file_blocks fd)" and new: "block \<noteq> ucast (curr_block fd)"
    and rd: "read w (of_nat (block_bytes fd (unat block))) (of_nat (unat block)) = (True, d, w')"
    and len: "length d = block_bytes fd (unat block)"
  defines "data \<equiv> d @ replicate (unat (block_size fd) - block_bytes fd (unat block)) 0"
  shows "fetch_block sha256 read fd w block =
    (let fd' = fd\<lparr>block_data := data, curr_block := of_nat (unat block)\<rparr>; blockhash = hashes fd ! unat block in
     if sha256 data = blockhash then (None, fd', w')
     else if list_ex (\<lambda>i. i \<noteq> 0) blockhash then (Some EIO, fd'\<lparr>curr_block := - 1\<rparr>, w')
     else (None, fd'\<lparr>hashes := (hashes fd)[unat block := sha256 data]\<rparr>, w'))"
proof -
  define short where "short \<longleftrightarrow> block * ucast (block_size fd) + ucast (block_size fd) > file_size fd"
  define n where "n = (if short then ucast (file_size fd - block * ucast (block_size fd)) else block_size fd :: u32)"
  define buf where "buf = (if short then take (unat n) (block_data fd) @ replicate (unat (block_size fd - n)) 0 else block_data fd)"
  note f = fetch_request [OF ok b, folded short_def, folded n_def]
  have w: "(of_nat (block_bytes fd (unat block)) :: u32) = n" "(of_nat (unat block) :: u32) = ucast block"
    by (simp_all flip: f(1))
  have "\<not> block \<ge> ucast (file_blocks fd)" using b by (simp add: word_le_nat_alt)
  moreover have "overwrite d buf = data"
    using f ok len block_bytes_bounds [of fd "unat block"]
    by (auto simp: overwrite_def buf_def data_def fd_ok_def)
  ultimately show ?thesis
    using new rd unfolding w
    by (cases short) (simp_all add: fetch_block_def Let_def buf_def n_def flip: short_def)
qed

section \<open>Reads\<close>

definition same_file :: "fuse_data \<Rightarrow> fuse_data \<Rightarrow> bool" where
  "same_file fd fd' = (file_size fd' = file_size fd \<and> block_size fd' = block_size fd \<and> file_blocks fd' = file_blocks fd)"

abbreviation fd_image :: "fuse_data \<Rightarrow> (nat \<rightharpoonup> bytes) \<Rightarrow> nat \<Rightarrow> bytes" where
  "fd_image fd \<equiv> image_block (unat (block_size fd)) (unat (file_blocks fd))"

lemma fd_ok_upd [simp]:
  "fd_ok (fd\<lparr>curr_block := c\<rparr>) = fd_ok fd" "fd_ok (fd\<lparr>hashes := (hashes fd)[i := h]\<rparr>) = fd_ok fd"
  "fd_ok (fd\<lparr>block_data := x, curr_block := c, hashes := (hashes fd)[i := h]\<rparr>) = fd_ok (fd\<lparr>block_data := x\<rparr>)"
  "fd_ok (fd\<lparr>block_data := x, curr_block := c\<rparr>) = fd_ok (fd\<lparr>block_data := x\<rparr>)"
  by (simp_all add: fd_ok_def)

lemma fd_ok_buffers:
  "fd_ok fd \<Longrightarrow> length x = unat (block_size fd) \<Longrightarrow> fd_ok (fd\<lparr>block_data := x\<rparr>)"
  "fd_ok fd \<Longrightarrow> length x = unat (block_size fd) \<Longrightarrow> fd_ok (fd\<lparr>extra_block := x\<rparr>)"
  unfolding fd_ok_def by simp_all

lemma fd_okD:
  assumes "fd_ok fd"
  shows "unat (block_size fd) \<le> 4194304" "unat (file_blocks fd) \<le> 262144" "length (hashes fd) = unat (file_blocks fd)"
    "length (block_data fd) = unat (block_size fd)" "length (extra_block fd) = unat (block_size fd)" "0 < unat (block_size fd)"
  using assms unfolding fd_ok_def by blast+

text \<open>What the reply to a read shows: the bytes of one image block, or the end of one and the start of the next.\<close>

definition shows_read :: "fuse_data \<Rightarrow> (nat \<rightharpoonup> bytes) \<Rightarrow> u64 \<Rightarrow> u32 \<Rightarrow> bytes \<Rightarrow> bool" where
  "shows_read fd img offset sz d =
     (let bs = unat (block_size fd); k = unat offset div bs; off = unat offset mod bs in
      k < unat (file_blocks fd) \<and> img k \<noteq> None \<and>
      (if unat sz + off \<le> bs then d = take (unat sz) (drop off (fd_image fd img k))
       else (k + 1 < unat (file_blocks fd) \<longrightarrow> img (k + 1) \<noteq> None) \<and>
         d = drop off (fd_image fd img k) @ take (unat sz - (bs - off)) (fd_image fd img (k + 1))))"

lemma image_block_mono: "img \<subseteq>\<^sub>m img' \<Longrightarrow> (b < fb \<longrightarrow> img b \<noteq> None) \<Longrightarrow> image_block bs fb img' b = image_block bs fb img b"
  by (auto simp: image_block_def map_le_def dom_def)

lemma shows_read_mono:
  assumes "img \<subseteq>\<^sub>m img'" "shows_read fd img offset sz d"
  shows "shows_read fd img' offset sz d"
proof -
  have dom: "img k \<noteq> None \<Longrightarrow> img' k \<noteq> None" for k
    using assms(1) by (metis domIff map_le_implies_dom_le subsetD)
  show ?thesis
    using assms(2) dom by (auto simp: shows_read_def Let_def image_block_mono [OF assms(1)] split: if_splits)
qed

lemma shows_read_same_file: "same_file fd fd' \<Longrightarrow> shows_read fd' = shows_read fd"
  by (intro ext) (simp add: shows_read_def same_file_def)

lemma fd_ok_file_blocks:
  assumes "fd_ok fd" "unat offset < unat (file_size fd)"
  shows "unat offset div unat (block_size fd) < unat (file_blocks fd)"
proof -
  have "unat (file_blocks fd) = (unat (file_size fd) - 1) div unat (block_size fd) + 1"
    using assms by (auto simp: fd_ok_def split: if_splits)
  moreover have "unat offset div unat (block_size fd) \<le> (unat (file_size fd) - 1) div unat (block_size fd)"
    using assms(2) by (intro div_le_mono) simp
  ultimately show ?thesis by simp
qed

lemma uint_conv:
  "uint (ucast (x :: u32) :: u64) = uint x" "uint (ucast (y :: u64) :: u32) = uint y mod 4294967296"
  "uint (x * z :: u32) = (uint x * uint z) mod 4294967296"
  "uint (y - v :: u64) = (uint y - uint v) mod 18446744073709551616"
  using arg_cong [OF unat_ucast_up(1) [of x], of int]
  by (simp_all only: of_nat_unat) (simp_all add: unsigned_ucast_eq take_bit_eq_mod uint_word_ariths)

lemma mod_wrap:
  "((x :: int) - y mod 4294967296) mod 18446744073709551616 mod 4294967296 = (x - y) mod 4294967296"
proof -
  have "(x - y mod 4294967296) mod 18446744073709551616 mod 4294967296 = (x - y mod 4294967296) mod 4294967296"
    by (rule mod_mod_cancel) simp
  then show ?thesis by (simp only: mod_diff_right_eq)
qed

text \<open>
  The product of the block number and the block size is computed in 32 bits and may wrap; the offset in
  the block, reduced to 32 bits as well, is right all the same.
\<close>

lemma block_offset_wrap:
  fixes offset :: u64 and block bs :: u32
  assumes "unat block = unat offset div unat bs" "unat bs \<le> 4194304" "0 < unat bs"
  shows "unat (ucast (offset - ucast (block * bs)) :: u32) = unat offset mod unat bs"
proof -
  have c: "uint block = uint offset div uint bs"
    using arg_cong [OF assms(1), of int] by (simp only: of_nat_unat zdiv_int)
  have s: "uint bs \<le> 4194304" "0 < uint bs"
    using assms(2,3) of_nat_unat [where ?'a = int, of bs] by linarith+
  have "uint (ucast (offset - ucast (block * bs)) :: u32) = (uint offset - uint block * uint bs) mod 4294967296"
    by (simp only: uint_conv mod_wrap)
  also have "uint offset - uint block * uint bs = uint offset mod uint bs"
    unfolding c by (rule minus_div_mult_eq_mod)
  also have "uint offset mod uint bs mod 4294967296 = uint offset mod uint bs"
    using s pos_mod_bound [OF s(2), of "uint offset"] pos_mod_sign [OF s(2), of "uint offset"]
    by (intro mod_pos_pos_trivial) linarith+
  finally have "int (unat (ucast (offset - ucast (block * bs)) :: u32)) = int (unat offset mod unat bs)"
    by (simp only: of_nat_unat zmod_int)
  then show ?thesis by (simp only: of_nat_eq_iff)
qed

lemma read_request:
  fixes offset :: u64 and sz :: u32
  assumes ok: "fd_ok fd" and off: "offset < file_size fd" and sz: "sz \<le> block_size fd"
  defines "block \<equiv> (ucast (offset div ucast (block_size fd)) :: u32)"
  defines "bo \<equiv> (ucast (offset - ucast (block * block_size fd)) :: u32)"
  shows "unat block = unat offset div unat (block_size fd)" "unat block < unat (file_blocks fd)"
    "unat (block + 1) = unat block + 1" "unat bo = unat offset mod unat (block_size fd)"
    "sz + bo \<le> block_size fd \<longleftrightarrow> unat sz + unat bo \<le> unat (block_size fd)"
    "unat (block_size fd - bo) = unat (block_size fd) - unat bo"
    "unat (block_size fd) < unat sz + unat bo \<Longrightarrow>
       unat (ucast sz - ucast (block_size fd - bo) :: u64) = unat sz - (unat (block_size fd) - unat bo)"
proof -
  note d = fd_okD [OF ok]
  have k: "unat offset div unat (block_size fd) < unat (file_blocks fd)"
    using fd_ok_file_blocks [OF ok] off by (simp add: word_less_nat_alt)
  show b: "unat block = unat offset div unat (block_size fd)"
    using k d(2) by (simp add: block_def unat_ucast_down_32 unat_div)
  then show lt: "unat block < unat (file_blocks fd)" using k by simp
  show "unat (block + 1) = unat block + 1"
    using unat_add_nowrap [of block 1] lt d(2) by simp
  show bo: "unat bo = unat offset mod unat (block_size fd)"
    unfolding bo_def by (rule block_offset_wrap [OF b d(1,6)])
  have lt_bs: "unat bo < unat (block_size fd)" using bo d(6) by simp
  then have le: "bo \<le> block_size fd" by (simp add: word_le_nat_alt)
  have sum: "unat (sz + bo) = unat sz + unat bo"
    using unat_add_nowrap [of sz bo] sz lt_bs d(1) by (simp add: word_le_nat_alt)
  then show "sz + bo \<le> block_size fd \<longleftrightarrow> unat sz + unat bo \<le> unat (block_size fd)"
    by (simp add: word_le_nat_alt)
  show sub: "unat (block_size fd - bo) = unat (block_size fd) - unat bo"
    using le by (rule unat_sub)
  show "unat (block_size fd) < unat sz + unat bo \<Longrightarrow>
       unat (ucast sz - ucast (block_size fd - bo) :: u64) = unat sz - (unat (block_size fd) - unat bo)"
    using unat_sub [of "ucast (block_size fd - bo) :: u64" "ucast sz"] by (simp add: word_le_nat_alt sub)
qed

text \<open>A read that goes over into the next block, once the first block is there.\<close>

lemma handle_read_spill:
  assumes "block = (ucast (offset div ucast (block_size fd)) :: u32)"
    and "bo = (ucast (offset - ucast (block * block_size fd)) :: u32)" and "nodeid = PACKAGE_FILE_ID abi"
    and "fetch_block sha256 read fd w (ucast block) = (None, fd1, w1)" "\<not> sz + bo \<le> block_size fd"
    and "unat bo \<le> unat (block_size fd)" "unat (block_size fd - bo) = unat (block_size fd) - unat bo"
    and "length (block_data fd1) = unat (block_size fd)" "length (extra_block fd1) = unat (block_size fd)"
    and "fetch_block sha256 read (fd1\<lparr>extra_block := overwrite (drop (unat bo) (block_data fd1)) (extra_block fd1)\<rparr>) w1
          (ucast (block + 1)) = (e, fd3, w3)"
  shows "handle_read abi sha256 read fd w nodeid offset sz =
    (case e of Some err \<Rightarrow> Some ((Code (Some err), None), fd3, w3)
     | None \<Rightarrow> map_option (\<lambda>d2. ((NO_STATUS, Some (Data (take (unat (block_size fd) - unat bo) (extra_block fd3) @ d2))), fd3, w3))
         (buf_slice (block_data fd3) 0 (unat (ucast sz - ucast (block_size fd - bo) :: u64))))"
  using assms(3-) by (simp add: handle_read_def Let_def buf_slice_def not_less flip: assms(1,2) split: option.splits)

section \<open>A run of the server\<close>

text \<open>A reply that shows the image, or an error where one is allowed.\<close>

definition reply_ok :: "bool \<Rightarrow> fuse_abi \<Rightarrow> fuse_data \<Rightarrow> (nat \<rightharpoonup> bytes) \<Rightarrow> fuse_request \<times> fuse_payload \<Rightarrow> bool" where
  "reply_ok may_fail abi fd img rp =
     (case req_op (fst rp) of
        READ offset sz \<Rightarrow>
          (case snd rp of Data d \<Rightarrow> sz \<le> block_size fd \<and> shows_read fd img offset sz d
           | Error_out e \<Rightarrow> req_nodeid (fst rp) = PACKAGE_FILE_ID abi \<longrightarrow> may_fail
           | _ \<Rightarrow> False)
      | _ \<Rightarrow> True)"

lemma reply_ok_mono: "img \<subseteq>\<^sub>m img' \<Longrightarrow> reply_ok may_fail abi fd img rp \<Longrightarrow> reply_ok may_fail abi fd img' rp"
  using shows_read_mono by (auto simp: reply_ok_def split: fuse_op.splits fuse_payload.splits)

lemma same_file_trans: "same_file a b \<Longrightarrow> same_file b c \<Longrightarrow> same_file a c"
  by (simp add: same_file_def)

lemma reply_ok_same: "same_file fd fd' \<Longrightarrow> reply_ok may_fail abi fd' img rp = reply_ok may_fail abi fd img rp"
  using shows_read_same_file [of fd fd'] by (simp add: reply_ok_def same_file_def split: fuse_op.split fuse_payload.split)

lemma serve_step_ok:
  assumes d: "dispatch abi sha256 read fd w req = Some ((r, reply), fd1, w1)"
    and rest: "fst (serve abi sha256 read events fd1 w1) \<noteq> Crashed"
      "list_all (reply_ok may_fail abi fd img') (snd (serve abi sha256 read events fd1 w1))"
    and img: "img \<subseteq>\<^sub>m img'"
    and rep: "case reply of
        Some p \<Rightarrow> reply_ok may_fail abi fd img (req, p) \<and> (\<forall>offset sz. req_op req = READ offset sz \<longrightarrow> r = NO_STATUS)
      | None \<Rightarrow> \<forall>e. reply_ok may_fail abi fd img (req, Error_out e)"
  shows "list_all (reply_ok may_fail abi fd img') (snd (serve abi sha256 read (Request req # events) fd w)) \<and>
    fst (serve abi sha256 read (Request req # events) fd w) \<noteq> Crashed"
proof -
  have "reply_ok may_fail abi fd img' (req, Error_out e)" if "r = Code e" for e
  proof (cases "\<exists>offset sz. req_op req = READ offset sz")
    case True
    with rep that have "reply_ok may_fail abi fd img (req, Error_out e)" by (auto split: option.splits)
    then show ?thesis by (rule reply_ok_mono [OF img])
  qed (auto simp: reply_ok_def split: fuse_op.split)
  moreover have "reply_ok may_fail abi fd img' (req, p)" if "reply = Some p" for p
    using rep that by (auto intro: reply_ok_mono [OF img])
  ultimately show ?thesis
    using d rest by (cases r; cases reply) (auto simp: Let_def split: prod.splits)
qed

text \<open>A reply that shows the bytes of one file \<open>F\<close>, or an error where one is allowed.\<close>

definition shows_file :: "bool \<Rightarrow> fuse_abi \<Rightarrow> bytes \<Rightarrow> fuse_request \<times> fuse_payload \<Rightarrow> bool" where
  "shows_file may_fail abi F rp =
     (case req_op (fst rp) of
        READ offset sz \<Rightarrow>
          (case snd rp of Data d \<Rightarrow> d = take (unat sz) (drop (unat offset) F)
           | Error_out e \<Rightarrow> req_nodeid (fst rp) = PACKAGE_FILE_ID abi \<longrightarrow> may_fail
           | _ \<Rightarrow> False)
      | _ \<Rightarrow> True)"

fun read_bytes :: "bytes \<Rightarrow> fuse_op \<Rightarrow> bytes" where
  "read_bytes F (READ offset sz) = take (unat sz) (drop (unat offset) F)"
| "read_bytes F _ = []"

text \<open>
  What the handlers need of \<open>fetch_block\<close> and the provider behind it: with respect to an invariant that
  ties the server and the provider to an image, a fetch only adds to the image, leaves the fetched block
  in \<open>block_data\<close>, and fails only where failure is allowed for.
\<close>

locale read_server =
  fixes sha256 :: "bytes \<Rightarrow> bytes" and read :: "'w provider"
    and inv :: "fuse_data \<Rightarrow> 'w \<Rightarrow> (nat \<rightharpoonup> bytes) \<Rightarrow> bool" and may_fail :: bool
  assumes inv_ok: "inv fd w img \<Longrightarrow> fd_ok fd"
    and inv_extra: "inv fd w img \<Longrightarrow> length x = unat (block_size fd) \<Longrightarrow> inv (fd\<lparr>extra_block := x\<rparr>) w img"
    and inv_length: "inv fd w img \<Longrightarrow> b < unat (file_blocks fd) \<Longrightarrow> img b = Some d \<Longrightarrow> length d = unat (block_size fd)"
    and inv_fetch: "inv fd w img \<Longrightarrow> unat block \<le> unat (file_blocks fd) \<Longrightarrow>
      \<exists>e fd' w' img'. fetch_block sha256 read fd w block = (e, fd', w') \<and> inv fd' w' img' \<and>
        img \<subseteq>\<^sub>m img' \<and> same_file fd fd' \<and> extra_block fd' = extra_block fd \<and>
        (case e of None \<Rightarrow> block_data fd' = fd_image fd img' (unat block) \<and>
             (unat block < unat (file_blocks fd) \<longrightarrow> img' (unat block) \<noteq> None)
         | Some _ \<Rightarrow> may_fail)"
begin

lemma image_length:
  "inv fd w img \<Longrightarrow> length (fd_image fd img b) = unat (block_size fd)"
  using inv_length [of fd w img b] by (auto simp: image_block_def split: option.splits)

lemma second_fetch:
  assumes i: "inv fd w img" and d: "length d \<le> unat (block_size fd)" and b: "unat block \<le> unat (file_blocks fd)"
  obtains e fd' w' img' where
    "fetch_block sha256 read (fd\<lparr>extra_block := overwrite d (extra_block fd)\<rparr>) w (ucast (block :: u32)) = (e, fd', w')"
    "inv fd' w' img'" "img \<subseteq>\<^sub>m img'" "same_file fd fd'" "take (length d) (extra_block fd') = d"
    "case e of None \<Rightarrow> block_data fd' = fd_image fd img' (unat block) \<and>
       (unat block < unat (file_blocks fd) \<longrightarrow> img' (unat block) \<noteq> None) | Some _ \<Rightarrow> may_fail"
proof -
  let ?fd = "fd\<lparr>extra_block := overwrite d (extra_block fd)\<rparr>"
  have "inv ?fd w img"
    using d fd_okD(5) [OF inv_ok [OF i]] by (intro inv_extra [OF i]) (simp add: overwrite_def)
  from inv_fetch [OF this, of "ucast block"] b obtain e fd' w' img' where
    "fetch_block sha256 read ?fd w (ucast block) = (e, fd', w')" "inv fd' w' img'" "img \<subseteq>\<^sub>m img'" "same_file ?fd fd'"
    "extra_block fd' = extra_block ?fd"
    "case e of None \<Rightarrow> block_data fd' = fd_image fd img' (unat block) \<and>
       (unat block < unat (file_blocks fd) \<longrightarrow> img' (unat block) \<noteq> None) | Some _ \<Rightarrow> may_fail"
    by (auto cong: option.case_cong)
  then show thesis by (intro that) (auto simp: same_file_def overwrite_def)
qed

lemma handle_read_image:
  assumes i: "inv fd w img" and off: "offset < file_size fd" and sz: "sz \<le> block_size fd"
  shows "\<exists>r reply fd' w' img'. handle_read abi sha256 read fd w nodeid offset sz = Some ((r, reply), fd', w') \<and>
    inv fd' w' img' \<and> img \<subseteq>\<^sub>m img' \<and> same_file fd fd' \<and> r \<noteq> NO_STATUS_EXIT \<and>
    (case reply of Some p \<Rightarrow> \<exists>d. p = Data d \<and> r = NO_STATUS \<and> shows_read fd img' offset sz d
     | None \<Rightarrow> r \<noteq> NO_STATUS \<and> (nodeid = PACKAGE_FILE_ID abi \<longrightarrow> may_fail))"
proof (cases "nodeid = PACKAGE_FILE_ID abi")
  case False
  then show ?thesis using i by (intro exI [of _ "Code (Some ENOENT)"] exI [of _ None] exI [of _ fd] exI [of _ w] exI [of _ img])
      (simp add: handle_read_def same_file_def)
next
  case True
  let ?bs = "unat (block_size fd)"
  define block where "block = (ucast (offset div ucast (block_size fd)) :: u32)"
  define bo where "bo = (ucast (offset - ucast (block * block_size fd)) :: u32)"
  note q = read_request [OF inv_ok [OF i] off sz, folded block_def, folded bo_def]
  have bo: "unat bo < ?bs" using q(4) fd_okD(6) [OF inv_ok [OF i]] by simp
  have "unat (ucast block :: u64) \<le> unat (file_blocks fd)" using q(2) by simp
  from inv_fetch [OF i this, of] obtain e fd1 w1 img1 where
    f1: "fetch_block sha256 read fd w (ucast block) = (e, fd1, w1)" "inv fd1 w1 img1" "img \<subseteq>\<^sub>m img1" "same_file fd fd1"
      "case e of None \<Rightarrow> block_data fd1 = fd_image fd img1 (unat block) \<and> img1 (unat block) \<noteq> None | Some _ \<Rightarrow> may_fail"
    using q(2) by (auto split: option.splits)
  have sz1: "block_size fd1 = block_size fd" "file_blocks fd1 = file_blocks fd" using f1(4) by (simp_all add: same_file_def)
  show ?thesis
  proof (cases e)
    case (Some err)
    then show ?thesis using True f1
      by (intro exI [of _ "Code (Some err)"] exI [of _ None] exI [of _ fd1] exI [of _ w1] exI [of _ img1])
        (simp add: handle_read_def Let_def flip: block_def)
  next
    case None
    with f1(5) have data1: "block_data fd1 = fd_image fd img1 (unat block)" "img1 (unat block) \<noteq> None" by simp_all
    have len1: "length (block_data fd1) = ?bs" using fd_okD(4) [OF inv_ok [OF f1(2)]] sz1 by simp
    show ?thesis
    proof (cases "unat sz + unat bo \<le> ?bs")
      case fits: True
      let ?d = "take (unat sz) (drop (unat bo) (block_data fd1))"
      have "shows_read fd img1 offset sz ?d"
        using fits q(1,2,4) data1 by (simp add: shows_read_def Let_def)
      moreover have "handle_read abi sha256 read fd w nodeid offset sz = Some ((NO_STATUS, Some (Data ?d)), fd1, w1)"
        using True None f1(1) fits q(5) len1 by (simp add: handle_read_def Let_def buf_slice_def add.commute flip: block_def bo_def)
      ultimately show ?thesis using f1 by fastforce
    next
      case spills: False
      let ?d1 = "drop (unat bo) (block_data fd1)"
      have n1: "length ?d1 = ?bs - unat bo" using len1 by simp
      have "length ?d1 \<le> unat (block_size fd1)" "unat (block + 1) \<le> unat (file_blocks fd1)"
        using n1 q(2,3) sz1 by simp_all
      from second_fetch [OF f1(2) this] obtain e2 fd3 w3 img3 where
        f3: "fetch_block sha256 read (fd1\<lparr>extra_block := overwrite ?d1 (extra_block fd1)\<rparr>) w1 (ucast (block + 1)) = (e2, fd3, w3)"
          "inv fd3 w3 img3" "img1 \<subseteq>\<^sub>m img3" "same_file fd1 fd3" "take (?bs - unat bo) (extra_block fd3) = ?d1"
          "case e2 of None \<Rightarrow> block_data fd3 = fd_image fd img3 (unat block + 1) \<and>
             (unat block + 1 < unat (file_blocks fd) \<longrightarrow> img3 (unat block + 1) \<noteq> None) | Some _ \<Rightarrow> may_fail"
        unfolding n1 sz1 q(3) by blast
      have sf: "same_file fd fd3" "img \<subseteq>\<^sub>m img3"
        using f1(3,4) f3(3,4) by (auto simp: same_file_def intro: map_le_trans)
      have len: "length (block_data fd3) = ?bs" "length (extra_block fd1) = ?bs"
        using fd_okD(4) [OF inv_ok [OF f3(2)]] fd_okD(5) [OF inv_ok [OF f1(2)]] sz1 sf(1) by (simp_all add: same_file_def)
      have q7: "unat (ucast sz - ucast (block_size fd - bo) :: u64) = unat sz - (?bs - unat bo)"
        using q(7) spills by simp
      have "\<not> sz + bo \<le> block_size fd" using spills q(5) by simp
      note run = handle_read_spill [where sz = sz, OF block_def bo_def True f1(1) [unfolded None] this
          less_imp_le [OF bo] q(6) len1 len(2) f3(1)]
      show ?thesis
      proof (cases e2)
        case (Some err)
        then show ?thesis using run f3 sf
          by (intro exI [of _ "Code (Some err)"] exI [of _ None] exI [of _ fd3] exI [of _ w3] exI [of _ img3]) simp
      next
        case None
        let ?d = "?d1 @ take (unat sz - (?bs - unat bo)) (block_data fd3)"
        have "fd_image fd img3 (unat block) = fd_image fd img1 (unat block)" "img3 (unat block) \<noteq> None"
          using data1(2) image_block_mono [OF f3(3)] f3(3) by (auto simp: map_le_def dom_def)
        then have "shows_read fd img3 offset sz ?d"
          using spills q(1,2,4) data1 f3(6) None by (simp add: shows_read_def Let_def)
        moreover have "handle_read abi sha256 read fd w nodeid offset sz = Some ((NO_STATUS, Some (Data ?d)), fd3, w3)"
          using run None f3(5) len(1) sz q7 by (simp add: buf_slice_def word_le_nat_alt)
        ultimately show ?thesis using f3(2) sf
          by (intro exI [of _ NO_STATUS] exI [of _ "Some (Data ?d)"] exI [of _ fd3] exI [of _ w3] exI [of _ img3]) simp
      qed
    qed
  qed
qed

lemma shows_read_file:
  assumes "inv fd w img" "shows_read fd img offset sz d" "sz \<le> block_size fd"
  shows "d = take (unat sz) (drop (unat offset) (image_file (unat (block_size fd)) (unat (file_blocks fd)) img))"
proof -
  let ?bs = "unat (block_size fd)" and ?fb = "unat (file_blocks fd)"
  have "unat offset = unat offset div ?bs * ?bs + unat offset mod ?bs" by simp
  moreover have "unat offset mod ?bs < ?bs" using fd_okD(6) [OF inv_ok [OF assms(1)]] by simp
  moreover have "\<forall>b < ?fb. length (image_block ?bs ?fb img b) = ?bs" using image_length [OF assms(1)] by blast
  ultimately show ?thesis
    using assms(2,3) image_file_slice [of ?fb ?bs img "unat offset div ?bs" "unat offset mod ?bs" "unat sz"]
    by (simp add: shows_read_def Let_def word_le_nat_alt split: if_splits)
qed

lemma dispatch_image:
  assumes i: "inv fd w img" and ok: "request_ok (file_size fd) (block_size fd) (Request req)"
  shows "\<exists>r reply fd' w' img'. dispatch abi sha256 read fd w req = Some ((r, reply), fd', w') \<and> inv fd' w' img' \<and>
    img \<subseteq>\<^sub>m img' \<and> same_file fd fd' \<and>
    (case reply of Some p \<Rightarrow> reply_ok may_fail abi fd img' (req, p) \<and> (\<forall>offset sz. req_op req = READ offset sz \<longrightarrow> r = NO_STATUS)
     | None \<Rightarrow> \<forall>e. reply_ok may_fail abi fd img' (req, Error_out e))"
proof (cases "\<exists>offset sz. req_op req = READ offset sz")
  case True
  then obtain offset sz where op: "req_op req = READ offset sz" by blast
  then have "offset < file_size fd" "sz \<le> block_size fd" using ok by (auto simp: request_ok_def)
  from handle_read_image [OF i this, of abi "req_nodeid req"] obtain r reply fd' w' img' where
    h: "handle_read abi sha256 read fd w (req_nodeid req) offset sz = Some ((r, reply), fd', w')" "inv fd' w' img'"
      "img \<subseteq>\<^sub>m img'" "same_file fd fd'"
      "case reply of Some p \<Rightarrow> \<exists>d. p = Data d \<and> r = NO_STATUS \<and> shows_read fd img' offset sz d
       | None \<Rightarrow> r \<noteq> NO_STATUS \<and> (req_nodeid req = PACKAGE_FILE_ID abi \<longrightarrow> may_fail)"
    by blast
  then show ?thesis
    using op \<open>sz \<le> block_size fd\<close>
    by (intro exI [of _ r] exI [of _ reply] exI [of _ fd'] exI [of _ w'] exI [of _ img'])
      (auto simp: dispatch_def reply_ok_def split: option.splits)
next
  case False
  then have "\<exists>r reply. dispatch abi sha256 read fd w req = Some ((r, reply), fd, w)"
    by (cases "req_op req") (auto simp: dispatch_def)
  moreover have "reply_ok may_fail abi fd img (req, p)" for p
    using False by (simp add: reply_ok_def split: fuse_op.split)
  ultimately show ?thesis
    using i False by (force simp: same_file_def split: option.split)
qed

lemma serve_image:
  assumes "inv fd w img" "list_all (request_ok (file_size fd) (block_size fd)) events"
  shows "\<exists>w' fd' img'. inv fd' w' img' \<and> same_file fd fd' \<and> img \<subseteq>\<^sub>m img' \<and>
    fst (serve abi sha256 read events fd w) \<noteq> Crashed \<and>
    list_all (reply_ok may_fail abi fd img') (snd (serve abi sha256 read events fd w))"
  using assms
proof (induction events arbitrary: fd w img)
  case Nil
  then show ?case by (intro exI [of _ w] exI [of _ fd] exI [of _ img]) (simp add: same_file_def)
next
  case (Cons ev events)
  show ?case
  proof (cases "\<exists>req. ev = Request req")
    case False
    have "\<exists>w' fd' img'. inv fd' w' img' \<and> same_file fd fd' \<and> img \<subseteq>\<^sub>m img'"
      using Cons.prems(1) by (intro exI [of _ w] exI [of _ fd] exI [of _ img]) (simp add: same_file_def)
    with False show ?thesis
      using Cons.IH [OF Cons.prems(1)] Cons.prems(2) by (cases ev) auto
  next
    case True
    then obtain req where ev: "ev = Request req" by blast
    with Cons.prems obtain r reply fd1 w1 img1 where
      d: "dispatch abi sha256 read fd w req = Some ((r, reply), fd1, w1)" "inv fd1 w1 img1" "img \<subseteq>\<^sub>m img1" "same_file fd fd1"
      and rep: "case reply of Some p \<Rightarrow> reply_ok may_fail abi fd img1 (req, p) \<and> (\<forall>offset sz. req_op req = READ offset sz \<longrightarrow> r = NO_STATUS)
       | None \<Rightarrow> \<forall>e. reply_ok may_fail abi fd img1 (req, Error_out e)"
      using dispatch_image [of fd w img req abi] by auto
    have "list_all (request_ok (file_size fd1) (block_size fd1)) events" using Cons.prems(2) d(4) by (simp add: same_file_def)
    from Cons.IH [OF d(2) this] obtain w' fd' img' where
      i: "inv fd' w' img'" "same_file fd1 fd'" "img1 \<subseteq>\<^sub>m img'" "fst (serve abi sha256 read events fd1 w1) \<noteq> Crashed"
        "list_all (reply_ok may_fail abi fd1 img') (snd (serve abi sha256 read events fd1 w1))"
      by blast
    have "list_all (reply_ok may_fail abi fd img') (snd (serve abi sha256 read (ev # events) fd w)) \<and>
        fst (serve abi sha256 read (ev # events) fd w) \<noteq> Crashed"
      using serve_step_ok [OF d(1) i(4) _ i(3) rep] i(5) reply_ok_same [OF d(4)] unfolding ev by (simp cong: list.pred_cong)
    then show ?thesis using i(1,2,3) d(3,4) by (blast intro: map_le_trans same_file_trans)
  qed
qed

lemma reply_ok_file:
  assumes "inv fd w img" "reply_ok may_fail abi fd img rp"
  shows "shows_file may_fail abi (image_file (unat (block_size fd)) (unat (file_blocks fd)) img) rp"
  using assms(2) shows_read_file [OF assms(1)]
  by (simp add: reply_ok_def shows_file_def split: fuse_op.splits fuse_payload.splits)

lemma serve_file:
  assumes "inv fd w img" "list_all (request_ok (file_size fd) (block_size fd)) events"
  obtains fd' w' img' where "inv fd' w' img'" "same_file fd fd'" "img \<subseteq>\<^sub>m img'"
    "fst (serve abi sha256 read events fd w) \<noteq> Crashed"
    "list_all (shows_file may_fail abi (image_file (unat (block_size fd)) (unat (file_blocks fd)) img'))
       (snd (serve abi sha256 read events fd w))"
proof -
  from serve_image [OF assms, of abi] obtain w' fd' img' where
    i: "inv fd' w' img'" "same_file fd fd'" "img \<subseteq>\<^sub>m img'" "fst (serve abi sha256 read events fd w) \<noteq> Crashed"
      "list_all (reply_ok may_fail abi fd img') (snd (serve abi sha256 read events fd w))"
    by blast
  have "list_all (shows_file may_fail abi (image_file (unat (block_size fd)) (unat (file_blocks fd)) img'))
       (snd (serve abi sha256 read events fd w))"
    using i(5) reply_ok_file [OF i(1)] reply_ok_same [OF i(2)] i(2) by (simp add: list_all_iff same_file_def)
  with i that show thesis by blast
qed

lemma serve_answers:
  assumes "inv fd w img" "list_all (request_ok (file_size fd) (block_size fd) \<circ> Request) reqs" "\<not> may_fail"
    and "list_all (\<lambda>req. req_nodeid req = PACKAGE_FILE_ID abi \<and> (\<exists>offset sz. req_op req = READ offset sz)) reqs"
  shows "fst (serve abi sha256 read (map Request reqs) fd w) = Waiting \<and>
    map fst (snd (serve abi sha256 read (map Request reqs) fd w)) = reqs"
  using assms
proof (induction reqs arbitrary: fd w img)
  case (Cons req reqs)
  then obtain offset sz where op: "req_op req = READ offset sz" "req_nodeid req = PACKAGE_FILE_ID abi" by auto
  then have "offset < file_size fd" "sz \<le> block_size fd" using Cons.prems(2) by (auto simp: request_ok_def)
  from handle_read_image [OF Cons.prems(1) this, of abi "req_nodeid req"] \<open>\<not> may_fail\<close> op(2) obtain d fd' w' img' where
    h: "handle_read abi sha256 read fd w (req_nodeid req) offset sz = Some ((NO_STATUS, Some (Data d)), fd', w')"
      "inv fd' w' img'" "same_file fd fd'"
    by (fastforce split: option.splits)
  show ?case
    using Cons.IH [OF h(2)] Cons.prems(2-4) h op by (auto simp: dispatch_def same_file_def split: prod.split)
qed simp

end

section \<open>An untrusted provider\<close>

text \<open>
  The image a state is consistent with: \<open>img\<close> gives the content under which each block was first handed
  out. The digest recorded for a block is that content's digest, and the cached block is one of the image.
\<close>

definition digests_ok :: "(bytes \<Rightarrow> bytes) \<Rightarrow> bytes set \<Rightarrow> nat \<Rightarrow> nat \<Rightarrow> bytes list \<Rightarrow> (nat \<rightharpoonup> bytes) \<Rightarrow> bool" where
  "digests_ok sha256 S bs fb hs img \<longleftrightarrow>
     (\<forall>b < fb. case img b of
        None \<Rightarrow> \<not> list_ex (\<lambda>i. i \<noteq> 0) (hs ! b)
      | Some d \<Rightarrow> d \<in> S \<and> length d = bs \<and> hs ! b = sha256 d)"

definition consistent :: "(bytes \<Rightarrow> bytes) \<Rightarrow> bytes set \<Rightarrow> fuse_data \<Rightarrow> (nat \<rightharpoonup> bytes) \<Rightarrow> bool" where
  "consistent sha256 S fd img \<longleftrightarrow> fd_ok fd \<and>
     digests_ok sha256 S (unat (block_size fd)) (unat (file_blocks fd)) (hashes fd) img \<and>
     (unat (curr_block fd) < unat (file_blocks fd) \<longrightarrow> img (unat (curr_block fd)) = Some (block_data fd)) \<and>
     (unat (file_blocks fd) \<le> unat (curr_block fd) \<and> curr_block fd \<noteq> - 1 \<longrightarrow>
        block_data fd = replicate (unat (block_size fd)) 0)"

lemma digests_okD:
  assumes "digests_ok sha256 S bs fb hs img" "b < fb"
  shows "img b = Some d \<Longrightarrow> d \<in> S \<and> length d = bs \<and> hs ! b = sha256 d"
    and "img b = None \<Longrightarrow> \<not> list_ex (\<lambda>i. i \<noteq> 0) (hs ! b)"
  using assms by (auto simp: digests_ok_def dest: spec [of _ b])

lemma digests_ok_add:
  assumes "digests_ok sha256 S bs fb hs img" "d \<in> S" "length d = bs" "fb = length hs"
  shows "digests_ok sha256 S bs fb (hs[b := sha256 d]) (img(b \<mapsto> d))"
  using assms by (auto simp: digests_ok_def nth_list_update split: option.splits)

text \<open>
  A provider that may say anything, a different thing every time, but answers every request in full; the
  digest function separates the blocks it can deliver, and none of their digests is all zero.
\<close>

locale untrusted_source =
  fixes sha256 :: "bytes \<Rightarrow> bytes" and read :: "'w provider" and bs :: nat and S :: "bytes set"
  assumes answers: "unat n \<le> bs \<Longrightarrow> \<exists>d w'. read w n b = (True, d, w') \<and> length d = unat n \<and> d @ replicate (bs - unat n) 0 \<in> S"
    and separates: "inj_on sha256 S"
    and nonzero: "d \<in> S \<Longrightarrow> list_ex (\<lambda>i. i \<noteq> 0) (sha256 d)"
begin

lemma fetch_fresh_image:
  assumes c: "consistent sha256 S fd img" and bs: "unat (block_size fd) = bs"
    and b: "unat block < unat (file_blocks fd)" and new: "block \<noteq> ucast (curr_block fd)"
  shows "\<exists>e fd' w' img'. fetch_block sha256 read fd w block = (e, fd', w') \<and> consistent sha256 S fd' img' \<and>
    img \<subseteq>\<^sub>m img' \<and> same_file fd fd' \<and> extra_block fd' = extra_block fd \<and>
    (e = None \<longrightarrow> img' (unat block) = Some (block_data fd'))"
proof -
  let ?b = "unat block" and ?n = "block_bytes fd (unat block)"
  have ok: "fd_ok fd" using c by (simp add: consistent_def)
  have n: "?n \<le> bs" "unat (of_nat ?n :: u32) = ?n" "unat (of_nat ?b :: u32) = ?b"
    using fd_okD [OF ok] b bs block_bytes_bounds [of fd ?b] by (auto simp: unat_of_nat_small simp del: of_nat_unat)
  obtain d w' where d: "read w (of_nat ?n) (of_nat ?b) = (True, d, w')" "length d = ?n" "d @ replicate (bs - ?n) 0 \<in> S"
    using answers [of "of_nat ?n" w "of_nat ?b"] n by auto
  define data where "data = d @ replicate (bs - ?n) 0"
  let ?fd = "fd\<lparr>block_data := data, curr_block := of_nat ?b\<rparr>"
  have data: "data \<in> S" "length data = unat (block_size fd)" using d n bs by (simp_all add: data_def)
  have run: "fetch_block sha256 read fd w block =
      (if sha256 data = hashes fd ! ?b then (None, ?fd, w')
       else if list_ex (\<lambda>i. i \<noteq> 0) (hashes fd ! ?b) then (Some EIO, ?fd\<lparr>curr_block := - 1\<rparr>, w')
       else (None, ?fd\<lparr>hashes := (hashes fd)[?b := sha256 data]\<rparr>, w'))"
    using fetch_block_fresh [where read = read and w = w, OF ok b new d(1,2)] by (simp only: Let_def bs flip: data_def)
  show ?thesis
  proof (cases "img ?b")
    case (Some d0)
    then have h: "hashes fd ! ?b = sha256 d0" "d0 \<in> S" using c digests_okD(1) [OF _ b] unfolding consistent_def by blast+
    show ?thesis
    proof (cases "sha256 data = sha256 d0")
      case True
      then have "data = d0" using separates h(2) data(1) by (simp add: inj_on_def)
      then have "consistent sha256 S ?fd img"
        using c b n(3) Some data(2) by (auto simp: consistent_def fd_ok_buffers simp del: of_nat_unat)
      then show ?thesis
        using run True h(1) Some \<open>data = d0\<close>
        by (intro exI [of _ None] exI [of _ ?fd] exI [of _ w'] exI [of _ img]) (simp add: same_file_def)
    next
      case False
      then have "consistent sha256 S (?fd\<lparr>curr_block := - 1\<rparr>) img"
        using c data(2) fd_okD(2) [OF ok] by (auto simp: consistent_def fd_ok_buffers)
      then show ?thesis
        using run False h nonzero [OF h(2)]
        by (intro exI [of _ "Some EIO"] exI [of _ "?fd\<lparr>curr_block := - 1\<rparr>"] exI [of _ w'] exI [of _ img])
          (simp add: same_file_def)
    qed
  next
    case None
    then have "sha256 data \<noteq> hashes fd ! ?b" "\<not> list_ex (\<lambda>i. i \<noteq> 0) (hashes fd ! ?b)"
      using c digests_okD(2) [OF _ b] nonzero [OF data(1)] unfolding consistent_def by metis+
    moreover have "consistent sha256 S (?fd\<lparr>hashes := (hashes fd)[?b := sha256 data]\<rparr>) (img(?b \<mapsto> data))"
      using c b n(3) data fd_okD(3) [OF ok]
      by (auto simp: consistent_def fd_ok_buffers digests_ok_add simp del: of_nat_unat)
    ultimately show ?thesis
      using run None
      by (intro exI [of _ None] exI [of _ "?fd\<lparr>hashes := (hashes fd)[?b := sha256 data]\<rparr>"] exI [of _ w']
          exI [of _ "img(?b \<mapsto> data)"]) (auto simp: same_file_def map_le_def)
  qed
qed

lemma fetch_block_image:
  assumes c: "consistent sha256 S fd img" and bs: "unat (block_size fd) = bs" and b: "unat block \<le> unat (file_blocks fd)"
  shows "\<exists>e fd' w' img'. fetch_block sha256 read fd w block = (e, fd', w') \<and> consistent sha256 S fd' img' \<and>
    img \<subseteq>\<^sub>m img' \<and> same_file fd fd' \<and> extra_block fd' = extra_block fd \<and>
    (e = None \<longrightarrow> block_data fd' = fd_image fd img' (unat block) \<and> (unat block < unat (file_blocks fd) \<longrightarrow> img' (unat block) \<noteq> None))"
proof -
  let ?b = "unat block" and ?fb = "unat (file_blocks fd)"
  have ok: "fd_ok fd" using c by (simp add: consistent_def)
  then have fb: "?fb \<le> 262144" by (simp add: fd_ok_def)
  consider (cached) "block = ucast (curr_block fd)" | (beyond) "block \<noteq> ucast (curr_block fd)" "?fb \<le> ?b"
    | (fresh) "block \<noteq> ucast (curr_block fd)" "?b < ?fb"
    by linarith
  then show ?thesis
  proof cases
    case cached
    then have "?b = unat (curr_block fd)" by simp
    moreover have "curr_block fd \<noteq> - 1" using calculation b fb by auto
    ultimately have "block_data fd = fd_image fd img ?b \<and> (?b < ?fb \<longrightarrow> img ?b \<noteq> None)"
      using c by (auto simp: consistent_def image_block_def)
    then show ?thesis
      using cached c by (intro exI [of _ None] exI [of _ fd] exI [of _ w] exI [of _ img]) (simp add: fetch_block_def same_file_def)
  next
    case beyond
    let ?fd = "fd\<lparr>block_data := replicate (unat (block_size fd)) 0, curr_block := ucast block\<rparr>"
    have "unat (ucast block :: u32) = ?b" using b fb by (simp add: unat_ucast_down_32)
    then have "consistent sha256 S ?fd img" using c beyond(2) by (auto simp: consistent_def fd_ok_buffers)
    moreover have "fetch_block sha256 read fd w block = (None, ?fd, w)"
      using beyond by (simp add: fetch_block_def word_le_nat_alt)
    ultimately show ?thesis
      using beyond(2) by (intro exI [of _ None] exI [of _ ?fd] exI [of _ w] exI [of _ img]) (simp add: same_file_def image_block_def)
  next
    case fresh
    from fetch_fresh_image [OF c bs fresh(2,1), of w] show ?thesis
      using fresh(2) by (fastforce simp: image_block_def)
  qed
qed

end

sublocale untrusted_source \<subseteq> untrusted: read_server sha256 read
  "\<lambda>fd w img. consistent sha256 S fd img \<and> unat (block_size fd) = bs" True
proof unfold_locales
  fix fd img w and block :: u64
  assume i: "consistent sha256 S fd img \<and> unat (block_size fd) = bs" and b: "unat block \<le> unat (file_blocks fd)"
  from fetch_block_image [OF _ _ b, of img w] i
  show "\<exists>e fd' w' img'. fetch_block sha256 read fd w block = (e, fd', w') \<and>
      (consistent sha256 S fd' img' \<and> unat (block_size fd') = bs) \<and> img \<subseteq>\<^sub>m img' \<and> same_file fd fd' \<and>
      extra_block fd' = extra_block fd \<and>
      (case e of None \<Rightarrow> block_data fd' = fd_image fd img' (unat block) \<and>
           (unat block < unat (file_blocks fd) \<longrightarrow> img' (unat block) \<noteq> None)
       | Some _ \<Rightarrow> True)"
    by (fastforce simp: same_file_def split: option.split)
qed (auto simp: consistent_def fd_ok_buffers dest: digests_okD(1))

section \<open>An honest provider\<close>

definition pad_block :: "nat \<Rightarrow> bytes \<Rightarrow> nat \<Rightarrow> bytes" where
  "pad_block bs C b = take bs (drop (b * bs) C) @ replicate (bs - (length C - b * bs)) 0"

lemma length_pad_block: "length (pad_block bs C b) = bs"
  by (simp add: pad_block_def)

lemma pad_block_take:
  assumes "(b + 1) * bs \<le> length C + z"
  shows "pad_block bs C b = take bs (drop (b * bs) (C @ replicate z 0))"
  using assms by (auto simp: pad_block_def algebra_simps min_def)

lemma pad_block_image:
  assumes "(fb + 1) * bs \<le> length C + z" "length C \<le> fb * bs"
  shows "image_file bs fb (\<lambda>b. Some (pad_block bs C b)) = take ((fb + 1) * bs) (C @ replicate z 0)"
proof -
  have "concat (map (image_block bs fb (\<lambda>b. Some (pad_block bs C b))) [0..<n]) = take (n * bs) (C @ replicate z 0)"
    if "n \<le> fb + 1" for n
    using that
  proof (induction n)
    case (Suc n)
    have "(n + 1) * bs \<le> (fb + 1) * bs" using Suc.prems by (intro mult_le_mono1) simp
    then have "pad_block bs C n = take bs (drop (n * bs) (C @ replicate z 0))"
      by (intro pad_block_take order_trans [OF _ assms(1)])
    moreover have "image_block bs fb (\<lambda>b. Some (pad_block bs C b)) n = pad_block bs C n"
    proof (cases "n < fb")
      case False
      then have "n = fb" using Suc.prems by simp
      then show ?thesis using assms(2) by (simp add: image_block_def pad_block_def)
    qed (simp add: image_block_def)
    moreover have "take (Suc n * bs) (C @ replicate z 0) =
        take (n * bs) (C @ replicate z 0) @ take bs (drop (n * bs) (C @ replicate z 0))"
      by (metis add.commute mult_Suc take_add)
    ultimately show ?case using Suc by simp
  qed simp
  from this [of "fb + 1"] show ?thesis by (simp add: image_file_def)
qed

text \<open>
  Against a provider that delivers the same content every time, whatever the digest function does: the
  recorded digests are those of the content's blocks.
\<close>

locale honest_server = block_source ok read fsize bsize content
  for ok :: "'p \<Rightarrow> bool" and read fsize bsize content +
  fixes sha256 :: "bytes \<Rightarrow> bytes"
begin

definition honest_inv :: "fuse_data \<Rightarrow> 'p \<Rightarrow> (nat \<rightharpoonup> bytes) \<Rightarrow> bool" where
  "honest_inv fd p img \<longleftrightarrow> ok p \<and> fd_ok fd \<and> fsize p = file_size fd \<and> bsize p = block_size fd \<and>
     img = (\<lambda>b. Some (pad_block (unat (block_size fd)) (content p) b)) \<and>
     (\<forall>b < unat (file_blocks fd). \<not> list_ex (\<lambda>i. i \<noteq> 0) (hashes fd ! b) \<or>
        hashes fd ! b = sha256 (pad_block (unat (block_size fd)) (content p) b)) \<and>
     (unat (curr_block fd) < unat (file_blocks fd) \<longrightarrow>
        block_data fd = pad_block (unat (block_size fd)) (content p) (unat (curr_block fd))) \<and>
     (unat (file_blocks fd) \<le> unat (curr_block fd) \<and> curr_block fd \<noteq> - 1 \<longrightarrow>
        block_data fd = replicate (unat (block_size fd)) 0)"

lemma fetch_fresh_honest:
  assumes i: "honest_inv fd p img" and b: "unat block < unat (file_blocks fd)" and new: "block \<noteq> ucast (curr_block fd)"
  shows "\<exists>fd'. fetch_block sha256 read fd p block = (None, fd', p) \<and> honest_inv fd' p img \<and> same_file fd fd' \<and>
    extra_block fd' = extra_block fd \<and> block_data fd' = pad_block (unat (block_size fd)) (content p) (unat block)"
proof -
  let ?b = "unat block" and ?n = "block_bytes fd (unat block)" and ?bs = "unat (block_size fd)"
  have ok: "ok p" "fd_ok fd" "fsize p = file_size fd" "bsize p = block_size fd" using i by (simp_all add: honest_inv_def)
  have len: "unat (file_size fd) = length (content p)" using size [OF ok(1)] ok(3) by simp
  have n: "unat (of_nat ?n :: u32) = ?n" "unat (of_nat ?b :: u32) = ?b"
    using fd_okD [OF ok(2)] b block_bytes_bounds [of fd ?b] by (auto simp: unat_of_nat_small simp del: of_nat_unat)
  have start: "?b * ?bs < length (content p)" using fd_ok_block_start(1) [OF ok(2) b] len by simp
  have n_min: "?n = min ?bs (length (content p) - ?b * ?bs)" by (simp add: block_bytes_def len)
  define d where "d = take ?n (drop (?b * ?bs) (content p))"
  have rd: "read p (of_nat ?n) (of_nat ?b) = (True, d, p)"
    using read_block [OF ok(1), of "of_nat ?b" "of_nat ?n"] start n n_min ok(4) by (simp add: d_def del: of_nat_unat)
  have d: "length d = ?n" "d @ replicate (?bs - ?n) 0 = pad_block ?bs (content p) ?b"
    using start by (auto simp: d_def n_min pad_block_def min_def)
  let ?data = "pad_block ?bs (content p) ?b"
  let ?fd = "fd\<lparr>block_data := ?data, curr_block := of_nat ?b\<rparr>"
  have h: "\<not> list_ex (\<lambda>i. i \<noteq> 0) (hashes fd ! ?b) \<or> hashes fd ! ?b = sha256 ?data"
    using i b by (simp add: honest_inv_def)
  have inv: "honest_inv ?fd p img" "honest_inv (?fd\<lparr>hashes := (hashes fd)[?b := sha256 ?data]\<rparr>) p img"
    using i n(2) b fd_okD(3) [OF ok(2)]
    by (auto simp: honest_inv_def fd_ok_buffers length_pad_block nth_list_update simp del: of_nat_unat)
  have run: "fetch_block sha256 read fd p block =
      (if sha256 ?data = hashes fd ! ?b then (None, ?fd, p)
       else if list_ex (\<lambda>i. i \<noteq> 0) (hashes fd ! ?b) then (Some EIO, ?fd\<lparr>curr_block := - 1\<rparr>, p)
       else (None, ?fd\<lparr>hashes := (hashes fd)[?b := sha256 ?data]\<rparr>, p))"
    using fetch_block_fresh [where read = read and w = p, OF ok(2) b new rd d(1)] unfolding Let_def d(2) .
  show ?thesis
    using run h inv by (cases "sha256 ?data = hashes fd ! ?b") (auto simp: same_file_def)
qed

end

sublocale honest_server \<subseteq> honest: read_server sha256 read honest_inv False
proof unfold_locales
  fix fd p img and block :: u64
  assume i: "honest_inv fd p img" and b: "unat block \<le> unat (file_blocks fd)"
  have ok: "fd_ok fd" and img: "img = (\<lambda>b. Some (pad_block (unat (block_size fd)) (content p) b))"
    using i by (simp_all add: honest_inv_def)
  have "\<exists>fd'. fetch_block sha256 read fd p block = (None, fd', p) \<and> honest_inv fd' p img \<and> same_file fd fd' \<and>
      extra_block fd' = extra_block fd \<and> block_data fd' = fd_image fd img (unat block)"
  proof (cases "block = ucast (curr_block fd)")
    case True
    moreover have "curr_block fd \<noteq> - 1" using True b fd_okD(2) [OF ok] by auto
    ultimately show ?thesis
      using i by (auto simp: fetch_block_def same_file_def image_block_def honest_inv_def)
  next
    case new: False
    show ?thesis
    proof (cases "unat block < unat (file_blocks fd)")
      case True
      from fetch_fresh_honest [OF i True new] True show ?thesis by (auto simp: image_block_def img)
    next
      case False
      let ?fd = "fd\<lparr>block_data := replicate (unat (block_size fd)) 0, curr_block := ucast block\<rparr>"
      have "unat (ucast block :: u32) = unat block" using b fd_okD(2) [OF ok] by (simp add: unat_ucast_down_32)
      then have "honest_inv ?fd p img" using i False by (auto simp: honest_inv_def fd_ok_buffers)
      moreover have "fetch_block sha256 read fd p block = (None, ?fd, p)"
        using new False by (simp add: fetch_block_def word_le_nat_alt)
      ultimately show ?thesis using False by (simp add: same_file_def image_block_def)
    qed
  qed
  then show "\<exists>e fd' w' img'. fetch_block sha256 read fd p block = (e, fd', w') \<and> honest_inv fd' w' img' \<and> img \<subseteq>\<^sub>m img' \<and>
      same_file fd fd' \<and> extra_block fd' = extra_block fd \<and>
      (case e of None \<Rightarrow> block_data fd' = fd_image fd img' (unat block) \<and>
           (unat block < unat (file_blocks fd) \<longrightarrow> img' (unat block) \<noteq> None)
       | Some _ \<Rightarrow> False)"
    using img by fastforce
qed (auto simp: honest_inv_def fd_ok_buffers length_pad_block)

section \<open>The start of a run\<close>

lemma fd_ok_size:
  assumes "fd_ok fd"
  shows "unat (file_size fd) \<le> unat (file_blocks fd) * unat (block_size fd)"
    and "unat (file_blocks fd) * unat (block_size fd) < unat (file_size fd) + unat (block_size fd)"
proof -
  let ?fs = "unat (file_size fd)" and ?bs = "unat (block_size fd)"
  have bs: "0 < ?bs" and fb: "unat (file_blocks fd) = (if ?fs = 0 then 0 else (?fs - 1) div ?bs + 1)"
    using assms by (auto simp: fd_ok_def unat_gt_0)
  have "?fs \<le> ((?fs - 1) div ?bs + 1) * ?bs" if "0 < ?fs" using ceil_covers [OF that bs] .
  then show "?fs \<le> unat (file_blocks fd) * ?bs" by (simp only: fb split: if_split) simp
  define q where "q = (?fs - 1) div ?bs"
  have "q * ?bs \<le> ?fs - 1" unfolding q_def by (rule div_times_less_eq_dividend)
  then show "unat (file_blocks fd) * ?bs < ?fs + ?bs" using bs by (auto simp: fb [folded q_def] add_mult_distrib)
qed

lemma take_drop_take: "a + b \<le> n \<Longrightarrow> take b (drop a (take n xs)) = take b (drop a xs)"
  by (simp add: drop_take min_def)

lemma map_pair_eq: "map fst xs = ys \<Longrightarrow> (\<And>x. x \<in> set xs \<Longrightarrow> snd x = g (fst x)) \<Longrightarrow> xs = map (\<lambda>y. (y, g y)) ys"
  by (induction xs arbitrary: ys) auto

lemma fuse_setup_ok:
  assumes "4096 \<le> unat bs" "unat bs \<le> 4194304" "(unat fs - 1) div unat bs + 1 \<le> 262144"
    and "length b1 = unat bs" "length b2 = unat bs"
  obtains fd where "fuse_setup fs bs u g (Some b1) (Some b2) = Some fd" "fd_ok fd" "file_size fd = fs" "block_size fd = bs"
    "curr_block fd = - 1" "hashes fd = replicate (unat (file_blocks fd)) (replicate 32 0)"
proof -
  define blocks where "blocks = (if fs = 0 then 0 else ucast (((fs - 1) div ucast bs) + 1) :: u32)"
  have "unat blocks = (if fs = 0 then 0 else (unat fs - 1) div unat bs + 1)"
    using assms(3) by (simp add: blocks_def unat_ucast_down_32 ceil_div_word)
  moreover from this have "\<not> blocks > 262144" using assms(3) by (simp add: word_less_nat_alt)
  moreover have "\<not> bs < 4096" "\<not> bs > 4194304" using assms(1,2) by (simp_all add: word_less_nat_alt)
  ultimately show thesis
    using assms by (intro that [of "\<lparr>file_size = fs, block_size = bs, file_blocks = blocks, uid = u, gid = g,
        curr_block = - 1, block_data = b1, extra_block = b2, hashes = replicate (unat blocks) (replicate 32 0)\<rparr>"])
      (auto simp: fuse_setup_def Let_def fd_ok_def simp flip: blocks_def)
qed

lemma fresh_hashes: "b < n \<Longrightarrow> \<not> list_ex (\<lambda>i. i \<noteq> 0) (replicate n (replicate 32 0) ! b)"
  by (simp add: list_ex_iff)

context untrusted_source
begin

lemma setup_consistent:
  assumes "fd_ok fd" "curr_block fd = - 1" "hashes fd = replicate (unat (file_blocks fd)) (replicate 32 0)"
  shows "consistent sha256 S fd Map.empty"
  using assms fd_okD(2) [OF assms(1)] by (simp add: consistent_def digests_ok_def fresh_hashes del: nth_replicate)

lemma serve_single_file:
  assumes "fd_ok fd" "curr_block fd = - 1" "hashes fd = replicate (unat (file_blocks fd)) (replicate 32 0)"
    and "unat (block_size fd) = bs" "list_all (request_ok (file_size fd) (block_size fd)) events"
  shows "\<exists>F. fst (serve abi sha256 read events fd w) \<noteq> Crashed \<and>
    list_all (shows_file True abi F) (snd (serve abi sha256 read events fd w))"
  using untrusted.serve_file [where fd = fd and img = Map.empty and events = events and w = w and abi = abi] setup_consistent [OF assms(1-3)] assms(4,5) by blast

end

context honest_server
begin

lemma setup_honest:
  assumes "fd_ok fd" "curr_block fd = - 1" "hashes fd = replicate (unat (file_blocks fd)) (replicate 32 0)"
    and "ok p" "fsize p = file_size fd" "bsize p = block_size fd"
  shows "honest_inv fd p (\<lambda>b. Some (pad_block (unat (block_size fd)) (content p) b))"
  using assms fd_okD(2) [OF assms(1)] by (simp add: honest_inv_def fresh_hashes del: nth_replicate)

lemma serve_content:
  assumes "fd_ok fd" "curr_block fd = - 1" "hashes fd = replicate (unat (file_blocks fd)) (replicate 32 0)"
    and "ok p" "fsize p = file_size fd" "bsize p = block_size fd"
    and "list_all (request_ok (file_size fd) (block_size fd) \<circ> Request) reqs"
    and "list_all (\<lambda>req. req_nodeid req = PACKAGE_FILE_ID abi \<and> (\<exists>offset sz. req_op req = READ offset sz)) reqs"
  shows "serve abi sha256 read (map Request reqs) fd p =
    (Waiting, map (\<lambda>req. (req, Data (read_bytes (content p @ replicate (2 * unat (block_size fd)) 0) (req_op req)))) reqs)"
proof -
  let ?bs = "unat (block_size fd)" and ?fb = "unat (file_blocks fd)" and ?C = "content p"
  let ?img = "\<lambda>b. Some (pad_block ?bs ?C b)" and ?X = "content p @ replicate (2 * unat (block_size fd)) 0"
  let ?run = "serve abi sha256 read (map Request reqs) fd p"
  have inv: "honest_inv fd p ?img" by (rule setup_honest [OF assms(1-6)])
  have len: "unat (file_size fd) = length ?C" using size [OF assms(4)] assms(5) by simp
  have fits: "length ?C \<le> ?fb * ?bs" "(?fb + 1) * ?bs \<le> length ?C + 2 * ?bs"
    using fd_ok_size [OF assms(1)] len by simp_all
  have ans: "fst ?run = Waiting" "map fst (snd ?run) = reqs"
    using honest.serve_answers [OF inv assms(7) _ assms(8)] by simp_all
  obtain img' where "?img \<subseteq>\<^sub>m img'" and F: "list_all (shows_file False abi (image_file ?bs ?fb img')) (snd ?run)"
    using honest.serve_file [OF inv, of "map Request reqs" abi] assms(7) by (auto simp: list.pred_map)
  then have "img' = ?img" by (auto simp: map_le_def dom_def)
  define G where "G = take ((?fb + 1) * ?bs) ?X"
  have F: "list_all (shows_file False abi G) (snd ?run)"
    using F \<open>img' = ?img\<close> pad_block_image [OF fits(2,1)] by (simp only: G_def)
  have "snd rp = Data (read_bytes ?X (req_op (fst rp)))" if "rp \<in> set (snd ?run)" for rp
  proof -
    have "fst rp \<in> set reqs" using that ans(2) by (metis image_eqI list.set_map)
    with assms(7,8) obtain offset sz where op: "req_op (fst rp) = READ offset sz" "req_nodeid (fst rp) = PACKAGE_FILE_ID abi"
      "unat offset < length ?C" "unat sz \<le> ?bs"
      by (fastforce simp: list_all_iff request_ok_def word_less_nat_alt word_le_nat_alt len)
    moreover have "unat offset + unat sz \<le> (?fb + 1) * ?bs" using op(3,4) fits(1) by (simp add: add_mult_distrib)
    then have "take (unat sz) (drop (unat offset) G) = take (unat sz) (drop (unat offset) ?X)"
      unfolding G_def by (rule take_drop_take)
    moreover have "shows_file False abi G rp" using F that by (simp add: list_all_iff)
    ultimately show ?thesis
      by (simp only: shows_file_def read_bytes.simps fuse_op.case simp_thms split: fuse_payload.splits)
  qed
  then have "snd ?run = map (\<lambda>req. (req, Data (read_bytes ?X (req_op req)))) reqs"
    by (rule map_pair_eq [OF ans(2)])
  then show ?thesis using ans(1) by (metis prod.collapse)
qed

end

section \<open>The digest of a tagged block\<close>

text \<open>
  The adb provider behind a host that answers every request (with whatever it likes), and a digest that
  is the block behind a marker byte, meet the contract of an untrusted source.
\<close>

definition answering :: "('h \<Rightarrow> bytes \<times> 'h) \<Rightarrow> 'h \<Rightarrow> nat \<Rightarrow> bool \<times> bytes \<times> 'h" where
  "answering host h n = (case host h of (d, h') \<Rightarrow> (True, take n (d @ replicate n 0), h'))"

interpretation adb_source: untrusted_source "\<lambda>d. 1 # d"
  "Adb_ReadBlockAlignedData (\<lambda>h s. (True, h)) (answering host) send" bs UNIV for host send bs
  by unfold_locales (auto simp: Adb_ReadBlockAlignedData_def answering_def split: prod.split)

interpretation file_server: honest_server
  "\<lambda>w. unat (fp_file_size (snd w)) = length (fst w)" file_read
  "\<lambda>w. fp_file_size (snd w)" "\<lambda>w. fp_fuse_block_size (snd w)" fst sha256 for sha256
  by (simp add: honest_server_def file_source.block_source_axioms)

interpretation blockdev_server: honest_server
  "\<lambda>w. bp_ok (fst w) (snd w) \<and> last_request_ok (snd w)" block_read
  "\<lambda>w. bp_file_size (snd w)" "\<lambda>w. bp_fuse_block_size (snd w)" "\<lambda>w. bp_content (fst w) (snd w)" sha256 for sha256
  by (simp add: honest_server_def blockdev_source.block_source_axioms)

section \<open>Properties\<close>

text \<open>C4. The promise of the file system. Behind a provider that answers every request but may answer
  differently every time, and with a digest that separates the blocks it delivers, all the data the
  reader ever sees are slices of one and the same file: no two reads disagree on a byte, whatever the
  order, size and overlap of the requests. No request reads outside a buffer.\<close>

theorem sideload_single_image:
  assumes "untrusted_source sha256 read (unat bs) S"
    and "4096 \<le> unat bs" "unat bs \<le> 4194304" "(unat fs - 1) div unat bs + 1 \<le> 262144"
    and "length b1 = unat bs" "length b2 = unat bs"
    and "list_all (request_ok fs bs) events"
  shows "\<exists>F. fst (run_fuse_sideload abi sha256 read fs bs u g (Some b1) (Some b2) True True events w) \<noteq> Crashed \<and>
    list_all (shows_file True abi F)
      (snd (run_fuse_sideload abi sha256 read fs bs u g (Some b1) (Some b2) True True events w))"
proof -
  obtain fd where fd: "fuse_setup fs bs u g (Some b1) (Some b2) = Some fd" "fd_ok fd" "file_size fd = fs" "block_size fd = bs"
    "curr_block fd = - 1" "hashes fd = replicate (unat (file_blocks fd)) (replicate 32 0)"
    using fuse_setup_ok [OF assms(2-6)] by blast
  then show ?thesis
    using untrusted_source.serve_single_file [OF assms(1) fd(2,5,6), of events abi w] assms(7)
    by (simp add: run_fuse_sideload_def)
qed

definition sample_abi :: fuse_abi where
  "sample_abi = \<lparr>FUSE_ROOT_ID = 1, FUSE_KERNEL_VERSION = 7, FUSE_KERNEL_MINOR_VERSION = 31,
     sizeof_init_out = 64, FUSE_COMPAT_22_INIT_OUT_SIZE = Some 24\<rparr>"

definition read_req :: "u64 \<Rightarrow> u32 \<Rightarrow> fuse_request" where
  "read_req offset sz = \<lparr>req_unique = 7, req_nodeid = 2, req_op = READ offset sz\<rparr>"

theorem sideload_single_image_witness:
  "\<exists>F. list_all (shows_file True sample_abi F)
     (snd (run_fuse_sideload sample_abi (\<lambda>d. 1 # d)
        (Adb_ReadBlockAlignedData (\<lambda>h s. (True, h)) (answering (\<lambda>h. ([h], h + 1))) (\<lambda>m. True))
        10000 4096 0 0 (Some (replicate 4096 0)) (Some (replicate 4096 0)) True True
        [Request (read_req 0 4096), Request (read_req 4090 100), Request (read_req 0 16)]
        (FuseAdbDataProvider 5 10000 4096 False)))"
proof -
  have "untrusted_source (\<lambda>d. 1 # d)
      (Adb_ReadBlockAlignedData (\<lambda>h s. (True, h)) (answering (\<lambda>h :: u8. ([h], h + 1))) (\<lambda>m. True)) (unat (4096 :: u32)) UNIV"
    by (rule adb_source.untrusted_source_axioms)
  from sideload_single_image [OF this, of 10000 "replicate 4096 0" "replicate 4096 0"
      "[Request (read_req 0 4096), Request (read_req 4090 100), Request (read_req 0 16)]" sample_abi 0 0
      "FuseAdbDataProvider 5 10000 4096 False"]
  show ?thesis by (auto simp: request_ok_def read_req_def)
qed

text \<open>C5. Behind a provider that keeps the block contract of the file and block providers, every read of
  the package file is answered, in order, with exactly the bytes of the file at that offset, zeros behind
  its end, whatever the sizes and the order of the reads.\<close>

theorem sideload_serves_content:
  assumes "block_source ok read fsize bsize content" "ok p" "fsize p = fs" "bsize p = bs"
    and "4096 \<le> unat bs" "unat bs \<le> 4194304" "(unat fs - 1) div unat bs + 1 \<le> 262144"
    and "length b1 = unat bs" "length b2 = unat bs"
    and "list_all (request_ok fs bs \<circ> Request) reqs"
    and "list_all (\<lambda>req. req_nodeid req = PACKAGE_FILE_ID abi \<and> (\<exists>offset sz. req_op req = READ offset sz)) reqs"
  shows "run_fuse_sideload abi sha256 read fs bs u g (Some b1) (Some b2) True True (map Request reqs) p =
    (Waiting, map (\<lambda>req. (req, Data (read_bytes (content p @ replicate (2 * unat bs) 0) (req_op req)))) reqs)"
proof -
  have "honest_server ok read fsize bsize content" using assms(1) by (simp add: honest_server_def)
  moreover obtain fd where fd: "fuse_setup fs bs u g (Some b1) (Some b2) = Some fd" "fd_ok fd" "file_size fd = fs" "block_size fd = bs"
    "curr_block fd = - 1" "hashes fd = replicate (unat (file_blocks fd)) (replicate 32 0)"
    using fuse_setup_ok [OF assms(5-9)] by blast
  ultimately show ?thesis
    using honest_server.serve_content [of ok read fsize bsize content fd p reqs abi sha256] assms(2-4,10,11)
    by (simp add: run_fuse_sideload_def)
qed

theorem sideload_serves_content_witness:
  "run_fuse_sideload sample_abi (\<lambda>d. []) file_read 5 4096 0 0 (Some (replicate 4096 9)) (Some (replicate 4096 9)) True True
     (map Request [read_req 1 3, read_req 3 4]) ([10, 11, 12, 13, 14], FuseFileDataProvider (Some 5) True 4096) =
   (Waiting, [(read_req 1 3, Data [11, 12, 13]), (read_req 3 4, Data [13, 14, 0, 0])])"
proof -
  have r: "replicate 2 (0 :: u8) = [0, 0]" by (simp add: numeral_2_eq_2)
  show ?thesis
    using sideload_serves_content [OF file_source.block_source_axioms,
      of "([10, 11, 12, 13, 14], FuseFileDataProvider (Some 5) True 4096)" 5 4096 "replicate 4096 9" "replicate 4096 9"
        "[read_req 1 3, read_req 3 4]" sample_abi "\<lambda>d. []" 0 0]
    by (simp add: FuseFileDataProvider_def request_ok_def read_req_def sample_abi_def PACKAGE_FILE_ID_def r)
qed

definition failing_provider :: "bool provider" where
  "failing_provider w n b = (if b = 0 then (True, [1, 2, 3, 4], w) else (False, [], w))"

definition small_fd :: fuse_data where
  "small_fd = \<lparr>file_size = 6, block_size = 4, file_blocks = 2, uid = 0, gid = 0, curr_block = - 1,
     block_data = [0, 0, 0, 0], extra_block = [0, 0, 0, 0], hashes = [replicate 32 0, replicate 32 0]\<rparr>"



end
