(* ===== verification/Asn1_Decoder.thy ===== *)
theory Asn1_Decoder
  imports Recovery_Prelude
begin

text \<open>
  The DER reader of the package verifier, \<open>otautil/asn1_decoder.cpp\<close>. A context is a position in the
  buffer and the number of bytes it may read from there. The first section holds the methods of the
  class; a result \<open>None\<close> is a read outside the buffer. The second relates a context to the bytes it has in
  front of it and shows that no method reads anything else; the third shows what the methods do on
  well-formed DER elements.
\<close>

section \<open>The class\<close>

record asn1_context =
  ctx_p :: nat
  ctx_length :: size_t
  ctx_app_type :: int

definition asn1_context_of :: "nat \<Rightarrow> size_t \<Rightarrow> asn1_context" where
  "asn1_context_of p n = \<lparr>ctx_p = p, ctx_length = n, ctx_app_type = 0\<rparr>"

definition kMaskConstructed :: int where "kMaskConstructed = 224"
definition kMaskTag :: int where "kMaskTag = 127"
definition kMaskAppType :: int where "kMaskAppType = 31"
definition kTagOctetString :: int where "kTagOctetString = 4"
definition kTagOid :: int where "kTagOid = 6"
definition kTagSequence :: int where "kTagSequence = 48"
definition kTagSet :: int where "kTagSet = 49"
definition kTagConstructed :: int where "kTagConstructed = 160"

lemmas asn1_consts = kMaskConstructed_def kMaskTag_def kMaskAppType_def kTagOctetString_def kTagOid_def
  kTagSequence_def kTagSet_def kTagConstructed_def

definition peek_byte :: "bytes \<Rightarrow> asn1_context \<Rightarrow> int option" where
  "peek_byte buf c =
     (if ctx_length c = 0 then Some (- 1)
      else if ctx_p c < length buf then Some (uint (buf ! ctx_p c)) else None)"

definition get_byte :: "bytes \<Rightarrow> asn1_context \<Rightarrow> (int \<times> asn1_context) option" where
  "get_byte buf c =
     (if ctx_length c = 0 then Some (- 1, c)
      else if ctx_p c < length buf
      then Some (uint (buf ! ctx_p c), c\<lparr>ctx_p := ctx_p c + 1, ctx_length := ctx_length c - 1\<rparr>)
      else None)"

definition skip_bytes :: "asn1_context \<Rightarrow> size_t \<Rightarrow> bool \<times> asn1_context" where
  "skip_bytes c num_skip =
     (if ctx_length c < num_skip then (False, c)
      else (True, c\<lparr>ctx_p := ctx_p c + unat num_skip, ctx_length := ctx_length c - num_skip\<rparr>))"

text \<open>The loop of \<open>decode_length\<close> over the length octets, and the function: \<open>Some (None, c)\<close> is \<open>false\<close>.\<close>

fun length_octets :: "bytes \<Rightarrow> asn1_context \<Rightarrow> nat \<Rightarrow> size_t \<Rightarrow> (size_t option \<times> asn1_context) option" where
  "length_octets buf c 0 len = Some (Some len, c)"
| "length_octets buf c (Suc k) len =
     (case get_byte buf c of None \<Rightarrow> None
      | Some (byte, c') \<Rightarrow>
          if byte = - 1 then Some (None, c')
          else length_octets buf c' k (push_bit 8 len + of_int byte))"

definition decode_length :: "bytes \<Rightarrow> asn1_context \<Rightarrow> (size_t option \<times> asn1_context) option" where
  "decode_length buf c =
     (case get_byte buf c of None \<Rightarrow> None
      | Some (num_octets, c') \<Rightarrow>
          if num_octets = - 1 then Some (None, c')
          else if num_octets AND 128 = 0 then Some (Some (of_int num_octets), c')
          else
            let num_octets = num_octets AND kMaskTag in
            if num_octets \<ge> 8 then Some (None, c')
            else length_octets buf c' (nat num_octets) 0)"

text \<open>A returned context is \<open>Some\<close>, \<open>nullptr\<close> is \<open>None\<close>, next to the advanced receiver.\<close>

definition sub_context :: "bytes \<Rightarrow> asn1_context \<Rightarrow> int \<Rightarrow> (asn1_context option \<times> asn1_context) option" where
  "sub_context buf c app =
     (case decode_length buf c of None \<Rightarrow> None
      | Some (None, c') \<Rightarrow> Some (None, c')
      | Some (Some len, c') \<Rightarrow>
          if len > ctx_length c' then Some (None, c')
          else Some (Some ((asn1_context_of (ctx_p c') len)\<lparr>ctx_app_type := app\<rparr>), c'))"

definition asn1_constructed_get :: "bytes \<Rightarrow> asn1_context \<Rightarrow> (asn1_context option \<times> asn1_context) option" where
  "asn1_constructed_get buf c =
     (case get_byte buf c of None \<Rightarrow> None
      | Some (type, c') \<Rightarrow>
          if type = - 1 \<or> type AND kMaskConstructed \<noteq> kTagConstructed then Some (None, c')
          else sub_context buf c' (type AND kMaskAppType))"

definition asn1_sequence_get :: "bytes \<Rightarrow> asn1_context \<Rightarrow> (asn1_context option \<times> asn1_context) option" where
  "asn1_sequence_get buf c =
     (case get_byte buf c of None \<Rightarrow> None
      | Some (type, c') \<Rightarrow>
          if type AND kMaskTag \<noteq> kTagSequence then Some (None, c') else sub_context buf c' 0)"

definition asn1_set_get :: "bytes \<Rightarrow> asn1_context \<Rightarrow> (asn1_context option \<times> asn1_context) option" where
  "asn1_set_get buf c =
     (case get_byte buf c of None \<Rightarrow> None
      | Some (type, c') \<Rightarrow>
          if type AND kMaskTag \<noteq> kTagSet then Some (None, c') else sub_context buf c' 0)"

definition skip_element :: "bytes \<Rightarrow> asn1_context \<Rightarrow> (bool \<times> asn1_context) option" where
  "skip_element buf c =
     (case decode_length buf c of None \<Rightarrow> None
      | Some (None, c') \<Rightarrow> Some (False, c')
      | Some (Some len, c') \<Rightarrow> Some (skip_bytes c' len))"

definition asn1_sequence_next :: "bytes \<Rightarrow> asn1_context \<Rightarrow> (bool \<times> asn1_context) option" where
  "asn1_sequence_next buf c =
     (case get_byte buf c of None \<Rightarrow> None
      | Some (byte, c') \<Rightarrow> if byte = - 1 then Some (False, c') else skip_element buf c')"

text \<open>
  \<open>asn1_constructed_skip_all\<close> loops for as long as the next byte is a constructed context tag. Every pass
  consumes that byte, so the number of bytes left decreases.
\<close>

lemma get_byte_le: "get_byte buf c = Some (b, c') \<Longrightarrow> ctx_length c' \<le> ctx_length c"
  by (auto simp: get_byte_def word_le_nat_alt unat_minus_one split: if_splits)

lemma length_octets_le: "length_octets buf c k len = Some (r, c') \<Longrightarrow> ctx_length c' \<le> ctx_length c"
proof (induction k arbitrary: c len)
  case (Suc k)
  then show ?case by (fastforce split: option.splits if_splits dest: get_byte_le)
qed simp

lemma decode_length_le: "decode_length buf c = Some (r, c') \<Longrightarrow> ctx_length c' \<le> ctx_length c"
  by (auto simp: decode_length_def Let_def split: option.splits if_splits
      dest!: get_byte_le length_octets_le intro: order_trans)

lemma skip_bytes_le: "skip_bytes c n = (ok, c') \<Longrightarrow> ctx_length c' \<le> ctx_length c"
  by (auto simp: skip_bytes_def word_le_nat_alt unat_sub not_less split: if_splits)

lemma skip_one_less: "peek_byte buf c = Some b \<Longrightarrow> b \<noteq> - 1 \<Longrightarrow> ctx_length (snd (skip_bytes c 1)) < ctx_length c"
  by (auto simp: peek_byte_def skip_bytes_def word_less_nat_alt unat_minus_one unat_gt_0 split: if_splits)

lemma skip_element_le: "skip_element buf c = Some (ok, c') \<Longrightarrow> ctx_length c' \<le> ctx_length c"
  by (auto simp: skip_element_def split: option.splits dest!: decode_length_le skip_bytes_le intro: order_trans)

function asn1_constructed_skip_all :: "bytes \<Rightarrow> asn1_context \<Rightarrow> (bool \<times> asn1_context) option" where
  "asn1_constructed_skip_all buf c =
     (case peek_byte buf c of None \<Rightarrow> None
      | Some byte \<Rightarrow>
          if byte \<noteq> - 1 \<and> byte AND kMaskConstructed = kTagConstructed
          then case skip_element buf (snd (skip_bytes c 1)) of None \<Rightarrow> None
            | Some (False, c') \<Rightarrow> Some (False, c')
            | Some (True, c') \<Rightarrow> asn1_constructed_skip_all buf c'
          else Some (byte \<noteq> - 1, c))"
  by pat_completeness auto
termination
  by (relation "measure (\<lambda>(buf, c). unat (ctx_length c))")
     (auto simp: word_less_nat_alt word_le_nat_alt dest!: skip_element_le skip_one_less intro: le_less_trans)

declare asn1_constructed_skip_all.simps [simp del]

definition asn1_constructed_type :: "asn1_context \<Rightarrow> int" where
  "asn1_constructed_type c = ctx_app_type c"

text \<open>The identifier and string readers give the position and length of the bytes.\<close>

definition asn1_bytes_get :: "int \<Rightarrow> bytes \<Rightarrow> asn1_context \<Rightarrow> ((nat \<times> size_t) option \<times> asn1_context) option" where
  "asn1_bytes_get tag buf c =
     (case get_byte buf c of None \<Rightarrow> None
      | Some (byte, c') \<Rightarrow>
          if byte \<noteq> tag then Some (None, c')
          else case decode_length buf c' of None \<Rightarrow> None
            | Some (None, c'') \<Rightarrow> Some (None, c'')
            | Some (Some len, c'') \<Rightarrow>
                if len = 0 \<or> len > ctx_length c'' then Some (None, c'')
                else Some (Some (ctx_p c'', len), c''))"

definition asn1_oid_get :: "bytes \<Rightarrow> asn1_context \<Rightarrow> ((nat \<times> size_t) option \<times> asn1_context) option" where
  "asn1_oid_get = asn1_bytes_get kTagOid"

definition asn1_octet_string_get :: "bytes \<Rightarrow> asn1_context \<Rightarrow> ((nat \<times> size_t) option \<times> asn1_context) option" where
  "asn1_octet_string_get = asn1_bytes_get kTagOctetString"

section \<open>What a context has in front of it\<close>

definition ctx_ok :: "bytes \<Rightarrow> asn1_context \<Rightarrow> bool" where
  "ctx_ok buf c = (ctx_p c + unat (ctx_length c) \<le> length buf)"

definition rest :: "bytes \<Rightarrow> asn1_context \<Rightarrow> bytes" where
  "rest buf c = take (unat (ctx_length c)) (drop (ctx_p c) buf)"

lemma length_rest [simp]: "ctx_ok buf c \<Longrightarrow> length (rest buf c) = unat (ctx_length c)"
  by (simp add: rest_def ctx_ok_def)

lemma rest_Nil_iff: "ctx_ok buf c \<Longrightarrow> rest buf c = [] \<longleftrightarrow> ctx_length c = 0"
  using length_rest [of buf c] by (metis length_0_conv unat_eq_zero)

lemma get_byte_Nil: "ctx_ok buf c \<Longrightarrow> rest buf c = [] \<Longrightarrow> get_byte buf c = Some (- 1, c)"
  by (simp add: rest_Nil_iff get_byte_def)

lemma get_byte_Cons:
  assumes "ctx_ok buf c" "rest buf c = b # bs"
  obtains c' where "get_byte buf c = Some (uint b, c')" "ctx_ok buf c'" "rest buf c' = bs"
proof -
  have n: "ctx_length c \<noteq> 0" "unat (ctx_length c - 1) = unat (ctx_length c) - 1"
    using assms rest_Nil_iff [OF assms(1)] by (auto simp: unat_minus_one)
  have p: "ctx_p c < length buf" "0 < unat (ctx_length c)"
    using assms(1) n(1) unat_gt_0 [of "ctx_length c"] by (simp_all add: ctx_ok_def)
  have "buf ! ctx_p c = b"
    using assms(2) p by (simp add: rest_def take_Cons' drop_Suc flip: Cons_nth_drop_Suc split: if_splits)
  moreover have "bs = take (unat (ctx_length c) - 1) (drop (ctx_p c + 1) buf)"
    using assms(2) p by (simp add: rest_def take_Cons' flip: Cons_nth_drop_Suc split: if_splits)
  ultimately show thesis
    using that assms(1) n p by (simp add: get_byte_def ctx_ok_def rest_def)
qed

lemma uint_byte_neq [simp]: "uint (b :: u8) \<noteq> - 1"
  using unsigned_greater_eq [of b, where ?'a = int] by linarith

lemma peek_byte_rest:
  assumes "ctx_ok buf c"
  shows "peek_byte buf c = Some (case rest buf c of [] \<Rightarrow> - 1 | b # _ \<Rightarrow> uint b)"
proof (cases "rest buf c")
  case Nil
  then have "ctx_length c = 0" using assms rest_Nil_iff by blast
  then show ?thesis using Nil by (simp add: peek_byte_def)
next
  case (Cons b bs)
  from get_byte_Cons [OF assms Cons] obtain c' where "get_byte buf c = Some (uint b, c')" .
  then have "peek_byte buf c = Some (uint b)"
    using uint_byte_neq [of b] by (auto simp: get_byte_def peek_byte_def split: if_splits)
  with Cons show ?thesis by simp
qed

lemma skip_bytes_rest:
  assumes "ctx_ok buf c"
  shows "if unat n \<le> length (rest buf c)
    then \<exists>c'. skip_bytes c n = (True, c') \<and> ctx_ok buf c' \<and> rest buf c' = drop (unat n) (rest buf c)
    else skip_bytes c n = (False, c)"
  using assms
  by (auto simp: skip_bytes_def ctx_ok_def rest_def word_less_nat_alt unat_sub word_le_nat_alt not_less drop_take add.commute)

section \<open>The grammar the methods accept\<close>

text \<open>
  The same steps on the list of bytes in front of the context: a length, an element (tag, content and what
  follows), and the elements with a constructed context tag that \<open>asn1_constructed_skip_all\<close> passes over.
\<close>

definition be_val :: "nat \<Rightarrow> bytes \<Rightarrow> nat" where
  "be_val v ds = foldl (\<lambda>v b. v * 256 + unat b) v ds"

definition der_length :: "bytes \<Rightarrow> (nat \<times> bytes) option" where
  "der_length bs =
     (case bs of [] \<Rightarrow> None
      | b # r \<Rightarrow>
          if unat b < 128 then Some (unat b, r)
          else let k = unat b - 128 in
            if k \<ge> 8 \<or> length r < k then None else Some (be_val 0 (take k r), drop k r))"

definition tlv :: "bytes \<Rightarrow> (u8 \<times> bytes \<times> bytes) option" where
  "tlv bs =
     (case bs of [] \<Rightarrow> None
      | t # r \<Rightarrow> (case der_length r of None \<Rightarrow> None
          | Some (n, r') \<Rightarrow> if n \<le> length r' then Some (t, take n r', drop n r') else None))"

lemma be_val_Cons [simp]: "be_val v (b # ds) = be_val (v * 256 + unat b) ds"
  by (simp add: be_val_def)

lemma be_val_Nil [simp]: "be_val v [] = v"
  by (simp add: be_val_def)

lemma be_val_less: "be_val v ds < (v + 1) * 256 ^ length ds"
proof (induction ds arbitrary: v)
  case (Cons b ds)
  have "be_val (v * 256 + unat b) ds < (v * 256 + unat b + 1) * 256 ^ length ds" by (rule Cons.IH)
  also have "\<dots> \<le> ((v + 1) * 256) * 256 ^ length ds"
    using unat_less_8 [of b] by (intro mult_le_mono1) simp
  finally show ?case by (simp add: algebra_simps)
qed simp

lemma der_length_bounds:
  assumes "der_length bs = Some (n, r)"
  shows "n < 2 ^ 64" "length r < length bs"
proof -
  obtain b bs' where bs: "bs = b # bs'" using assms by (cases bs) (auto simp: der_length_def)
  have "be_val 0 (take (unat b - 128) bs') < 256 ^ 7" if "unat b - 128 < 8"
  proof -
    have "be_val 0 (take (unat b - 128) bs') < 256 ^ length (take (unat b - 128) bs')"
      using be_val_less [of 0 "take (unat b - 128) bs'"] by simp
    also have "\<dots> \<le> 256 ^ 7" using that by (intro power_increasing) simp_all
    finally show ?thesis .
  qed
  then show "n < 2 ^ 64" "length r < length bs"
    using assms unat_less_8 [of b] by (auto simp: bs der_length_def Let_def split: if_splits)
qed

lemma tlv_shorter: "tlv bs = Some (t, x, r) \<Longrightarrow> length r < length bs \<and> length x < length bs"
  by (auto simp: tlv_def split: list.splits option.splits if_splits dest!: der_length_bounds(2))

function skip_constructed :: "bytes \<Rightarrow> bytes option" where
  "skip_constructed bs =
     (case bs of [] \<Rightarrow> None
      | t # _ \<Rightarrow>
          if unat t div 32 = 5
          then (case tlv bs of None \<Rightarrow> None | Some (_, _, r) \<Rightarrow> skip_constructed r)
          else Some bs)"
  by pat_completeness auto
termination
  by (relation "measure length") (auto dest: tlv_shorter)

declare skip_constructed.simps [simp del]

definition content_if :: "(u8 \<Rightarrow> bool) \<Rightarrow> bytes \<Rightarrow> bytes option" where
  "content_if P bs = (case tlv bs of None \<Rightarrow> None | Some (t, x, _) \<Rightarrow> if P t then Some x else None)"

definition after_element :: "bytes \<Rightarrow> bytes option" where
  "after_element bs = (case tlv bs of None \<Rightarrow> None | Some (_, _, r) \<Rightarrow> Some r)"

abbreviation seq_content :: "bytes \<Rightarrow> bytes option" where
  "seq_content \<equiv> content_if (\<lambda>t. unat t mod 128 = 48)"

abbreviation set_content :: "bytes \<Rightarrow> bytes option" where
  "set_content \<equiv> content_if (\<lambda>t. unat t mod 128 = 49)"

abbreviation app_content :: "bytes \<Rightarrow> bytes option" where
  "app_content \<equiv> content_if (\<lambda>t. unat t div 32 = 5)"

definition octets_content :: "bytes \<Rightarrow> bytes option" where
  "octets_content bs = (case content_if (\<lambda>t. t = 4) bs of Some (b # x) \<Rightarrow> Some (b # x) | _ \<Rightarrow> None)"

section \<open>The methods follow the grammar\<close>

lemma byte_and_127: "uint (b :: u8) AND 127 = int (unat b mod 128)"
proof -
  have "uint b AND 127 = take_bit 7 (uint b)" by (simp add: take_bit_eq_mask mask_eq_exp_minus_1)
  then show ?thesis by (simp add: take_bit_eq_mod zmod_int)
qed

lemma byte_and_128: "uint (b :: u8) AND 128 = 0 \<longleftrightarrow> unat b < 128"
proof -
  have "uint b AND 2 ^ 7 = 0 \<longleftrightarrow> \<not> bit (uint b) 7" by (rule and_exp_eq_0_iff_not_bit)
  also have "\<dots> \<longleftrightarrow> even (int (unat b div 128))" by (simp add: bit_iff_odd zdiv_int)
  also have "\<dots> \<longleftrightarrow> unat b < 128"
  proof (cases "unat b < 128")
    case False
    then have "unat b div 128 = 1" using unat_less_8 [of b] by (intro div_nat_eqI) simp_all
    with False show ?thesis by simp
  qed simp
  finally show ?thesis by simp
qed

lemma byte_and_224: "uint (b :: u8) AND 224 = 160 \<longleftrightarrow> unat b div 32 = 5"
proof -
  have "uint b AND push_bit 5 (mask 3) = push_bit 5 (take_bit 3 (drop_bit 5 (uint b)))"
    by (rule bit_eqI) (auto simp: bit_simps)
  also have "\<dots> = int (unat b div 32 mod 8) * 32"
    by (simp add: push_bit_eq_mult take_bit_eq_mod drop_bit_eq_div zdiv_int zmod_int)
  also have "unat b div 32 mod 8 = unat b div 32" using unat_less_8 [of b] by simp
  finally show ?thesis by (simp add: push_bit_eq_mult mask_eq_exp_minus_1)
qed

lemma length_octets_rest:
  assumes "ctx_ok buf c"
  shows "if k \<le> length (rest buf c)
    then \<exists>c'. length_octets buf c k (of_nat v) = Some (Some (of_nat (be_val v (take k (rest buf c)))), c') \<and>
      ctx_ok buf c' \<and> rest buf c' = drop k (rest buf c)
    else \<exists>c'. length_octets buf c k (of_nat v) = Some (None, c') \<and> ctx_ok buf c'"
  using assms
proof (induction k arbitrary: c v)
  case (Suc k)
  show ?case
  proof (cases "rest buf c")
    case Nil
    then show ?thesis using Suc.prems by (simp add: get_byte_Nil)
  next
    case (Cons b bs)
    from get_byte_Cons [OF Suc.prems Cons] obtain c1 where
      c1: "get_byte buf c = Some (uint b, c1)" "ctx_ok buf c1" "rest buf c1 = bs" .
    have "push_bit 8 (of_nat v :: size_t) + of_int (uint b) = of_nat (v * 256 + unat b)"
      by (simp add: push_bit_eq_mult)
    then have "length_octets buf c (Suc k) (of_nat v) = length_octets buf c1 k (of_nat (v * 256 + unat b))"
      using c1(1) by (simp del: of_nat_add of_nat_mult)
    with Suc.IH [OF c1(2), of "v * 256 + unat b"] c1(3) Cons show ?thesis
      by (simp del: of_nat_add of_nat_mult split: if_splits)
  qed
qed auto

text \<open>Reading a length, and an element after its tag.\<close>

lemma decode_length_rest:
  assumes "ctx_ok buf c"
  shows "case der_length (rest buf c) of
      None \<Rightarrow> \<exists>c'. decode_length buf c = Some (None, c') \<and> ctx_ok buf c'
    | Some (n, r) \<Rightarrow> \<exists>c'. decode_length buf c = Some (Some (of_nat n), c') \<and> ctx_ok buf c' \<and> rest buf c' = r"
proof (cases "rest buf c")
  case Nil
  then show ?thesis using assms by (simp add: der_length_def decode_length_def get_byte_Nil)
next
  case (Cons b bs)
  from get_byte_Cons [OF assms Cons] obtain c1 where
    c1: "get_byte buf c = Some (uint b, c1)" "ctx_ok buf c1" "rest buf c1 = bs" .
  show ?thesis
  proof (cases "unat b < 128")
    case True
    then show ?thesis
      using c1 by (auto simp: der_length_def decode_length_def Cons byte_and_128)
  next
    case False
    define k where "k = unat b mod 128"
    have k: "unat b - 128 = k" using False unat_less_8 [of b] by (simp add: k_def mod_if)
    have model: "decode_length buf c = (if k \<ge> 8 then Some (None, c1) else length_octets buf c1 k (of_nat 0))"
      using c1(1) False by (simp add: decode_length_def byte_and_128 byte_and_127 kMaskTag_def k_def)
    have grammar: "der_length (rest buf c) =
        (if k \<ge> 8 \<or> length bs < k then None else Some (be_val 0 (take k bs), drop k bs))"
      using False by (simp add: der_length_def Cons k Let_def)
    show ?thesis
      using length_octets_rest [OF c1(2), of k 0] c1(2) unfolding c1(3) model grammar
      by (cases "k \<le> length bs") (auto simp del: of_nat_0)
  qed
qed

lemma sub_context_rest:
  assumes "ctx_ok buf c"
  shows "case der_length (rest buf c) of
      Some (n, r) \<Rightarrow>
        if n \<le> length r
        then \<exists>x c'. sub_context buf c app = Some (Some x, c') \<and> ctx_ok buf x \<and> rest buf x = take n r
        else \<exists>c'. sub_context buf c app = Some (None, c')
    | None \<Rightarrow> \<exists>c'. sub_context buf c app = Some (None, c')"
proof (cases "der_length (rest buf c)")
  case None
  then show ?thesis using decode_length_rest [OF assms] by (auto simp: sub_context_def)
next
  case (Some p)
  obtain n r where p: "p = (n, r)" by fastforce
  note bound = der_length_bounds(1) [of "rest buf c" n r, unfolded Some p, OF refl]
  from decode_length_rest [OF assms] Some p obtain c' where
    c': "decode_length buf c = Some (Some (of_nat n), c')" "ctx_ok buf c'" "rest buf c' = r" by auto
  have n: "unat (of_nat n :: size_t) = n" using bound by (simp add: unat_of_nat)
  have "ctx_length c' < of_nat n \<longleftrightarrow> \<not> n \<le> length r"
    using length_rest [OF c'(2)] c'(3) n by (simp add: word_less_nat_alt not_le)
  moreover have "ctx_ok buf ((asn1_context_of (ctx_p c') (of_nat n))\<lparr>ctx_app_type := app\<rparr>) \<and>
      rest buf ((asn1_context_of (ctx_p c') (of_nat n))\<lparr>ctx_app_type := app\<rparr>) = take n r" if "n \<le> length r"
    using that c'(2,3) n length_rest [OF c'(2)]
    by (auto simp: ctx_ok_def rest_def asn1_context_of_def min_absorb1)
  ultimately show ?thesis using Some p c'(1) by (auto simp: sub_context_def)
qed

lemma skip_element_rest:
  assumes "ctx_ok buf c"
  shows "case der_length (rest buf c) of
      Some (n, r) \<Rightarrow>
        if n \<le> length r
        then \<exists>c'. skip_element buf c = Some (True, c') \<and> ctx_ok buf c' \<and> rest buf c' = drop n r
        else \<exists>c'. skip_element buf c = Some (False, c')
    | None \<Rightarrow> \<exists>c'. skip_element buf c = Some (False, c')"
proof (cases "der_length (rest buf c)")
  case None
  then show ?thesis using decode_length_rest [OF assms] by (auto simp: skip_element_def)
next
  case (Some p)
  obtain n r where p: "p = (n, r)" by fastforce
  note bound = der_length_bounds(1) [of "rest buf c" n r, unfolded Some p, OF refl]
  from decode_length_rest [OF assms] Some p obtain c' where
    c': "decode_length buf c = Some (Some (of_nat n), c')" "ctx_ok buf c'" "rest buf c' = r" by auto
  have n: "unat (of_nat n :: size_t) = n" using bound by (simp add: unat_of_nat)
  show ?thesis
    using skip_bytes_rest [OF c'(2), of "of_nat n", unfolded n c'(3)] Some p c'(1)
    by (auto simp: skip_element_def split: if_splits)
qed

text \<open>
  \<open>reads buf c bs\<close>: the context has exactly \<open>bs\<close> in front of it. A method that returns a context \<open>yields\<close>
  the bytes of the grammar, one that advances its receiver \<open>moves\<close> it to them.
\<close>

definition reads :: "bytes \<Rightarrow> asn1_context \<Rightarrow> bytes \<Rightarrow> bool" where
  "reads buf c bs \<longleftrightarrow> ctx_ok buf c \<and> rest buf c = bs"

definition yields :: "bytes \<Rightarrow> (asn1_context option \<times> asn1_context) option \<Rightarrow> bytes option \<Rightarrow> bool" where
  "yields buf res spec \<longleftrightarrow>
     (case spec of None \<Rightarrow> \<exists>c'. res = Some (None, c')
      | Some x \<Rightarrow> \<exists>x' c'. res = Some (Some x', c') \<and> reads buf x' x)"

definition moves :: "bytes \<Rightarrow> (bool \<times> asn1_context) option \<Rightarrow> bytes option \<Rightarrow> bool" where
  "moves buf res spec \<longleftrightarrow>
     (case spec of None \<Rightarrow> \<exists>c'. res = Some (False, c')
      | Some r \<Rightarrow> \<exists>c'. res = Some (True, c') \<and> reads buf c' r)"

lemma get_byte_reads:
  assumes "reads buf c bs"
  obtains (Empty) "bs = []" "get_byte buf c = Some (- 1, c)"
  | (Byte) b r c' where "bs = b # r" "get_byte buf c = Some (uint b, c')" "reads buf c' r"
  using assms by (cases bs) (auto simp: reads_def get_byte_Nil elim: get_byte_Cons)

lemma sub_context_yields:
  assumes "reads buf c r"
  shows "yields buf (sub_context buf c app)
    (case der_length r of None \<Rightarrow> None | Some (n, r') \<Rightarrow> if n \<le> length r' then Some (take n r') else None)"
  using sub_context_rest [of buf c app] assms
  by (auto simp: reads_def yields_def split: option.splits prod.splits if_splits)

lemma skip_element_moves:
  assumes "reads buf c r"
  shows "moves buf (skip_element buf c)
    (case der_length r of None \<Rightarrow> None | Some (n, r') \<Rightarrow> if n \<le> length r' then Some (drop n r') else None)"
  using skip_element_rest [of buf c] assms
  by (auto simp: reads_def moves_def split: option.splits prod.splits if_splits)

lemma content_if_Cons:
  "content_if P (b # r) =
     (if P b then case der_length r of None \<Rightarrow> None | Some (n, r') \<Rightarrow> if n \<le> length r' then Some (take n r') else None
      else None)"
  by (simp add: content_if_def tlv_def split: option.splits prod.splits)

lemma content_if_Nil [simp]: "content_if P [] = None"
  by (simp add: content_if_def tlv_def)

lemma after_element_Cons:
  "after_element (b # r) =
     (case der_length r of None \<Rightarrow> None | Some (n, r') \<Rightarrow> if n \<le> length r' then Some (drop n r') else None)"
  by (simp add: after_element_def tlv_def split: option.splits prod.splits)

lemma after_element_Nil [simp]: "after_element [] = None"
  by (simp add: after_element_def tlv_def)

lemma sequence_get_yields: "reads buf c bs \<Longrightarrow> yields buf (asn1_sequence_get buf c) (seq_content bs)"
  by (erule get_byte_reads)
     (auto simp: asn1_sequence_get_def asn1_consts content_if_Cons byte_and_127 sub_context_yields, auto simp: yields_def)

lemma set_get_yields: "reads buf c bs \<Longrightarrow> yields buf (asn1_set_get buf c) (set_content bs)"
  by (erule get_byte_reads)
     (auto simp: asn1_set_get_def asn1_consts content_if_Cons byte_and_127 sub_context_yields, auto simp: yields_def)

lemma constructed_get_yields: "reads buf c bs \<Longrightarrow> yields buf (asn1_constructed_get buf c) (app_content bs)"
  by (erule get_byte_reads)
     (auto simp: asn1_constructed_get_def asn1_consts content_if_Cons byte_and_224 sub_context_yields, auto simp: yields_def)

lemma sequence_next_moves: "reads buf c bs \<Longrightarrow> moves buf (asn1_sequence_next buf c) (after_element bs)"
  by (erule get_byte_reads)
     (auto simp: asn1_sequence_next_def after_element_Cons skip_element_moves, auto simp: moves_def)

lemma skip_one_reads:
  assumes "reads buf c (t # r)"
  shows "reads buf (snd (skip_bytes c 1)) r"
proof -
  have "unat (1 :: size_t) \<le> length (rest buf c)" using assms by (simp add: reads_def)
  then show ?thesis using skip_bytes_rest [of buf c 1] assms by (auto simp: reads_def simp del: length_rest)
qed

lemma skip_constructed_Nil [simp]: "skip_constructed [] = None"
  by (simp add: skip_constructed.simps)

lemma skip_constructed_Cons:
  "skip_constructed (t # r) =
     (if unat t div 32 = 5 then (case after_element (t # r) of None \<Rightarrow> None | Some r' \<Rightarrow> skip_constructed r')
      else Some (t # r))"
  by (subst skip_constructed.simps) (simp add: after_element_def split: option.split)

lemma constructed_skip_all_moves:
  "reads buf c bs \<Longrightarrow> moves buf (asn1_constructed_skip_all buf c) (skip_constructed bs)"
proof (induction bs arbitrary: c rule: skip_constructed.induct)
  case (1 bs)
  have peek: "peek_byte buf c = Some (case bs of [] \<Rightarrow> - 1 | b # _ \<Rightarrow> uint b)"
    using "1.prems" peek_byte_rest [of buf c] by (simp add: reads_def)
  show ?case
  proof (cases bs)
    case Nil
    then show ?thesis
      using peek by (simp add: asn1_constructed_skip_all.simps [of buf c] moves_def)
  next
    case (Cons t r)
    have next_c: "moves buf (skip_element buf (snd (skip_bytes c 1))) (after_element bs)"
      using skip_element_moves [OF skip_one_reads [of buf c t r]] "1.prems" Cons by (simp add: after_element_Cons)
    show ?thesis
    proof (cases "unat t div 32 = 5")
      case False
      then show ?thesis
        using peek "1.prems" Cons
        by (simp add: asn1_constructed_skip_all.simps [of buf c] skip_constructed_Cons moves_def
            asn1_consts byte_and_224)
    next
      case True
      then have unfold:
        "asn1_constructed_skip_all buf c = (case skip_element buf (snd (skip_bytes c 1)) of None \<Rightarrow> None
            | Some (False, c') \<Rightarrow> Some (False, c') | Some (True, c') \<Rightarrow> asn1_constructed_skip_all buf c')"
        using peek Cons by (simp add: asn1_constructed_skip_all.simps [of buf c] asn1_consts byte_and_224)
      show ?thesis
      proof (cases "tlv bs")
        case None
        then show ?thesis using next_c True Cons
          by (auto simp: unfold skip_constructed_Cons after_element_def moves_def)
      next
        case (Some e)
        obtain t' x r' where e: "e = (t', x, r')" using prod_cases3 by blast
        from next_c Some e obtain c' where
          c': "skip_element buf (snd (skip_bytes c 1)) = Some (True, c')" "reads buf c' r'"
          by (auto simp: after_element_def moves_def)
        have "moves buf (asn1_constructed_skip_all buf c') (skip_constructed r')"
          using "1.IH" [OF Cons True Some e [symmetric] refl] c'(2) by simp
        then show ?thesis using c'(1) True Cons Some e
          by (simp add: unfold skip_constructed_Cons after_element_def)
      qed
    qed
  qed
qed

text \<open>The string reader returns a part of the buffer, never an empty one.\<close>

lemma octet_string_get_reads:
  assumes "reads buf c bs"
  shows "case octets_content bs of
      None \<Rightarrow> \<exists>c'. asn1_octet_string_get buf c = Some (None, c')
    | Some x \<Rightarrow> \<exists>p n c'. asn1_octet_string_get buf c = Some (Some (p, n), c') \<and>
        p + unat n \<le> length buf \<and> take (unat n) (drop p buf) = x"
  using assms
proof (cases rule: get_byte_reads)
  case Empty
  then show ?thesis by (simp add: octets_content_def asn1_octet_string_get_def asn1_bytes_get_def asn1_consts)
next
  case (Byte b r c1)
  have tag: "uint b = 4 \<longleftrightarrow> b = 4" by (simp add: word_uint_eq_iff)
  show ?thesis
  proof (cases "b = 4")
    case False
    then show ?thesis using Byte tag
      by (simp add: octets_content_def content_if_Cons asn1_octet_string_get_def asn1_bytes_get_def asn1_consts)
  next
    case True
    then have model: "asn1_octet_string_get buf c = (case decode_length buf c1 of None \<Rightarrow> None
        | Some (None, c'') \<Rightarrow> Some (None, c'')
        | Some (Some len, c'') \<Rightarrow>
            if len = 0 \<or> len > ctx_length c'' then Some (None, c'') else Some (Some (ctx_p c'', len), c''))"
      using Byte tag by (simp add: asn1_octet_string_get_def asn1_bytes_get_def asn1_consts)
    show ?thesis
    proof (cases "der_length r")
      case None
      then show ?thesis using decode_length_rest [of buf c1] Byte True
        by (auto simp: model octets_content_def content_if_Cons reads_def)
    next
      case (Some e)
      obtain n r' where e: "e = (n, r')" by fastforce
      from decode_length_rest [of buf c1] Byte Some e obtain c' where
        c': "decode_length buf c1 = Some (Some (of_nat n), c')" "ctx_ok buf c'" "rest buf c' = r'"
        by (auto simp: reads_def)
      have n: "unat (of_nat n :: size_t) = n"
        using der_length_bounds(1) [of r n r'] Some e by (simp add: unat_of_nat)
      have conds: "(of_nat n :: size_t) = 0 \<longleftrightarrow> n = 0" "ctx_length c' < of_nat n \<longleftrightarrow> \<not> n \<le> length r'"
        using length_rest [OF c'(2)] c'(3) n by (auto simp: word_less_nat_alt word_unat_eq_iff)
      have slice: "ctx_p c' + n \<le> length buf \<and> take n (drop (ctx_p c') buf) = take n r'" if "n \<le> length r'"
        using that c'(2,3) length_rest [OF c'(2)] by (auto simp: ctx_ok_def rest_def min_absorb1)
      have spec: "octets_content bs = (if n = 0 \<or> \<not> n \<le> length r' then None else Some (take n r'))"
        using Byte(1) True Some e
        by (cases r') (auto simp: octets_content_def content_if_Cons take_Cons' split: list.splits)
      show ?thesis
        unfolding spec model c'(1) using slice n by (auto simp: conds)
    qed
  qed
qed

section \<open>Encoding\<close>

definition der_len_octets :: "nat \<Rightarrow> bytes" where
  "der_len_octets n =
     (if n < 128 then [of_nat n]
      else if n < 256 then [129, of_nat n]
      else [130, of_nat (n div 256), of_nat (n mod 256)])"

definition der :: "u8 \<Rightarrow> bytes \<Rightarrow> bytes" where
  "der t x = t # der_len_octets (length x) @ x"

lemma der_length_octets: "n < 65536 \<Longrightarrow> der_length (der_len_octets n @ r) = Some (n, r)"
  by (auto simp: der_len_octets_def der_length_def unat_of_nat_small Let_def)

lemma tlv_der [simp]: "length x < 65536 \<Longrightarrow> tlv (der t x @ r) = Some (t, x, r)"
  by (simp add: tlv_def der_def der_length_octets)

lemma after_element_der [simp]: "length x < 65536 \<Longrightarrow> after_element (der t x @ r) = Some r"
  by (simp add: after_element_def)

lemma content_if_der [simp]: "length x < 65536 \<Longrightarrow> content_if P (der t x @ r) = (if P t then Some x else None)"
  by (simp add: content_if_def)

lemma der_not_Nil [simp]: "der t x \<noteq> []"
  by (simp add: der_def)

lemma skip_constructed_der:
  assumes "\<forall>(t, x)\<in>set es. unat t div 32 = 5 \<and> length x < 65536" "unat t div 32 \<noteq> 5"
  shows "skip_constructed (concat (map (\<lambda>(t, x). der t x) es) @ der t y @ r) = Some (der t y @ r)"
  using assms(1)
proof (induction es)
  case Nil
  then show ?case using assms(2) by (simp add: der_def skip_constructed_Cons)
next
  case (Cons e es)
  obtain t' x where e: "e = (t', x)" by fastforce
  let ?rest = "concat (map (\<lambda>(t, x). der t x) es) @ der t y @ r"
  have "after_element (der t' x @ ?rest) = Some ?rest" using Cons.prems e by simp
  moreover obtain bs where "der t' x @ ?rest = t' # bs" by (simp add: der_def)
  ultimately show ?case
    using Cons e by (simp add: skip_constructed_Cons)
qed

end
