(* ===== verification/Ota_Package.thy ===== *)
theory Ota_Package
  imports Fuse_Provider
begin

text \<open>
  The update package as the verifier sees it, \<open>otautil/package.cpp\<close> behind the \<open>VerifierInterface\<close> of
  \<open>otautil/include/otautil/verifier.h\<close>: a package in memory and one behind a file descriptor. The first
  section holds the operations; the second states what the verifier relies on, and shows that both packages
  provide it.
\<close>

section \<open>The interface and the two packages\<close>

text \<open>
  A \<open>HasherUpdateCallback\<close> is the update function of a digest bound to a context; calling it changes the
  context. A virtual function that returns \<open>false\<close> gives \<open>None\<close> for its buffer.
\<close>

type_synonym 'c hasher = "('c \<Rightarrow> bytes \<Rightarrow> 'c) \<times> 'c"

definition call_hasher :: "bytes \<Rightarrow> 'c hasher \<Rightarrow> 'c hasher" where
  "call_hasher d h = (fst h, fst h (snd h) d)"

record 'c verifier_interface =
  vi_GetPackageSize :: u64
  vi_ReadFullyAtOffset :: "u64 \<Rightarrow> u64 \<Rightarrow> bytes option"
  vi_UpdateHashAtOffset :: "'c hasher list \<Rightarrow> u64 \<Rightarrow> u64 \<Rightarrow> bool \<times> 'c hasher list"

record 'z memory_package =
  mp_addr :: bytes
  mp_package_size :: u64
  mp_path :: string
  mp_zip_handle :: "'z option"

record 'z file_package =
  flp_package_size :: u64
  flp_path :: string
  flp_zip_handle :: "'z option"

text \<open>\<open>MemMapping\<close> gives the constructor an address range, here its bytes; the other one takes the bytes.\<close>

definition MemoryPackage_map :: "string \<Rightarrow> bytes \<Rightarrow> 'z memory_package" where
  "MemoryPackage_map path mem =
     \<lparr>mp_addr = mem, mp_package_size = of_nat (length mem), mp_path = path, mp_zip_handle = None\<rparr>"

definition MemoryPackage_content :: "bytes \<Rightarrow> 'z memory_package checked" where
  "MemoryPackage_content content =
     (if content = [] then Abort
      else Ret \<lparr>mp_addr = content, mp_package_size = of_nat (length content), mp_path = [], mp_zip_handle = None\<rparr>)"

definition CreateMemoryPackage :: "(string \<Rightarrow> bytes option) \<Rightarrow> string \<Rightarrow> 'z memory_package option" where
  "CreateMemoryPackage map_file path =
     (case map_file path of None \<Rightarrow> None | Some mem \<Rightarrow> Some (MemoryPackage_map path mem))"

definition FilePackage_of :: "u64 \<Rightarrow> string \<Rightarrow> 'z file_package" where
  "FilePackage_of file_size path = \<lparr>flp_package_size = file_size, flp_path = path, flp_zip_handle = None\<rparr>"

definition CreateFilePackage :: "(string \<Rightarrow> bool) \<Rightarrow> (string \<Rightarrow> u64) \<Rightarrow> string \<Rightarrow> 'z file_package option" where
  "CreateFilePackage open_ok seek_end path =
     (if \<not> open_ok path then None
      else let file_size = seek_end path in
        if file_size = - 1 then None else Some (FilePackage_of file_size path))"

definition Memory_ReadFullyAtOffset :: "'z memory_package \<Rightarrow> u64 \<Rightarrow> u64 \<Rightarrow> bytes option" where
  "Memory_ReadFullyAtOffset p byte_count offset =
     (if byte_count > mp_package_size p \<or> offset > mp_package_size p - byte_count then None
      else Some (take (unat byte_count) (drop (unat offset) (mp_addr p))))"

definition Memory_UpdateHashAtOffset ::
  "'z memory_package \<Rightarrow> 'c hasher list \<Rightarrow> u64 \<Rightarrow> u64 \<Rightarrow> bool \<times> 'c hasher list" where
  "Memory_UpdateHashAtOffset p hashers start len =
     (if len > mp_package_size p \<or> start > mp_package_size p - len then (False, hashers)
      else (True, map (call_hasher (take (unat len) (drop (unat start) (mp_addr p)))) hashers))"

text \<open>The opener of libziparchive gives an error code and a handle; the handle is stored either way.\<close>

definition Memory_GetZipArchiveHandle ::
  "(bytes \<Rightarrow> string \<Rightarrow> int \<times> 'z option) \<Rightarrow> 'z memory_package \<Rightarrow> 'z option \<times> 'z memory_package" where
  "Memory_GetZipArchiveHandle open_archive p =
     (case mp_zip_handle p of Some h \<Rightarrow> (Some h, p)
      | None \<Rightarrow>
        (case open_archive (mp_addr p) (mp_path p) of (err, h) \<Rightarrow>
           (if err \<noteq> 0 then None else h, p\<lparr>mp_zip_handle := h\<rparr>)))"

definition File_ReadFullyAtOffset :: "device_read \<Rightarrow> 'z file_package \<Rightarrow> u64 \<Rightarrow> u64 \<Rightarrow> bytes option" where
  "File_ReadFullyAtOffset rd p byte_count offset =
     (if byte_count > flp_package_size p \<or> offset > flp_package_size p - byte_count then None
      else case rd byte_count offset of (ok, d) \<Rightarrow> if ok then Some d else None)"

text \<open>The loop of \<open>FilePackage::UpdateHashAtOffset\<close>, 16 MiB at a time.\<close>

definition MiB16 :: u64 where
  "MiB16 = 16777216"

lemma chunk_progress:
  assumes "so_far < (len :: u64)"
  shows "unat (so_far + min (len - so_far) MiB16) = unat so_far + min (unat len - unat so_far) 16777216"
    and "unat (min (len - so_far) MiB16) = min (unat len - unat so_far) 16777216"
proof -
  show m: "unat (min (len - so_far) MiB16) = min (unat len - unat so_far) 16777216"
    using assms by (simp add: min_def MiB16_def word_le_nat_alt unat_sub_less)
  then show "unat (so_far + min (len - so_far) MiB16) = unat so_far + min (unat len - unat so_far) 16777216"
    using assms unat_less_64 [of len] by (subst unat_add_nowrap) (auto simp: word_less_nat_alt)
qed

function file_hash_loop ::
  "device_read \<Rightarrow> 'z file_package \<Rightarrow> u64 \<Rightarrow> u64 \<Rightarrow> u64 \<Rightarrow> 'c hasher list \<Rightarrow> bool \<times> 'c hasher list" where
  "file_hash_loop rd p start len so_far hashers =
     (if so_far < len
      then let read_size = min (len - so_far) MiB16 in
        (case File_ReadFullyAtOffset rd p read_size (start + so_far) of
           None \<Rightarrow> (False, hashers)
         | Some buffer \<Rightarrow>
             file_hash_loop rd p start len (so_far + read_size) (map (call_hasher buffer) hashers))
      else (True, hashers))"
  by pat_completeness auto
termination
  by (relation "measure (\<lambda>(rd, p, start, len, so_far, hashers). unat len - unat so_far)")
     (auto simp: chunk_progress word_less_nat_alt)

declare file_hash_loop.simps [simp del]

definition File_UpdateHashAtOffset ::
  "device_read \<Rightarrow> 'z file_package \<Rightarrow> 'c hasher list \<Rightarrow> u64 \<Rightarrow> u64 \<Rightarrow> bool \<times> 'c hasher list" where
  "File_UpdateHashAtOffset rd p hashers start len =
     (if len > flp_package_size p \<or> start > flp_package_size p - len then (False, hashers)
      else file_hash_loop rd p start len 0 hashers)"

definition File_GetZipArchiveHandle ::
  "(string \<Rightarrow> int \<times> 'z option) \<Rightarrow> 'z file_package \<Rightarrow> 'z option \<times> 'z file_package" where
  "File_GetZipArchiveHandle open_archive_fd p =
     (case flp_zip_handle p of Some h \<Rightarrow> (Some h, p)
      | None \<Rightarrow>
        (case open_archive_fd (flp_path p) of (err, h) \<Rightarrow>
           (if err \<noteq> 0 then None else h, p\<lparr>flp_zip_handle := h\<rparr>)))"

definition memory_interface :: "'z memory_package \<Rightarrow> 'c verifier_interface" where
  "memory_interface p =
     \<lparr>vi_GetPackageSize = mp_package_size p, vi_ReadFullyAtOffset = Memory_ReadFullyAtOffset p,
      vi_UpdateHashAtOffset = Memory_UpdateHashAtOffset p\<rparr>"

definition file_interface :: "device_read \<Rightarrow> 'z file_package \<Rightarrow> 'c verifier_interface" where
  "file_interface rd p =
     \<lparr>vi_GetPackageSize = flp_package_size p, vi_ReadFullyAtOffset = File_ReadFullyAtOffset rd p,
      vi_UpdateHashAtOffset = File_UpdateHashAtOffset rd p\<rparr>"

section \<open>What the verifier relies on\<close>

text \<open>Feeding a sequence of pieces to a hasher.\<close>

definition feed :: "bytes list \<Rightarrow> 'c hasher \<Rightarrow> 'c hasher" where
  "feed ds h = (fst h, foldl (fst h) (snd h) ds)"

lemma feed_Nil [simp]: "feed [] = id"
  by (simp add: feed_def fun_eq_iff)

lemma feed_one: "call_hasher d = feed [d]"
  by (simp add: feed_def call_hasher_def fun_eq_iff)

lemma feed_append: "feed (xs @ ys) h = feed ys (feed xs h)"
  by (simp add: feed_def)

lemma feed_Cons: "feed (d # ds) h = feed ds (call_hasher d h)"
  by (simp add: feed_def call_hasher_def)

lemma bounds_check_64:
  "unat off + unat n \<le> unat (s :: u64) \<Longrightarrow> \<not> (n > s \<or> off > s - n)"
  by (auto simp: word_less_nat_alt unat_sub word_le_nat_alt)

locale package_source =
  fixes iface :: "'s \<Rightarrow> 'c verifier_interface" and ok :: "'s \<Rightarrow> bool" and content :: "'s \<Rightarrow> bytes"
  assumes size_ok: "ok p \<Longrightarrow> unat (vi_GetPackageSize (iface p)) = length (content p)"
    and read_ok: "ok p \<Longrightarrow> unat off + unat n \<le> length (content p) \<Longrightarrow>
      vi_ReadFullyAtOffset (iface p) n off = Some (take (unat n) (drop (unat off) (content p)))"
    and hash_ok: "ok p \<Longrightarrow> unat start + unat n \<le> length (content p) \<Longrightarrow>
      \<exists>ds. concat ds = take (unat n) (drop (unat start) (content p)) \<and>
        vi_UpdateHashAtOffset (iface p) hs start n = (True, map (feed ds) hs)"

definition memory_ok :: "'z memory_package \<Rightarrow> bool" where
  "memory_ok p \<longleftrightarrow> unat (mp_package_size p) = length (mp_addr p)"

interpretation memory_source: package_source memory_interface memory_ok mp_addr
proof
  fix p :: "'z memory_package" and off n :: u64 and hs :: "'c hasher list"
  assume ok: "memory_ok p"
  show "unat (vi_GetPackageSize (memory_interface p)) = length (mp_addr p)"
    using ok by (simp add: memory_interface_def memory_ok_def)
  assume "unat off + unat n \<le> length (mp_addr p)"
  with ok have "\<not> (n > mp_package_size p \<or> off > mp_package_size p - n)"
    by (intro bounds_check_64) (simp add: memory_ok_def)
  then show "vi_ReadFullyAtOffset (memory_interface p) n off = Some (take (unat n) (drop (unat off) (mp_addr p)))"
    and "\<exists>ds. concat ds = take (unat n) (drop (unat off) (mp_addr p)) \<and>
        vi_UpdateHashAtOffset (memory_interface p) hs off n = (True, map (feed ds) hs)"
    by (auto simp: memory_interface_def Memory_ReadFullyAtOffset_def Memory_UpdateHashAtOffset_def feed_one
        intro!: exI [of _ "[take (unat n) (drop (unat off) (mp_addr p))]"])
qed

context stable_device
begin

lemma file_read:
  assumes "unat (flp_package_size p) = length dev" "unat off + unat n \<le> length dev"
  shows "File_ReadFullyAtOffset rd p n off = Some (take (unat n) (drop (unat off) dev))"
  using assms bounds_check_64 [of off n "flp_package_size p"] rd_exact [of off n]
  by (simp add: File_ReadFullyAtOffset_def)

lemma file_hash_loop_feeds:
  assumes "unat (flp_package_size p) = length dev" "unat start + unat len \<le> length dev" "so_far \<le> len"
  shows "\<exists>ds. concat ds = take (unat len - unat so_far) (drop (unat start + unat so_far) dev) \<and>
    file_hash_loop rd p start len so_far hs = (True, map (feed ds) hs)"
  using assms(3)
proof (induction "unat len - unat so_far" arbitrary: so_far hs rule: less_induct)
  case less
  show ?case
  proof (cases "so_far < len")
    case False
    with less.prems have "so_far = len" by simp
    then show ?thesis by (intro exI [of _ "[]"]) (simp add: file_hash_loop.simps)
  next
    case True
    define k where "k = min (len - so_far) MiB16"
    note k = chunk_progress [OF True, folded k_def]
    define d where "d = take (unat k) (drop (unat start + unat so_far) dev)"
    have lt: "unat so_far < unat len" using True by (simp add: word_less_nat_alt)
    have off: "unat (start + so_far) = unat start + unat so_far"
      using assms(1,2) lt unat_less_64 [of "flp_package_size p"] by (intro unat_add_nowrap) simp
    have rd: "File_ReadFullyAtOffset rd p k (start + so_far) = Some d"
      using assms(1,2) lt k(2) by (subst file_read) (simp_all add: off d_def)
    have "\<exists>ds. concat ds = take (unat len - unat (so_far + k)) (drop (unat start + unat (so_far + k)) dev) \<and>
        file_hash_loop rd p start len (so_far + k) (map (call_hasher d) hs) = (True, map (feed ds) (map (call_hasher d) hs))"
      using lt k(1) by (intro less.hyps) (simp_all add: word_le_nat_alt)
    then obtain ds where ds:
      "concat ds = take (unat len - unat (so_far + k)) (drop (unat start + unat (so_far + k)) dev)"
      "file_hash_loop rd p start len (so_far + k) (map (call_hasher d) hs) = (True, map (feed ds) (map (call_hasher d) hs))"
      by blast
    have nxt: "unat (so_far + k) = unat so_far + unat k" using k by simp
    have split: "unat len - unat so_far = unat k + (unat len - unat (so_far + k))" using k lt by simp
    have "concat (d # ds) = take (unat len - unat so_far) (drop (unat start + unat so_far) dev)"
      unfolding split take_add concat.simps ds(1) d_def drop_drop nxt by (simp add: ac_simps)
    moreover have "file_hash_loop rd p start len so_far hs = (True, map (feed (d # ds)) hs)"
      using True rd ds(2)
      by (simp add: file_hash_loop.simps [of rd p start len so_far] Let_def k_def [symmetric] feed_Cons)
    ultimately show ?thesis by blast
  qed
qed

end

context stable_device
begin

lemma file_package_source: "package_source (file_interface rd) (\<lambda>p. unat (flp_package_size p) = length dev) (\<lambda>_. dev)"
proof
  fix p :: "'z file_package" and off n :: u64 and hs :: "'c hasher list"
  assume ok: "unat (flp_package_size p) = length dev"
  then show "unat (vi_GetPackageSize (file_interface rd p)) = length dev" by (simp add: file_interface_def)
  assume b: "unat off + unat n \<le> length dev"
  then show "vi_ReadFullyAtOffset (file_interface rd p) n off = Some (take (unat n) (drop (unat off) dev))"
    using ok by (simp add: file_interface_def file_read)
  show "\<exists>ds. concat ds = take (unat n) (drop (unat off) dev) \<and>
      vi_UpdateHashAtOffset (file_interface rd p) hs off n = (True, map (feed ds) hs)"
    using file_hash_loop_feeds [OF ok b, of 0] bounds_check_64 [of off n "flp_package_size p"] ok b
    by (simp add: file_interface_def File_UpdateHashAtOffset_def)
qed

end

text \<open>Both packages on the same bytes; the file one through any reader of a content that does not change.\<close>

interpretation fd_source: package_source "file_interface (pread_list dev)"
  "\<lambda>p. unat (flp_package_size p) = length dev" "\<lambda>_. dev" for dev
  by (rule mem_device.file_package_source)

end
