(* ===== verification/Verifier.thy ===== *)
theory Verifier
  imports Asn1_Decoder Ota_Package
begin

text \<open>
  The whole-file signature check of \<open>otautil/verifier.cpp\<close>: \<open>read_pkcs7\<close>, \<open>verify_file\<close>, and the loading of the
  keys from the certificate archive. The digests, the signature checks, the certificate parser and the
  archive reader belong to other libraries and are parameters. The specification in the second section is a
  function of the bytes of the package alone; the third section shows that \<open>verify_file\<close> computes it.
\<close>

section \<open>The signature block\<close>

text \<open>Early returns of \<open>read_pkcs7\<close>: on a null context and on a failed step.\<close>

definition with_context ::
  "(asn1_context option \<times> asn1_context) option \<Rightarrow> (asn1_context \<Rightarrow> 'a option option) \<Rightarrow> 'a option option" where
  "with_context r k = (case r of None \<Rightarrow> None | Some (None, _) \<Rightarrow> Some None | Some (Some x, _) \<Rightarrow> k x)"

definition and_then ::
  "(bool \<times> asn1_context) option \<Rightarrow> (asn1_context \<Rightarrow> 'a option option) \<Rightarrow> 'a option option" where
  "and_then r k = (case r of None \<Rightarrow> None | Some (False, _) \<Rightarrow> Some None | Some (True, c) \<Rightarrow> k c)"

text \<open>
  The result \<open>None\<close> is a read outside the buffer, \<open>Some None\<close> is \<open>false\<close>, \<open>Some (Some sig)\<close> is \<open>true\<close> with the bytes
  copied to \<open>sig_der\<close>.
\<close>

definition read_pkcs7 :: "bytes \<Rightarrow> size_t \<Rightarrow> bytes option option" where
  "read_pkcs7 pkcs7_der pkcs7_der_len =
     (let buf = pkcs7_der; ctx = asn1_context_of 0 pkcs7_der_len in
      with_context (asn1_sequence_get buf ctx) (\<lambda>pkcs7_seq.
      and_then (asn1_sequence_next buf pkcs7_seq) (\<lambda>pkcs7_seq.
      with_context (asn1_constructed_get buf pkcs7_seq) (\<lambda>signed_data_app.
      with_context (asn1_sequence_get buf signed_data_app) (\<lambda>signed_data_seq.
      and_then (asn1_sequence_next buf signed_data_seq) (\<lambda>signed_data_seq.
      and_then (asn1_sequence_next buf signed_data_seq) (\<lambda>signed_data_seq.
      and_then (asn1_sequence_next buf signed_data_seq) (\<lambda>signed_data_seq.
      and_then (asn1_constructed_skip_all buf signed_data_seq) (\<lambda>signed_data_seq.
      with_context (asn1_set_get buf signed_data_seq) (\<lambda>sig_set.
      with_context (asn1_sequence_get buf sig_set) (\<lambda>sig_seq.
      and_then (asn1_sequence_next buf sig_seq) (\<lambda>sig_seq.
      and_then (asn1_sequence_next buf sig_seq) (\<lambda>sig_seq.
      and_then (asn1_sequence_next buf sig_seq) (\<lambda>sig_seq.
      and_then (asn1_sequence_next buf sig_seq) (\<lambda>sig_seq.
      (case asn1_octet_string_get buf sig_seq of None \<Rightarrow> None
       | Some (None, _) \<Rightarrow> Some None
       | Some (Some (p, n), _) \<Rightarrow>
           if p + unat n \<le> length buf then Some (Some (take (unat n) (drop p buf))) else None))))))))))))))))"

section \<open>Checking the package\<close>

datatype verify_result = VERIFY_SUCCESS | VERIFY_FAILURE

datatype key_type = KEY_TYPE_RSA | KEY_TYPE_EC

datatype hash_nid = NID_sha1 | NID_sha256

record ('rsa, 'ec) certificate =
  hash_len :: int
  cert_key_type :: key_type
  cert_rsa :: "'rsa option"
  cert_ec :: "'ec option"

text \<open>What \<open>verify_file\<close> uses of the crypto library. A pointer to a key may be null.\<close>

record 'c digest_alg =
  dg_Init :: 'c
  dg_Update :: "'c \<Rightarrow> bytes \<Rightarrow> 'c"
  dg_Final :: "'c \<Rightarrow> bytes"

record ('c, 'rsa, 'ec) crypto =
  cr_sha1 :: "'c digest_alg"
  cr_sha256 :: "'c digest_alg"
  cr_RSA_verify :: "hash_nid \<Rightarrow> bytes \<Rightarrow> bytes \<Rightarrow> 'rsa option \<Rightarrow> bool"
  cr_ECDSA_verify :: "bytes \<Rightarrow> bytes \<Rightarrow> 'ec option \<Rightarrow> bool"

definition SHA_DIGEST_LENGTH :: int where "SHA_DIGEST_LENGTH = 20"
definition SHA256_DIGEST_LENGTH :: int where "SHA256_DIGEST_LENGTH = 32"
definition FOOTER_SIZE :: size_t where "FOOTER_SIZE = 6"
definition EOCD_HEADER_SIZE :: size_t where "EOCD_HEADER_SIZE = 22"

text \<open>Two bytes of the footer, least significant first.\<close>

definition footer_value :: "u8 \<Rightarrow> u8 \<Rightarrow> size_t" where
  "footer_value lo hi = ucast lo + push_bit 8 (ucast hi)"

definition eocd_marker_at :: "bytes \<Rightarrow> nat \<Rightarrow> bool" where
  "eocd_marker_at eocd i \<longleftrightarrow>
     eocd ! i = 80 \<and> eocd ! (i + 1) = 75 \<and> eocd ! (i + 2) = 5 \<and> eocd ! (i + 3) = 6"

text \<open>The loop over the signed part; the result of \<open>UpdateHashAtOffset\<close> is not looked at.\<close>

function verify_hash_loop :: "'c verifier_interface \<Rightarrow> u64 \<Rightarrow> u64 \<Rightarrow> 'c hasher list \<Rightarrow> 'c hasher list" where
  "verify_hash_loop package signed_len so_far hashers =
     (if so_far < signed_len
      then let read_size = min (signed_len - so_far) MiB16;
               (_, hashers) = vi_UpdateHashAtOffset package hashers so_far read_size in
             verify_hash_loop package signed_len (so_far + read_size) hashers
      else hashers)"
  by pat_completeness auto
termination
  by (relation "measure (\<lambda>(package, signed_len, so_far, hashers). unat signed_len - unat so_far)")
     (auto simp: chunk_progress word_less_nat_alt)

declare verify_hash_loop.simps [simp del]

text \<open>The digests of the signed part, each computed only when some key needs it.\<close>

definition package_digests ::
  "('c, 'rsa, 'ec) crypto \<Rightarrow> 'c verifier_interface \<Rightarrow> u64 \<Rightarrow> ('rsa, 'ec) certificate list \<Rightarrow> bytes \<times> bytes" where
  "package_digests cr package signed_len keys =
     (let need_sha1 = list_ex (\<lambda>key. hash_len key = SHA_DIGEST_LENGTH) keys;
          need_sha256 = list_ex (\<lambda>key. hash_len key = SHA256_DIGEST_LENGTH) keys;
          hashers = (if need_sha1 then [(dg_Update (cr_sha1 cr), dg_Init (cr_sha1 cr))] else []) @
                    (if need_sha256 then [(dg_Update (cr_sha256 cr), dg_Init (cr_sha256 cr))] else []);
          hashers = verify_hash_loop package signed_len 0 hashers;
          sha1_ctx = (if need_sha1 then snd (hashers ! 0) else dg_Init (cr_sha1 cr));
          sha256_ctx = (if need_sha256 then snd (last hashers) else dg_Init (cr_sha256 cr)) in
      (dg_Final (cr_sha1 cr) sha1_ctx, dg_Final (cr_sha256 cr) sha256_ctx))"

text \<open>The loop over the keys, the digests at hand; every key that does not match is passed over.\<close>

fun verify_with_keys ::
  "('c, 'rsa, 'ec) crypto \<Rightarrow> bytes \<Rightarrow> bytes \<Rightarrow> bytes \<Rightarrow> ('rsa, 'ec) certificate list \<Rightarrow> verify_result" where
  "verify_with_keys cr sha1 sha256 sig_der [] = VERIFY_FAILURE"
| "verify_with_keys cr sha1 sha256 sig_der (key # keys) =
     (case (if hash_len key = SHA_DIGEST_LENGTH then Some (sha1, NID_sha1)
            else if hash_len key = SHA256_DIGEST_LENGTH then Some (sha256, NID_sha256) else None) of
        None \<Rightarrow> verify_with_keys cr sha1 sha256 sig_der keys
      | Some (hash, nid) \<Rightarrow>
          if cert_key_type key = KEY_TYPE_RSA
          then if \<not> cr_RSA_verify cr nid hash sig_der (cert_rsa key)
               then verify_with_keys cr sha1 sha256 sig_der keys
               else VERIFY_SUCCESS
          else if cert_key_type key = KEY_TYPE_EC \<and> hash_len key = SHA256_DIGEST_LENGTH
          then if \<not> cr_ECDSA_verify cr hash sig_der (cert_ec key)
               then verify_with_keys cr sha1 sha256 sig_der keys
               else VERIFY_SUCCESS
          else verify_with_keys cr sha1 sha256 sig_der keys)"

text \<open>
  \<open>verify_file\<close> without its progress reports; \<open>None\<close> is a read outside a buffer in \<open>read_pkcs7\<close>.
\<close>

definition verify_file ::
  "('c, 'rsa, 'ec) crypto \<Rightarrow> 'c verifier_interface \<Rightarrow> ('rsa, 'ec) certificate list \<Rightarrow> verify_result option" where
  "verify_file cr package keys =
     (let length = vi_GetPackageSize package in
      if length < FOOTER_SIZE then Some VERIFY_FAILURE
      else case vi_ReadFullyAtOffset package FOOTER_SIZE (length - FOOTER_SIZE) of
        None \<Rightarrow> Some VERIFY_FAILURE
      | Some footer \<Rightarrow>
        if footer ! 2 \<noteq> 255 \<or> footer ! 3 \<noteq> 255 then Some VERIFY_FAILURE
        else
        let comment_size = footer_value (footer ! 4) (footer ! 5);
            signature_start = footer_value (footer ! 0) (footer ! 1) in
        if signature_start > comment_size then Some VERIFY_FAILURE
        else if signature_start \<le> FOOTER_SIZE then Some VERIFY_FAILURE
        else
        let eocd_size = comment_size + EOCD_HEADER_SIZE in
        if length < eocd_size then Some VERIFY_FAILURE
        else
        let signed_len = length - eocd_size + EOCD_HEADER_SIZE - 2 in
        (case vi_ReadFullyAtOffset package eocd_size (length - eocd_size) of
          None \<Rightarrow> Some VERIFY_FAILURE
        | Some eocd \<Rightarrow>
          if \<not> eocd_marker_at eocd 0 then Some VERIFY_FAILURE
          else if list_ex (eocd_marker_at eocd) [4..<unat (eocd_size - 3)] then Some VERIFY_FAILURE
          else
          let (sha1, sha256) = package_digests cr package signed_len keys;
              signature_size = signature_start - FOOTER_SIZE in
          (case read_pkcs7 (take (unat signature_size) (drop (unat (eocd_size - signature_start)) eocd)) signature_size of
             None \<Rightarrow> None
           | Some None \<Rightarrow> Some VERIFY_FAILURE
           | Some (Some sig_der) \<Rightarrow> Some (verify_with_keys cr sha1 sha256 sig_der keys))))"

section \<open>Loading the keys\<close>

datatype signature_nid =
  NID_md5WithRSA | NID_md5WithRSAEncryption | NID_sha1WithRSA | NID_sha1WithRSAEncryption |
  NID_sha256WithRSAEncryption | NID_ecdsa_with_SHA256 | NID_other int

datatype pkey_id = EVP_PKEY_RSA | EVP_PKEY_EC | EVP_PKEY_other int

text \<open>The certificate functions of the crypto library.\<close>

record ('x, 'k, 'rsa, 'ec, 'g) x509_lib =
  PEM_read_bio_X509 :: "bytes \<Rightarrow> 'x option"
  X509_get_signature_nid :: "'x \<Rightarrow> signature_nid"
  X509_get_pubkey :: "'x \<Rightarrow> 'k option"
  EVP_PKEY_id :: "'k \<Rightarrow> pkey_id"
  EVP_PKEY_get1_RSA :: "'k \<Rightarrow> 'rsa option"
  EVP_PKEY_get1_EC_KEY :: "'k \<Rightarrow> 'ec option"
  RSA_modulus_bits :: "'rsa \<Rightarrow> int"
  RSA_exponent_word :: "'rsa \<Rightarrow> u64"
  EC_KEY_get0_group :: "'ec \<Rightarrow> 'g option"
  EC_GROUP_get_degree :: "'g \<Rightarrow> int"

definition CheckRSAKey :: "('x, 'k, 'rsa, 'ec, 'g) x509_lib \<Rightarrow> 'rsa option \<Rightarrow> bool" where
  "CheckRSAKey lib rsa =
     (case rsa of None \<Rightarrow> False
      | Some k \<Rightarrow>
          let modulus_bits = RSA_modulus_bits lib k in
          if modulus_bits \<noteq> 2048 \<and> modulus_bits \<noteq> 4096 then False
          else let exponent = RSA_exponent_word lib k in
            if exponent \<noteq> 3 \<and> exponent \<noteq> 65537 then False else True)"

definition CheckECKey :: "('x, 'k, 'rsa, 'ec, 'g) x509_lib \<Rightarrow> 'ec option \<Rightarrow> bool" where
  "CheckECKey lib ec_key =
     (case ec_key of None \<Rightarrow> False
      | Some k \<Rightarrow>
          (case EC_KEY_get0_group lib k of None \<Rightarrow> False
           | Some ec_group \<Rightarrow> if EC_GROUP_get_degree lib ec_group \<noteq> 256 then False else True))"

definition hash_len_of_nid :: "signature_nid \<Rightarrow> int option" where
  "hash_len_of_nid nid =
     (case nid of
        NID_md5WithRSA \<Rightarrow> Some SHA_DIGEST_LENGTH
      | NID_md5WithRSAEncryption \<Rightarrow> Some SHA_DIGEST_LENGTH
      | NID_sha1WithRSA \<Rightarrow> Some SHA_DIGEST_LENGTH
      | NID_sha1WithRSAEncryption \<Rightarrow> Some SHA_DIGEST_LENGTH
      | NID_sha256WithRSAEncryption \<Rightarrow> Some SHA256_DIGEST_LENGTH
      | NID_ecdsa_with_SHA256 \<Rightarrow> Some SHA256_DIGEST_LENGTH
      | NID_other _ \<Rightarrow> None)"

definition LoadCertificateFromBuffer ::
  "('x, 'k, 'rsa, 'ec, 'g) x509_lib \<Rightarrow> bytes \<Rightarrow> ('rsa, 'ec) certificate \<Rightarrow> bool \<times> ('rsa, 'ec) certificate" where
  "LoadCertificateFromBuffer lib pem_content cert =
     (case PEM_read_bio_X509 lib pem_content of None \<Rightarrow> (False, cert)
      | Some x509 \<Rightarrow>
        (case hash_len_of_nid (X509_get_signature_nid lib x509) of None \<Rightarrow> (False, cert)
         | Some len \<Rightarrow>
           let cert = cert\<lparr>hash_len := len\<rparr> in
           (case X509_get_pubkey lib x509 of None \<Rightarrow> (False, cert)
            | Some public_key \<Rightarrow>
              (case EVP_PKEY_id lib public_key of
                 EVP_PKEY_RSA \<Rightarrow>
                   let cert = cert\<lparr>cert_key_type := KEY_TYPE_RSA, cert_ec := None,
                                   cert_rsa := EVP_PKEY_get1_RSA lib public_key\<rparr> in
                   if cert_rsa cert = None \<or> \<not> CheckRSAKey lib (cert_rsa cert) then (False, cert) else (True, cert)
               | EVP_PKEY_EC \<Rightarrow>
                   let cert = cert\<lparr>cert_key_type := KEY_TYPE_EC, cert_rsa := None,
                                   cert_ec := EVP_PKEY_get1_EC_KEY lib public_key\<rparr> in
                   if cert_ec cert = None \<or> \<not> CheckECKey lib (cert_ec cert) then (False, cert) else (True, cert)
               | EVP_PKEY_other _ \<Rightarrow> (False, cert)))))"

text \<open>
  The archive of certificates as its reader presents it: the status of \<open>StartIteration\<close>, the entries \<open>Next\<close>
  delivers with the outcome of their extraction, and the status \<open>Next\<close> ends with.
\<close>

record zip_entry =
  ze_uncompressed_length :: u64
  ze_extract :: "bytes option"

record zip_archive =
  za_start_status :: int
  za_entries :: "zip_entry list"
  za_end_status :: int

fun load_entries ::
  "('x, 'k, 'rsa, 'ec, 'g) x509_lib \<Rightarrow> zip_entry list \<Rightarrow> ('rsa, 'ec) certificate list \<Rightarrow>
   ('rsa, 'ec) certificate list option" where
  "load_entries lib [] result = Some result"
| "load_entries lib (entry # entries) result =
     (if ze_uncompressed_length entry > SIZE_MAX then None
      else case ze_extract entry of None \<Rightarrow> None
      | Some pem_content \<Rightarrow>
        let cert = \<lparr>hash_len = 0, cert_key_type = KEY_TYPE_RSA, cert_rsa = None, cert_ec = None\<rparr> in
        (case LoadCertificateFromBuffer lib pem_content cert of
           (False, _) \<Rightarrow> None
         | (True, cert) \<Rightarrow> load_entries lib entries (result @ [cert])))"

definition IterateZipEntriesAndSearchForKeys ::
  "('x, 'k, 'rsa, 'ec, 'g) x509_lib \<Rightarrow> zip_archive \<Rightarrow> ('rsa, 'ec) certificate list" where
  "IterateZipEntriesAndSearchForKeys lib handle =
     (if za_start_status handle \<noteq> 0 then []
      else case load_entries lib (za_entries handle) [] of None \<Rightarrow> []
      | Some result \<Rightarrow> if za_end_status handle \<noteq> - 1 then [] else result)"

definition LoadKeysFromZipfile ::
  "('x, 'k, 'rsa, 'ec, 'g) x509_lib \<Rightarrow> (string \<Rightarrow> zip_archive option) \<Rightarrow> string \<Rightarrow> ('rsa, 'ec) certificate list" where
  "LoadKeysFromZipfile lib open_archive zip_name =
     (case open_archive zip_name of None \<Rightarrow> [] | Some handle \<Rightarrow> IterateZipEntriesAndSearchForKeys lib handle)"

section \<open>Specification\<close>

text \<open>The signature value in a PKCS #7 block, on the grammar of \<open>Asn1_Decoder\<close>.\<close>

definition pkcs7_signature :: "bytes \<Rightarrow> bytes option" where
  "pkcs7_signature bs =
     do { s \<leftarrow> seq_content bs; s \<leftarrow> after_element s;
          a \<leftarrow> app_content s;
          d \<leftarrow> seq_content a; d \<leftarrow> after_element d; d \<leftarrow> after_element d; d \<leftarrow> after_element d;
          d \<leftarrow> skip_constructed d;
          g \<leftarrow> set_content d;
          i \<leftarrow> seq_content g; i \<leftarrow> after_element i; i \<leftarrow> after_element i; i \<leftarrow> after_element i; i \<leftarrow> after_element i;
          octets_content i }"

definition le16 :: "u8 \<Rightarrow> u8 \<Rightarrow> nat" where
  "le16 lo hi = unat lo + 256 * unat hi"

definition eocd_magic :: bytes where
  "eocd_magic = [80, 75, 5, 6]"

text \<open>
  The parts of a package with a whole-file signature: the bytes that are signed and the signature block.
  The package ends in \<open>ss ff ff cs\<close>, the start of the block counted from the end and the comment size; the
  end-of-central-directory record starts 22 bytes before the comment, and its magic number does not occur
  again behind it.
\<close>

definition whole_file_signature :: "bytes \<Rightarrow> (bytes \<times> bytes) option" where
  "whole_file_signature content =
     (let n = length content; foot = drop (n - 6) content;
          ss = le16 (foot ! 0) (foot ! 1); cs = le16 (foot ! 4) (foot ! 5);
          eocd = drop (n - (cs + 22)) content in
      if n < 6 \<or> foot ! 2 \<noteq> 255 \<or> foot ! 3 \<noteq> 255 \<or> cs < ss \<or> ss \<le> 6 \<or> n < cs + 22 then None
      else if take 4 eocd \<noteq> eocd_magic \<or> (\<exists>k \<in> {4..<cs + 19}. take 4 (drop k eocd) = eocd_magic) then None
      else Some (take (n - cs - 2) content, take (ss - 6) (drop (n - ss) content)))"

definition key_accepts :: "('c, 'rsa, 'ec) crypto \<Rightarrow> bytes \<Rightarrow> bytes \<Rightarrow> bytes \<Rightarrow> ('rsa, 'ec) certificate \<Rightarrow> bool" where
  "key_accepts cr h1 h256 sig key \<longleftrightarrow>
     (cert_key_type key = KEY_TYPE_RSA \<and> hash_len key = 20 \<and> cr_RSA_verify cr NID_sha1 h1 sig (cert_rsa key)) \<or>
     (cert_key_type key = KEY_TYPE_RSA \<and> hash_len key = 32 \<and> cr_RSA_verify cr NID_sha256 h256 sig (cert_rsa key)) \<or>
     (cert_key_type key = KEY_TYPE_EC \<and> hash_len key = 32 \<and> cr_ECDSA_verify cr h256 sig (cert_ec key))"

text \<open>What the digests promise: feeding the pieces one by one gives the digest of all of them.\<close>

locale digest =
  fixes alg :: "'c digest_alg" and dg :: "bytes \<Rightarrow> bytes"
  assumes final_ok: "dg_Final alg (foldl (dg_Update alg) (dg_Init alg) ds) = dg (concat ds)"

definition verdict :: "('c, 'rsa, 'ec) crypto \<Rightarrow> (bytes \<Rightarrow> bytes) \<Rightarrow> (bytes \<Rightarrow> bytes) \<Rightarrow> bytes
    \<Rightarrow> ('rsa, 'ec) certificate list \<Rightarrow> verify_result" where
  "verdict cr d1 d256 content keys =
     (case whole_file_signature content of None \<Rightarrow> VERIFY_FAILURE
      | Some (body, block) \<Rightarrow>
        (case pkcs7_signature block of None \<Rightarrow> VERIFY_FAILURE
         | Some sig \<Rightarrow>
             if list_ex (key_accepts cr (d1 body) (d256 body) sig) keys then VERIFY_SUCCESS else VERIFY_FAILURE))"

section \<open>The signature block is read by the grammar\<close>

lemma with_context_yields:
  assumes "yields buf r spec" "\<And>x x'. spec = Some x \<Longrightarrow> reads buf x' x \<Longrightarrow> k x' = Some (k' x)"
  shows "with_context r k = Some (Option.bind spec k')"
  using assms by (auto simp: with_context_def yields_def split: option.splits)

lemma and_then_moves:
  assumes "moves buf r spec" "\<And>x x'. spec = Some x \<Longrightarrow> reads buf x' x \<Longrightarrow> k x' = Some (k' x)"
  shows "and_then r k = Some (Option.bind spec k')"
  using assms by (auto simp: and_then_def moves_def split: option.splits)

lemma octets_step:
  assumes "reads buf c bs"
  shows "(case asn1_octet_string_get buf c of None \<Rightarrow> None
       | Some (None, _) \<Rightarrow> Some None
       | Some (Some (p, n), _) \<Rightarrow>
           if p + unat n \<le> length buf then Some (Some (take (unat n) (drop p buf))) else None) =
    Some (octets_content bs)"
  using octet_string_get_reads [OF assms] by (auto split: option.splits)

lemma read_pkcs7_grammar:
  assumes "length buf < 2 ^ 64"
  shows "read_pkcs7 buf (of_nat (length buf)) = Some (pkcs7_signature buf)"
proof -
  have "reads buf (asn1_context_of 0 (of_nat (length buf))) buf"
    using assms by (simp add: reads_def ctx_ok_def rest_def asn1_context_of_def unat_of_nat_small)
  then show ?thesis
    unfolding read_pkcs7_def pkcs7_signature_def Let_def
    by (intro with_context_yields [where buf = buf] and_then_moves [where buf = buf] octets_step
        sequence_get_yields sequence_next_moves constructed_get_yields constructed_skip_all_moves set_get_yields)
qed

lemma octets_content_nonempty: "octets_content bs \<noteq> Some []"
  by (cases "content_if (\<lambda>t. t = 4) bs") (auto simp: octets_content_def split: list.split)

lemma pkcs7_signature_nonempty: "pkcs7_signature bs \<noteq> Some []"
  by (auto simp: pkcs7_signature_def octets_content_nonempty bind_eq_Some_conv)

section \<open>The check follows the specification\<close>

lemma verify_with_keys_accepts:
  "verify_with_keys cr h1 h256 sig keys =
     (if list_ex (key_accepts cr h1 h256 sig) keys then VERIFY_SUCCESS else VERIFY_FAILURE)"
  by (induction keys)
     (auto simp: key_accepts_def SHA_DIGEST_LENGTH_def SHA256_DIGEST_LENGTH_def)

lemma footer_value_le16: "unat (footer_value lo hi) = le16 lo hi"
proof -
  have "unat (push_bit 8 (ucast hi) :: size_t) = 256 * unat hi"
    using unat_less_8 [of hi] by (simp add: push_bit_eq_mult unat_mult_nowrap mult.commute)
  then show ?thesis
    unfolding footer_value_def le16_def using unat_less_8 [of lo] unat_less_8 [of hi]
    by (subst unat_add_nowrap) simp_all
qed

lemma le16_less: "le16 lo hi < 65536"
  using unat_less_8 [of lo] unat_less_8 [of hi] by (simp add: le16_def)

lemma eocd_marker_at_iff:
  assumes "i + 4 \<le> length eocd"
  shows "eocd_marker_at eocd i \<longleftrightarrow> take 4 (drop i eocd) = eocd_magic"
proof -
  have "take 4 (drop i eocd) = [eocd ! i, eocd ! (i + 1), eocd ! (i + 2), eocd ! (i + 3)]"
    using assms by (intro nth_equalityI) (auto simp: less_Suc_eq numeral_eq_Suc)
  then show ?thesis by (simp add: eocd_marker_at_def eocd_magic_def)
qed

context package_source
begin

lemma verify_hash_loop_feeds:
  assumes "ok p" "unat signed_len \<le> length (content p)" "so_far \<le> signed_len"
  shows "\<exists>ds. concat ds = take (unat signed_len - unat so_far) (drop (unat so_far) (content p)) \<and>
    verify_hash_loop (iface p) signed_len so_far hs = map (feed ds) hs"
  using assms(3)
proof (induction "unat signed_len - unat so_far" arbitrary: so_far hs rule: less_induct)
  case less
  show ?case
  proof (cases "so_far < signed_len")
    case False
    with less.prems have "so_far = signed_len" by simp
    then show ?thesis by (intro exI [of _ "[]"]) (simp add: verify_hash_loop.simps)
  next
    case True
    define k where "k = min (signed_len - so_far) MiB16"
    note k = chunk_progress [OF True, folded k_def]
    have lt: "unat so_far < unat signed_len" using True by (simp add: word_less_nat_alt)
    have in_file: "unat so_far + unat k \<le> length (content p)" using assms(2) k(2) lt by simp
    obtain d where d: "concat d = take (unat k) (drop (unat so_far) (content p))"
      "vi_UpdateHashAtOffset (iface p) hs so_far k = (True, map (feed d) hs)"
      using hash_ok [OF assms(1) in_file, of hs] by blast
    have "\<exists>ds. concat ds = take (unat signed_len - unat (so_far + k)) (drop (unat (so_far + k)) (content p)) \<and>
        verify_hash_loop (iface p) signed_len (so_far + k) (map (feed d) hs) = map (feed ds) (map (feed d) hs)"
      using lt k(1) by (intro less.hyps) (simp_all add: word_le_nat_alt)
    then obtain ds where ds:
      "concat ds = take (unat signed_len - unat (so_far + k)) (drop (unat (so_far + k)) (content p))"
      "verify_hash_loop (iface p) signed_len (so_far + k) (map (feed d) hs) = map (feed ds) (map (feed d) hs)"
      by blast
    have nxt: "unat (so_far + k) = unat so_far + unat k" using k by simp
    have split: "unat signed_len - unat so_far = unat k + (unat signed_len - unat (so_far + k))" using k lt by simp
    have "concat (d @ ds) = take (unat signed_len - unat so_far) (drop (unat so_far) (content p))"
      unfolding split take_add concat_append ds(1) d(1) drop_drop nxt by (simp add: ac_simps)
    moreover have "verify_hash_loop (iface p) signed_len so_far hs = map (feed (d @ ds)) hs"
      using True d(2) ds(2)
      by (simp add: verify_hash_loop.simps [of "iface p" signed_len so_far] Let_def k_def [symmetric] feed_append)
    ultimately show ?thesis by blast
  qed
qed

text \<open>The digests \<open>verify_file\<close> ends up with; one that no key needs is not compared with anything.\<close>

lemma digests_of_signed_part:
  fixes cr :: "('c, 'rsa, 'ec) crypto"
  assumes "ok p" "digest (cr_sha1 cr) d1" "digest (cr_sha256 cr) d256" "unat signed_len \<le> length (content p)"
    and "package_digests cr (iface p) signed_len keys = (h1, h256)"
  shows "list_ex (\<lambda>key. hash_len key = SHA_DIGEST_LENGTH) keys \<Longrightarrow> h1 = d1 (take (unat signed_len) (content p))"
    and "list_ex (\<lambda>key. hash_len key = SHA256_DIGEST_LENGTH) keys \<Longrightarrow> h256 = d256 (take (unat signed_len) (content p))"
proof -
  define hs where "hs = (if list_ex (\<lambda>key. hash_len key = SHA_DIGEST_LENGTH) keys
       then [(dg_Update (cr_sha1 cr), dg_Init (cr_sha1 cr))] else []) @
       (if list_ex (\<lambda>key. hash_len key = SHA256_DIGEST_LENGTH) keys
       then [(dg_Update (cr_sha256 cr), dg_Init (cr_sha256 cr))] else [])"
  obtain ds where ds: "concat ds = take (unat signed_len) (content p)"
    "verify_hash_loop (iface p) signed_len 0 hs = map (feed ds) hs"
    using verify_hash_loop_feeds [OF assms(1,4), of 0 hs] by auto
  have h: "(h1, h256) =
     (dg_Final (cr_sha1 cr) (if list_ex (\<lambda>key. hash_len key = SHA_DIGEST_LENGTH) keys
        then snd (map (feed ds) hs ! 0) else dg_Init (cr_sha1 cr)),
      dg_Final (cr_sha256 cr) (if list_ex (\<lambda>key. hash_len key = SHA256_DIGEST_LENGTH) keys
        then snd (last (map (feed ds) hs)) else dg_Init (cr_sha256 cr)))"
    unfolding assms(5) [symmetric] package_digests_def Let_def hs_def [symmetric] ds(2) by (rule refl)
  show "list_ex (\<lambda>key. hash_len key = SHA_DIGEST_LENGTH) keys \<Longrightarrow> h1 = d1 (take (unat signed_len) (content p))"
    using h digest.final_ok [OF assms(2), of ds] by (simp add: feed_def hs_def ds(1))
  show "list_ex (\<lambda>key. hash_len key = SHA256_DIGEST_LENGTH) keys \<Longrightarrow> h256 = d256 (take (unat signed_len) (content p))"
    using h digest.final_ok [OF assms(3), of ds] by (simp add: feed_def hs_def ds(1))
qed

end

lemma list_ex_key_accepts_cong:
  assumes "list_ex (\<lambda>key. hash_len key = SHA_DIGEST_LENGTH) keys \<Longrightarrow> h1 = h1'"
    and "list_ex (\<lambda>key. hash_len key = SHA256_DIGEST_LENGTH) keys \<Longrightarrow> h256 = h256'"
  shows "list_ex (key_accepts cr h1 h256 sig) keys = list_ex (key_accepts cr h1' h256' sig) keys"
  using assms
  by (auto simp: list_ex_iff key_accepts_def SHA_DIGEST_LENGTH_def SHA256_DIGEST_LENGTH_def)

context package_source
begin

text \<open>The checks before the keys are tried depend on the size and the reads only, whatever the hashing does.\<close>

lemma verify_file_reads:
  fixes cr :: "('c, 'rsa, 'ec) crypto"
  assumes ok: "ok p" and same: "vi_GetPackageSize i = vi_GetPackageSize (iface p)"
    "vi_ReadFullyAtOffset i = vi_ReadFullyAtOffset (iface p)"
  shows "verify_file cr i keys =
    Some (case whole_file_signature (content p) of None \<Rightarrow> VERIFY_FAILURE
      | Some (body, block) \<Rightarrow>
        (case pkcs7_signature block of None \<Rightarrow> VERIFY_FAILURE
         | Some sig \<Rightarrow>
           (case package_digests cr i (of_nat (length body)) keys of (h1, h256) \<Rightarrow>
              verify_with_keys cr h1 h256 sig keys)))"
proof -
  define L where "L = vi_GetPackageSize (iface p)"
  define n where "n = length (content p)"
  define foot where "foot = drop (n - 6) (content p)"
  define cs where "cs = le16 (foot ! 4) (foot ! 5)"
  define ss where "ss = le16 (foot ! 0) (foot ! 1)"
  define eocd where "eocd = drop (n - (cs + 22)) (content p)"
  define cw where "cw = footer_value (foot ! 4) (foot ! 5)"
  define sw where "sw = footer_value (foot ! 0) (foot ! 1)"
  have L: "unat L = n" using size_ok [OF ok] by (simp add: L_def n_def)
  have w: "unat cw = cs" "unat sw = ss" by (simp_all add: cw_def sw_def cs_def ss_def footer_value_le16)
  have small: "cs < 65536" "ss < 65536" by (simp_all add: cs_def ss_def le16_less)
  have six: "unat FOOTER_SIZE = 6" "unat EOCD_HEADER_SIZE = 22" by (simp_all add: FOOTER_SIZE_def EOCD_HEADER_SIZE_def)
  have ew: "unat (cw + EOCD_HEADER_SIZE) = cs + 22" using small w six by (subst unat_add_nowrap) simp_all
  have c1: "L < FOOTER_SIZE \<longleftrightarrow> n < 6" "cw < sw \<longleftrightarrow> cs < ss" "sw \<le> FOOTER_SIZE \<longleftrightarrow> ss \<le> 6"
    "L < cw + EOCD_HEADER_SIZE \<longleftrightarrow> n < cs + 22"
    using L w six ew by (simp_all add: word_less_nat_alt word_le_nat_alt)
  have r1: "vi_ReadFullyAtOffset (iface p) FOOTER_SIZE (L - FOOTER_SIZE) = Some foot" if "\<not> n < 6"
    using that L six read_ok [OF ok, of "L - FOOTER_SIZE" FOOTER_SIZE]
    by (simp add: foot_def n_def unat_sub word_le_nat_alt)
  have r2: "vi_ReadFullyAtOffset (iface p) (cw + EOCD_HEADER_SIZE) (L - (cw + EOCD_HEADER_SIZE)) = Some eocd"
    if "\<not> n < cs + 22"
    using that L ew read_ok [OF ok, of "L - (cw + EOCD_HEADER_SIZE)" "cw + EOCD_HEADER_SIZE"]
    by (simp add: eocd_def n_def unat_sub word_le_nat_alt)
  have model: "verify_file cr i keys =
     (if n < 6 \<or> foot ! 2 \<noteq> 255 \<or> foot ! 3 \<noteq> 255 \<or> cs < ss \<or> ss \<le> 6 \<or> n < cs + 22 then Some VERIFY_FAILURE
      else if \<not> eocd_marker_at eocd 0 \<or> list_ex (eocd_marker_at eocd) [4..<unat (cw + EOCD_HEADER_SIZE - 3)]
      then Some VERIFY_FAILURE
      else case package_digests cr i (L - (cw + EOCD_HEADER_SIZE) + EOCD_HEADER_SIZE - 2) keys of (sha1, sha256) \<Rightarrow>
        case read_pkcs7 (take (unat (sw - FOOTER_SIZE)) (drop (unat (cw + EOCD_HEADER_SIZE - sw)) eocd)) (sw - FOOTER_SIZE) of
             None \<Rightarrow> None
           | Some None \<Rightarrow> Some VERIFY_FAILURE
           | Some (Some sig_der) \<Rightarrow> Some (verify_with_keys cr sha1 sha256 sig_der keys))"
    by (simp add: verify_file_def Let_def same L_def [symmetric] c1 r1 r2 del: One_nat_def flip: cw_def sw_def)
  show ?thesis
  proof (cases "n < 6 \<or> foot ! 2 \<noteq> 255 \<or> foot ! 3 \<noteq> 255 \<or> cs < ss \<or> ss \<le> 6 \<or> n < cs + 22")
    case True
    then have "whole_file_signature (content p) = None"
      by (simp add: whole_file_signature_def Let_def del: One_nat_def flip: n_def foot_def cs_def ss_def)
    with True show ?thesis by (simp add: model)
  next
    case False
    define body where "body = take (n - cs - 2) (content p)"
    define block where "block = take (ss - 6) (drop (n - ss) (content p))"
    have spec: "whole_file_signature (content p) =
        (if take 4 eocd \<noteq> eocd_magic \<or> (\<exists>k \<in> {4..<cs + 19}. take 4 (drop k eocd) = eocd_magic) then None
         else Some (body, block))"
      using False
      by (simp add: whole_file_signature_def Let_def body_def block_def del: One_nat_def flip: n_def foot_def cs_def ss_def eocd_def)
    have "unat (cw + EOCD_HEADER_SIZE - 3) = cs + 19" using ew by (simp add: unat_sub word_le_nat_alt)
    moreover have "length eocd = cs + 22" using False by (simp add: eocd_def n_def)
    ultimately have marks: "eocd_marker_at eocd 0 \<longleftrightarrow> take 4 eocd = eocd_magic"
      "list_ex (eocd_marker_at eocd) [4..<unat (cw + EOCD_HEADER_SIZE - 3)] \<longleftrightarrow>
         (\<exists>k \<in> {4..<cs + 19}. take 4 (drop k eocd) = eocd_magic)"
      by (auto simp: eocd_marker_at_iff list_ex_iff)
    define sl where "sl = L - (cw + EOCD_HEADER_SIZE) + EOCD_HEADER_SIZE - 2"
    have "sl = L - cw - 2" by (simp add: sl_def)
    moreover have F: "cs + 22 \<le> n" "ss \<le> cs" "6 < ss" using False by auto
    moreover have Lc: "unat (L - cw) = n - cs" using L w F by (simp add: unat_sub word_le_nat_alt)
    moreover have "unat (L - cw - 2) = unat (L - cw) - 2" using Lc F by (subst unat_sub) (simp_all add: word_le_nat_alt)
    ultimately have sl: "unat sl = n - cs - 2" by simp
    have size: "unat (sw - FOOTER_SIZE) = ss - 6" "unat (cw + EOCD_HEADER_SIZE - sw) = cs + 22 - ss"
      using False w six ew by (simp_all add: unat_sub word_le_nat_alt)
    have blk: "take (unat (sw - FOOTER_SIZE)) (drop (unat (cw + EOCD_HEADER_SIZE - sw)) eocd) = block"
      using False by (simp add: size block_def eocd_def)
    have len: "length block = ss - 6" using False by (simp add: block_def n_def)
    have lw: "sw - FOOTER_SIZE = of_nat (length block)"
      using size(1) small by (simp add: len word_unat_eq_iff unat_of_nat_small)
    have body: "sl = of_nat (length body)"
      using sl L unat_less_64 [of L] by (simp add: body_def n_def word_unat_eq_iff unat_of_nat_small)
    have "length block < 2 ^ 64" using len small by simp
    note grammar = read_pkcs7_grammar [OF this, folded lw]
    show ?thesis
      unfolding model sl_def [symmetric] blk spec marks grammar body using False
      by (simp split: option.split prod.split)
  qed
qed

lemma verify_file_verdict:
  fixes cr :: "('c, 'rsa, 'ec) crypto"
  assumes ok: "ok p" and dg: "digest (cr_sha1 cr) d1" "digest (cr_sha256 cr) d256"
  shows "verify_file cr (iface p) keys = Some (verdict cr d1 d256 (content p) keys)"
proof (cases "whole_file_signature (content p)")
  case None
  then show ?thesis by (simp add: verify_file_reads [OF ok refl refl] verdict_def)
next
  case (Some bb)
  obtain body block where bb: "bb = (body, block)" by fastforce
  have body: "body = take (length body) (content p)" "length body \<le> length (content p)"
    using Some bb by (auto simp: whole_file_signature_def Let_def split: if_splits)
  have small: "unat (of_nat (length body) :: u64) = length body"
    using body(2) size_ok [OF ok] unat_less_64 [of "vi_GetPackageSize (iface p)"] by (simp add: unat_of_nat_small)
  obtain h1 h256 where h: "package_digests cr (iface p) (of_nat (length body)) keys = (h1, h256)" by fastforce
  have "list_ex (key_accepts cr h1 h256 sig) keys = list_ex (key_accepts cr (d1 body) (d256 body) sig) keys" for sig
    using digests_of_signed_part [OF ok dg _ h] body small by (intro list_ex_key_accepts_cong) simp_all
  then show ?thesis
    by (simp add: verify_file_reads [OF ok refl refl] verdict_def Some bb h verify_with_keys_accepts split: option.split)
qed

text \<open>With hashing that always fails the digests are those of the empty string.\<close>

lemma verify_file_hash_fails:
  fixes cr :: "('c, 'rsa, 'ec) crypto"
  assumes ok: "ok p" and dg: "digest (cr_sha1 cr) d1" "digest (cr_sha256 cr) d256"
  shows "verify_file cr ((iface p)\<lparr>vi_UpdateHashAtOffset := \<lambda>hs start len. (False, hs)\<rparr>) keys =
    Some (verdict cr (\<lambda>_. d1 []) (\<lambda>_. d256 []) (content p) keys)"
proof -
  let ?i = "(iface p)\<lparr>vi_UpdateHashAtOffset := \<lambda>hs start len. (False, hs)\<rparr>"
  have "verify_hash_loop ?i n k hs = hs" for n k hs
    by (induction ?i n k hs rule: verify_hash_loop.induct) (subst verify_hash_loop.simps, simp add: Let_def, blast)
  then have "package_digests cr ?i n keys = (d1 [], d256 [])" for n
    using digest.final_ok [OF dg(1), of "[]"] digest.final_ok [OF dg(2), of "[]"]
    by (simp add: package_digests_def Let_def)
  then show ?thesis
    by (simp add: verify_file_reads [OF ok, of ?i] verdict_def verify_with_keys_accepts split: option.split)
qed

end

section \<open>Packages made by the signing tool\<close>

text \<open>A PKCS #7 block in the layout of the comment above \<open>read_pkcs7\<close>; the elements it skips are arbitrary.\<close>

type_synonym element = "u8 \<times> bytes"

abbreviation enc :: "element \<Rightarrow> bytes" where
  "enc e \<equiv> der (fst e) (snd e)"

definition pkcs7_block :: "element \<Rightarrow> element \<times> element \<times> element \<Rightarrow> element list
    \<Rightarrow> element \<times> element \<times> element \<times> element \<Rightarrow> bytes \<Rightarrow> bytes" where
  "pkcs7_block content_type data extras info sig =
     (case (data, info) of ((version, digests, content_info), (signer_version, signer, digest_alg, sig_alg)) \<Rightarrow>
      der 48 (enc content_type @
        der 160 (der 48 (enc version @ enc digests @ enc content_info @
          concat (map (\<lambda>(t, x). der t x) extras) @
          der 49 (der 48 (enc signer_version @ enc signer @ enc digest_alg @ enc sig_alg @ der 4 sig))))))"

lemma length_der: "length x < length (der t x)"
  by (simp add: der_def)

lemma length_concat_member: "x \<in> set xs \<Longrightarrow> length x \<le> length (concat xs)"
  by (induction xs) auto

lemma content_if_der_only [simp]: "length x < 65536 \<Longrightarrow> content_if P (der t x) = (if P t then Some x else None)"
  using content_if_der [of x P t "[]"] by simp

lemma pkcs7_signature_block:
  assumes "length (pkcs7_block ct data extras info sig) < 65536" "sig \<noteq> []" "\<forall>(t, x)\<in>set extras. unat t div 32 = 5"
  shows "pkcs7_signature (pkcs7_block ct data extras info sig) = Some sig"
proof -
  obtain v d c sv sg da sa where t: "data = (v, d, c)" "info = (sv, sg, da, sa)" by (metis prod_cases3 prod_cases4)
  define set_c where "set_c = der 48 (enc sv @ enc sg @ enc da @ enc sa @ der 4 sig)"
  define data_c where "data_c = enc v @ enc d @ enc c @ concat (map (\<lambda>(t, x). der t x) extras) @ der 49 set_c"
  have blk: "pkcs7_block ct data extras info sig = der 48 (enc ct @ der 160 (der 48 data_c))"
    by (simp add: pkcs7_block_def t data_c_def set_c_def)
  have outer: "length (enc ct @ der 160 (der 48 data_c)) < 65536" using assms(1) length_der unfolding blk by (rule less_trans [rotated])
  have "length (der 48 data_c) < 65536"
    using outer length_der [of "der 48 data_c" 160] by simp
  moreover have dc: "length data_c < 65536" using calculation length_der [of data_c 48] by simp
  moreover have "length (snd ct) < 65536" using outer length_der [of "snd ct" "fst ct"] by simp
  moreover have ds: "length (der 49 set_c) < 65536" "length (snd v) < 65536" "length (snd d) < 65536" "length (snd c) < 65536"
    using dc length_der [of "snd v" "fst v"] length_der [of "snd d" "fst d"] length_der [of "snd c" "fst c"]
    by (simp_all add: data_c_def)
  moreover have sc: "length set_c < 65536" using ds(1) length_der [of set_c 49] by simp
  moreover have seq: "length (enc sv @ enc sg @ enc da @ enc sa @ der 4 sig) < 65536"
    using sc length_der [of "enc sv @ enc sg @ enc da @ enc sa @ der 4 sig" 48] by (simp add: set_c_def)
  moreover have "length (snd sv) < 65536" "length (snd sg) < 65536" "length (snd da) < 65536" "length (snd sa) < 65536" "length sig < 65536"
    using seq length_der [of "snd sv" "fst sv"] length_der [of "snd sg" "fst sg"] length_der [of "snd da" "fst da"]
      length_der [of "snd sa" "fst sa"] length_der [of sig 4] by simp_all
  moreover have "\<forall>(t, x)\<in>set extras. unat t div 32 = 5 \<and> length x < 65536"
  proof -
    have "length x < 65536" if "(t, x) \<in> set extras" for t x
    proof -
      have "length (der t x) \<le> length (concat (map (\<lambda>(t, x). der t x) extras))"
        using that by (intro length_concat_member) force
      then show ?thesis using dc length_der [of x t] by (simp add: data_c_def)
    qed
    then show ?thesis using assms(3) by auto
  qed
  then have "skip_constructed (concat (map (\<lambda>(t, x). der t x) extras) @ der 49 set_c) = Some (der 49 set_c)"
    using skip_constructed_der [of extras 49 set_c "[]"] by simp
  ultimately show ?thesis
    using assms(2) outer unfolding blk pkcs7_signature_def
    by (simp add: data_c_def set_c_def octets_content_def split: list.split)
qed

text \<open>The signing tool puts the block at the end of the archive comment, followed by the footer.\<close>

definition le16_bytes :: "nat \<Rightarrow> bytes" where
  "le16_bytes n = [of_nat (n mod 256), of_nat (n div 256)]"

definition signed_comment :: "bytes \<Rightarrow> bytes \<Rightarrow> bytes" where
  "signed_comment pre block =
     pre @ block @ le16_bytes (length block + 6) @ [255, 255] @ le16_bytes (length pre + length block + 6)"

definition signed_file :: "bytes \<Rightarrow> bytes \<Rightarrow> bytes \<Rightarrow> bytes \<Rightarrow> bytes" where
  "signed_file entries eocd pre block =
     entries @ eocd @ le16_bytes (length pre + length block + 6) @ signed_comment pre block"

lemma le16_of_bytes: "n < 65536 \<Longrightarrow> le16 (of_nat (n mod 256)) (of_nat (n div 256)) = n"
  by (simp add: le16_def unat_of_nat_small)

lemma whole_file_signature_signed:
  assumes "length eocd = 20" "take 4 eocd = eocd_magic" "block \<noteq> []" "length pre + length block + 6 < 65536"
    and "\<forall>k\<in>{4..<length pre + length block + 25}.
      take 4 (drop k (eocd @ le16_bytes (length pre + length block + 6) @ signed_comment pre block)) \<noteq> eocd_magic"
  shows "whole_file_signature (signed_file entries eocd pre block) = Some (entries @ eocd, block)"
proof -
  let ?f = "signed_file entries eocd pre block" and ?cs = "length pre + length block + 6" and ?ss = "length block + 6"
  have n: "length ?f = length entries + 22 + ?cs" using assms(1) by (simp add: signed_file_def signed_comment_def le16_bytes_def)
  have foot: "drop (length ?f - 6) ?f = le16_bytes ?ss @ [255, 255] @ le16_bytes ?cs"
    using assms(1) by (simp add: n signed_file_def signed_comment_def le16_bytes_def)
  have cs: "le16 ((le16_bytes ?ss @ [255, 255] @ le16_bytes ?cs) ! 4) ((le16_bytes ?ss @ [255, 255] @ le16_bytes ?cs) ! 5) = ?cs"
    using le16_of_bytes [OF assms(4)] by (simp add: le16_bytes_def)
  have ss: "le16 ((le16_bytes ?ss @ [255, 255] @ le16_bytes ?cs) ! 0) ((le16_bytes ?ss @ [255, 255] @ le16_bytes ?cs) ! 1) = ?ss"
    using le16_of_bytes [of ?ss] assms(4) by (simp add: le16_bytes_def)
  have ff: "(le16_bytes ?ss @ [255, 255] @ le16_bytes ?cs) ! 2 = 255" "(le16_bytes ?ss @ [255, 255] @ le16_bytes ?cs) ! 3 = 255"
    by (simp_all add: le16_bytes_def)
  have eocd: "drop (length ?f - (?cs + 22)) ?f = eocd @ le16_bytes ?cs @ signed_comment pre block"
    by (simp add: n) (simp add: signed_file_def)
  have body: "take (length ?f - ?cs - 2) ?f = entries @ eocd" using assms(1) by (simp add: n) (simp add: signed_file_def)
  have blk: "take (?ss - 6) (drop (length ?f - ?ss) ?f) = block"
    using assms(1) by (simp add: n) (simp add: signed_file_def signed_comment_def le16_bytes_def)
  show ?thesis
    unfolding whole_file_signature_def Let_def foot cs ss ff eocd body blk
    using assms(1-3,5) n by (simp add: add.commute)
qed

lemma no_later_marker:
  assumes "take 4 e = eocd_magic" "\<forall>k \<in> {4..<length e - 3}. take 4 (drop k e) \<noteq> eocd_magic" "0 < k"
  shows "take 4 (drop k e) \<noteq> eocd_magic"
proof
  assume m: "take 4 (drop k e) = eocd_magic"
  then have "length (take 4 (drop k e)) = 4" by (simp add: eocd_magic_def)
  then have len: "k + 4 \<le> length e" by simp
  then have "\<not> 4 \<le> k" using assms(2) m by auto
  then have "e ! k = take 4 e ! k" by simp
  moreover have "e ! k = take 4 (drop k e) ! 0" using len by simp
  ultimately have "eocd_magic ! 0 = eocd_magic ! k" using m assms(1) by simp
  moreover have "k = 1 \<or> k = 2 \<or> k = 3" using \<open>\<not> 4 \<le> k\<close> assms(3) by linarith
  ultimately show False by (auto simp: eocd_magic_def)
qed

lemma whole_file_signature_cases:
  assumes "whole_file_signature content = Some (body, block)"
  obtains cs ss where "ss \<le> cs" "6 < ss" "cs + 22 \<le> length content" "body = take (length content - cs - 2) content"
    "block = take (ss - 6) (drop (length content - ss) content)"
    "take 4 (drop (length content - (cs + 22)) content) = eocd_magic"
    "\<forall>k \<in> {4..<cs + 19}. take 4 (drop k (drop (length content - (cs + 22)) content)) \<noteq> eocd_magic"
proof -
  define cs where "cs = le16 (drop (length content - 6) content ! 4) (drop (length content - 6) content ! 5)"
  define ss where "ss = le16 (drop (length content - 6) content ! 0) (drop (length content - 6) content ! 1)"
  show thesis
    using assms unfolding whole_file_signature_def Let_def cs_def [symmetric] ss_def [symmetric]
    by (intro that [of ss cs]) (simp_all add: not_less not_le split: if_splits)
qed

lemma whole_file_signature_shape:
  assumes "whole_file_signature content = Some (body, block)"
  shows "\<exists>a b pre foot. content = body @ [a, b] @ pre @ block @ foot \<and> length foot = 6 \<and>
    20 \<le> length body \<and> take 4 (drop (length body - 20) body) = eocd_magic \<and>
    (\<forall>k. length body - 20 < k \<longrightarrow> take 4 (drop k content) \<noteq> eocd_magic)"
proof -
  obtain cs ss where b: "ss \<le> cs" "6 < ss" "cs + 22 \<le> length content" "body = take (length content - cs - 2) content"
    "block = take (ss - 6) (drop (length content - ss) content)"
    "take 4 (drop (length content - (cs + 22)) content) = eocd_magic"
    "\<forall>k \<in> {4..<cs + 19}. take 4 (drop k (drop (length content - (cs + 22)) content)) \<noteq> eocd_magic"
    using assms by (rule whole_file_signature_cases)
  define m where "m = length content - cs - 22"
  have m: "length content = m + cs + 22" "length content - (cs + 22) = m" "length content - cs - 2 = m + 20" using b(3) by (simp_all add: m_def)
  define r where "r = drop (m + 22) content"
  have r: "length r = cs" by (simp add: r_def m)
  have two: "drop (m + 20) content = [content ! (m + 20), content ! (m + 21)] @ r"
    unfolding r_def using m(1) by (simp add: add.commute flip: Cons_nth_drop_Suc)
  have "drop (length content - ss) content = drop (cs - ss) r"
  proof -
    have "length content - ss = (cs - ss) + (m + 22)" using b(1) m(1) by simp
    then show ?thesis by (simp only: r_def drop_drop)
  qed
  then have blk: "block = take (ss - 6) (drop (cs - ss) r)" by (simp add: b(5))
  have "r = take (cs - ss) r @ take (ss - 6) (drop (cs - ss) r) @ drop (ss - 6) (drop (cs - ss) r)"
    by (simp only: append_take_drop_id)
  then have "content = body @ [content ! (m + 20), content ! (m + 21)] @ take (cs - ss) r @ block @ drop (ss - 6) (drop (cs - ss) r)"
    using two append_take_drop_id [of "m + 20" content] by (metis append.assoc b(4) blk m(3))
  moreover have "length (drop (ss - 6) (drop (cs - ss) r)) = 6" using b(1,2) r by simp
  moreover have len: "length body = m + 20" using m(1) by (simp add: b(4) m(3))
  moreover have "take 4 (drop m body) = eocd_magic" using b(6) by (simp add: b(4) m drop_take)
  moreover have "take 4 (drop k content) \<noteq> eocd_magic" if "m < k" for k
  proof -
    have "take 4 (drop (k - m) (drop m content)) \<noteq> eocd_magic"
      by (rule no_later_marker) (use b(6,7) m that in simp_all)
    then show ?thesis using that by simp
  qed
  ultimately show ?thesis unfolding len by (intro exI [of _ "content ! (m + 20)"] exI conjI) auto
qed

section \<open>The keys that are loaded\<close>

definition key_checked :: "('x, 'k, 'rsa, 'ec, 'g) x509_lib \<Rightarrow> ('rsa, 'ec) certificate \<Rightarrow> bool" where
  "key_checked lib k \<longleftrightarrow> hash_len k \<in> {20, 32} \<and>
     (case cert_key_type k of
        KEY_TYPE_RSA \<Rightarrow> cert_ec k = None \<and> (\<exists>r. cert_rsa k = Some r \<and>
          RSA_modulus_bits lib r \<in> {2048, 4096} \<and> RSA_exponent_word lib r \<in> {3, 65537})
      | KEY_TYPE_EC \<Rightarrow> cert_rsa k = None \<and> (\<exists>e g. cert_ec k = Some e \<and>
          EC_KEY_get0_group lib e = Some g \<and> EC_GROUP_get_degree lib g = 256))"

definition loaded_from :: "('x, 'k, 'rsa, 'ec, 'g) x509_lib \<Rightarrow> zip_entry \<Rightarrow> ('rsa, 'ec) certificate \<Rightarrow> bool" where
  "loaded_from lib e k \<longleftrightarrow> (\<exists>pem. ze_extract e = Some pem \<and>
     LoadCertificateFromBuffer lib pem \<lparr>hash_len = 0, cert_key_type = KEY_TYPE_RSA, cert_rsa = None, cert_ec = None\<rparr>
       = (True, k))"

lemma CheckRSAKey_iff:
  "CheckRSAKey lib k \<longleftrightarrow>
     (\<exists>r. k = Some r \<and> RSA_modulus_bits lib r \<in> {2048, 4096} \<and> RSA_exponent_word lib r \<in> {3, 65537})"
  by (auto simp: CheckRSAKey_def Let_def split: option.split)

lemma CheckECKey_iff:
  "CheckECKey lib k \<longleftrightarrow> (\<exists>e g. k = Some e \<and> EC_KEY_get0_group lib e = Some g \<and> EC_GROUP_get_degree lib g = 256)"
  by (auto simp: CheckECKey_def split: option.split)

lemma hash_len_of_nid_range: "hash_len_of_nid nid = Some n \<Longrightarrow> n = 20 \<or> n = 32"
  by (cases nid) (auto simp: hash_len_of_nid_def SHA_DIGEST_LENGTH_def SHA256_DIGEST_LENGTH_def)

lemma LoadCertificateFromBuffer_checked:
  assumes "LoadCertificateFromBuffer lib pem c = (True, k)"
  shows "key_checked lib k"
proof -
  obtain x n pk where x: "PEM_read_bio_X509 lib pem = Some x" "hash_len_of_nid (X509_get_signature_nid lib x) = Some n"
    "X509_get_pubkey lib x = Some pk"
    using assms by (auto simp: LoadCertificateFromBuffer_def Let_def split: option.splits)
  note load = assms [unfolded LoadCertificateFromBuffer_def x option.case Let_def, simplified]
  show ?thesis
  proof (cases "EVP_PKEY_id lib pk")
    case EVP_PKEY_RSA
    with load have "CheckRSAKey lib (EVP_PKEY_get1_RSA lib pk)"
      "k = c\<lparr>hash_len := n, cert_key_type := KEY_TYPE_RSA, cert_ec := None, cert_rsa := EVP_PKEY_get1_RSA lib pk\<rparr>"
      by (simp_all split: if_splits)
    then show ?thesis using hash_len_of_nid_range [OF x(2)] by (simp add: key_checked_def CheckRSAKey_iff)
  next
    case EVP_PKEY_EC
    with load have "CheckECKey lib (EVP_PKEY_get1_EC_KEY lib pk)"
      "k = c\<lparr>hash_len := n, cert_key_type := KEY_TYPE_EC, cert_rsa := None, cert_ec := EVP_PKEY_get1_EC_KEY lib pk\<rparr>"
      by (simp_all split: if_splits)
    then show ?thesis using hash_len_of_nid_range [OF x(2)] by (simp add: key_checked_def CheckECKey_iff)
  next
    case (EVP_PKEY_other m)
    with load show ?thesis by simp
  qed
qed

lemma load_entries_all:
  "load_entries lib es acc = Some ks \<Longrightarrow> \<exists>ks'. ks = acc @ ks' \<and> list_all2 (loaded_from lib) es ks'"
proof (induction es arbitrary: acc)
  case (Cons e es)
  let ?c = "\<lparr>hash_len = 0, cert_key_type = KEY_TYPE_RSA, cert_rsa = None, cert_ec = None\<rparr>"
  obtain pem k where pem: "ze_extract e = Some pem" "LoadCertificateFromBuffer lib pem ?c = (True, k)"
    "load_entries lib es (acc @ [k]) = Some ks"
    using Cons.prems by (auto simp: Let_def split: option.splits prod.splits bool.splits if_splits)
  then have "loaded_from lib e k" by (auto simp: loaded_from_def)
  moreover obtain ks' where "ks = (acc @ [k]) @ ks'" "list_all2 (loaded_from lib) es ks'" using Cons.IH [OF pem(3)] by blast
  ultimately show ?case by (intro exI [of _ "k # ks'"]) simp
qed simp

section \<open>Properties of the verifier\<close>

text \<open>A concrete signature scheme and package for the witnesses.\<close>

definition toy_digest :: "bytes digest_alg" where
  "toy_digest = \<lparr>dg_Init = [], dg_Update = (@), dg_Final = take 2\<rparr>"

lemma foldl_append_concat: "foldl (@) xs yss = xs @ concat yss"
  by (induction yss arbitrary: xs) simp_all

interpretation toy: digest toy_digest "take 2"
  by unfold_locales (simp add: toy_digest_def foldl_append_concat)

definition toy_crypto :: "(bytes, unit, unit) crypto" where
  "toy_crypto = \<lparr>cr_sha1 = toy_digest, cr_sha256 = toy_digest,
     cr_RSA_verify = (\<lambda>nid h sig k. k = Some () \<and> sig = rev h), cr_ECDSA_verify = (\<lambda>h sig k. False)\<rparr>"

lemma toy_crypto_digests: "digest (cr_sha1 toy_crypto) (take 2)" "digest (cr_sha256 toy_crypto) (take 2)"
  by (simp_all add: toy_crypto_def toy.digest_axioms)

definition toy_key :: "(unit, unit) certificate" where
  "toy_key = \<lparr>hash_len = 32, cert_key_type = KEY_TYPE_RSA, cert_rsa = Some (), cert_ec = None\<rparr>"

definition toy_block :: "bytes \<Rightarrow> bytes" where
  "toy_block sig = pkcs7_block (6, [1]) ((2, [1]), (49, []), (48, [])) [(160, [9])] ((2, [1]), (48, []), (48, []), (48, [])) sig"

definition toy_file :: "bytes \<Rightarrow> bytes" where
  "toy_file sig = signed_file [1, 2, 3] (eocd_magic @ replicate 16 0) [7] (toy_block sig)"

lemma der_short: "length x < 128 \<Longrightarrow> der t x = t # of_nat (length x) # x"
  by (simp add: der_def der_len_octets_def)

lemma toy_block_bytes: "length sig = 2 \<Longrightarrow> toy_block sig =
    [48, 34, 6, 1, 1, 160, 29, 48, 27, 2, 1, 1, 49, 0, 48, 0, 160, 1, 9, 49, 15, 48, 13, 2, 1, 1, 48, 0, 48, 0, 48, 0, 4, 2] @ sig"
  by (simp add: toy_block_def pkcs7_block_def der_short)

lemma toy_marks:
  assumes "length sig = 2" "80 \<notin> set sig"
  shows "\<forall>k\<in>{4..<length [7 :: u8] + length (toy_block sig) + 25}.
      take 4 (drop k ((eocd_magic @ replicate 16 0) @ le16_bytes (length [7 :: u8] + length (toy_block sig) + 6) @
        signed_comment [7] (toy_block sig))) \<noteq> eocd_magic"
proof
  fix k assume k: "k \<in> {4..<length [7 :: u8] + length (toy_block sig) + 25}"
  define rst where "rst = replicate 16 (0 :: u8) @ le16_bytes (length [7 :: u8] + length (toy_block sig) + 6) @
        signed_comment [7] (toy_block sig)"
  have "80 \<notin> set rst"
    using assms by (auto simp: rst_def signed_comment_def le16_bytes_def toy_block_bytes)
  moreover have "set (take 4 (drop (k - 4) rst)) \<subseteq> set rst" by (meson order_trans set_drop_subset set_take_subset)
  moreover have "drop k (eocd_magic @ rst) = drop (k - 4) rst" using k by (simp add: drop_Cons' eocd_magic_def numeral_eq_Suc)
  ultimately have "take 4 (drop k (eocd_magic @ rst)) \<noteq> eocd_magic"
    by (metis eocd_magic_def list.set_intros(1) subsetD)
  moreover have "(eocd_magic @ replicate 16 0) @ le16_bytes (length [7 :: u8] + length (toy_block sig) + 6) @
      signed_comment [7] (toy_block sig) = eocd_magic @ rst"
    unfolding rst_def by (rule append_assoc)
  ultimately show "take 4 (drop k ((eocd_magic @ replicate 16 0) @
        le16_bytes (length [7 :: u8] + length (toy_block sig) + 6) @ signed_comment [7] (toy_block sig))) \<noteq> eocd_magic"
    by (simp only: not_False_eq_True)
qed

lemma toy_file_signature:
  assumes "length sig = 2" "80 \<notin> set sig"
  shows "whole_file_signature (toy_file sig) = Some ([1, 2, 3] @ eocd_magic @ replicate 16 0, toy_block sig)"
    "pkcs7_signature (toy_block sig) = Some sig"
proof -
  show "whole_file_signature (toy_file sig) = Some ([1, 2, 3] @ eocd_magic @ replicate 16 0, toy_block sig)"
    unfolding toy_file_def
    by (rule whole_file_signature_signed [OF _ _ _ _ toy_marks [OF assms]])
       (use assms in \<open>simp_all add: eocd_magic_def toy_block_bytes\<close>)
  show "pkcs7_signature (toy_block sig) = Some sig"
    unfolding toy_block_def
    by (rule pkcs7_signature_block) (use assms toy_block_bytes in \<open>auto simp: toy_block_def\<close>)
qed

lemma length_toy_file: "length sig = 2 \<Longrightarrow> length (toy_file sig) = 68"
  by (simp add: toy_file_def signed_file_def signed_comment_def le16_bytes_def toy_block_bytes eocd_magic_def)

lemma toy_verdict:
  assumes "length sig = 2" "80 \<notin> set sig"
  shows "verdict toy_crypto (take 2) (take 2) (toy_file sig) [toy_key] = (if sig = [2, 1] then VERIFY_SUCCESS else VERIFY_FAILURE)"
  using toy_file_signature [OF assms]
  by (simp add: verdict_def key_accepts_def toy_key_def toy_crypto_def)

text \<open>C14. \<open>read_pkcs7\<close> reads nothing outside its buffer and returns on every input, with the signature value of
  the PKCS #7 grammar when the block has one and \<open>false\<close> otherwise.\<close>

theorem read_pkcs7_refines:
  assumes "length buf < 2 ^ 64"
  shows "read_pkcs7 buf (of_nat (length buf)) = Some (pkcs7_signature buf)"
  using assms by (rule read_pkcs7_grammar)

theorem read_pkcs7_refines_witness: "read_pkcs7 [48, 3, 1] 3 = Some None"
  using read_pkcs7_refines [of "[48, 3, 1]"] by (simp add: pkcs7_signature_def content_if_Cons der_length_def)

text \<open>A signature block with the structure in the comment above \<open>read_pkcs7\<close>, whatever the elements it does not
  look at, is read back to its signature value.\<close>

theorem read_pkcs7_roundtrip:
  assumes "length (pkcs7_block ct data extras info sig) < 65536" "sig \<noteq> []" "\<forall>(t, x)\<in>set extras. unat t div 32 = 5"
  shows "read_pkcs7 (pkcs7_block ct data extras info sig) (of_nat (length (pkcs7_block ct data extras info sig))) = Some (Some sig)"
  using read_pkcs7_grammar [of "pkcs7_block ct data extras info sig"] pkcs7_signature_block [OF assms] assms(1) by simp

theorem read_pkcs7_roundtrip_witness: "read_pkcs7 (toy_block [4, 2]) (of_nat (length (toy_block [4, 2]))) = Some (Some [4, 2])"
  unfolding toy_block_def by (rule read_pkcs7_roundtrip) (use toy_block_bytes in \<open>simp_all add: toy_block_def\<close>)

text \<open>C2. For a package behind a file descriptor whose content does not change, \<open>verify_file\<close> returns exactly the
  verdict of the specification: success if and only if the package ends in a well-formed signature and one of
  the keys accepts it for the digest of the signed part.\<close>

theorem verify_file_refines:
  assumes "stable_device rd dev" "unat (flp_package_size p) = length dev"
    and "digest (cr_sha1 cr) d1" "digest (cr_sha256 cr) d256"
  shows "verify_file cr (file_interface rd p) keys = Some (verdict cr d1 d256 dev keys)"
  using package_source.verify_file_verdict [OF stable_device.file_package_source [OF assms(1)] assms(2-4)] .

theorem verify_file_refines_witness:
  "verify_file toy_crypto (file_interface (pread_list (toy_file [2, 1])) (FilePackage_of 68 ''/a.zip'')) [toy_key] =
    Some VERIFY_SUCCESS"
  using verify_file_refines [OF mem_device.stable_device_axioms _ toy_crypto_digests,
      of "FilePackage_of 68 ''/a.zip''" "toy_file [2, 1]" "[toy_key]"]
  by (simp add: FilePackage_of_def length_toy_file toy_verdict)

text \<open>C3. A package that \<open>verify_file\<close> accepts ends in a footer and an end-of-central-directory record whose
  magic number does not occur again, and one of the given keys verifies the signature of its PKCS #7 block
  for the digest of exactly the bytes in front of the archive comment.\<close>

theorem verify_file_accepts_only_signed:
  assumes "memory_ok p" "digest (cr_sha1 cr) d1" "digest (cr_sha256 cr) d256"
    and "verify_file cr (memory_interface p) keys = Some VERIFY_SUCCESS"
  shows "\<exists>body a b pre block foot sig key. mp_addr p = body @ [a, b] @ pre @ block @ foot \<and> length foot = 6 \<and>
    20 \<le> length body \<and> take 4 (drop (length body - 20) body) = eocd_magic \<and>
    (\<forall>k. length body - 20 < k \<longrightarrow> take 4 (drop k (mp_addr p)) \<noteq> eocd_magic) \<and>
    pkcs7_signature block = Some sig \<and> sig \<noteq> [] \<and> key \<in> set keys \<and> key_accepts cr (d1 body) (d256 body) sig key"
proof -
  obtain body block sig where s: "whole_file_signature (mp_addr p) = Some (body, block)" "pkcs7_signature block = Some sig"
    "list_ex (key_accepts cr (d1 body) (d256 body) sig) keys"
    using assms(4) memory_source.verify_file_verdict [OF assms(1-3)]
    by (auto simp: verdict_def split: option.splits prod.splits if_splits)
  then show ?thesis
    using whole_file_signature_shape [OF s(1)] pkcs7_signature_nonempty [of block] unfolding list_ex_iff
    by (metis (no_types, lifting))
qed

theorem verify_file_accepts_only_signed_witness:
  "\<exists>body a b pre block foot sig. toy_file [2, 1] = body @ [a, b] @ pre @ block @ foot \<and> length foot = 6 \<and>
    20 \<le> length body \<and> pkcs7_signature block = Some sig \<and> sig = rev (take 2 body)"
proof -
  let ?m = "\<lparr>mp_addr = toy_file [2, 1], mp_package_size = 68, mp_path = [], mp_zip_handle = None\<rparr> :: unit memory_package"
  have ok: "memory_ok ?m" by (simp add: memory_ok_def length_toy_file)
  have "verify_file toy_crypto (memory_interface ?m) [toy_key] = Some VERIFY_SUCCESS"
    using memory_source.verify_file_verdict [OF ok toy_crypto_digests, of "[toy_key]"] by (simp add: toy_verdict)
  from verify_file_accepts_only_signed [OF ok toy_crypto_digests this] show ?thesis
    by (auto simp: key_accepts_def toy_key_def toy_crypto_def) blast
qed

text \<open>C19. The verdict does not depend on how the package is held: a package read from a file and the same bytes in
  memory are accepted or refused alike.\<close>

theorem verify_file_same_for_memory_and_file:
  assumes "stable_device rd content" "length content < 2 ^ 64" "content \<noteq> []"
    and "CreateFilePackage open_ok seek_end path = Some p" "unat (seek_end path) = length content"
    and "MemoryPackage_content content = Ret m"
    and "digest (cr_sha1 cr) d1" "digest (cr_sha256 cr) d256"
  shows "verify_file cr (file_interface rd p) keys = verify_file cr (memory_interface m) keys"
proof -
  have p: "unat (flp_package_size p) = length content"
    using assms(4,5) by (auto simp: CreateFilePackage_def Let_def FilePackage_of_def split: if_splits)
  have m: "memory_ok m" "mp_addr m = content"
    using assms(2,3,6) by (auto simp: MemoryPackage_content_def memory_ok_def unat_of_nat_small)
  show ?thesis
    using package_source.verify_file_verdict [OF stable_device.file_package_source [OF assms(1)] p assms(7,8)]
      memory_source.verify_file_verdict [OF m(1) assms(7,8)] by (simp add: m(2))
qed

theorem verify_file_same_for_memory_and_file_witness:
  "verify_file toy_crypto (file_interface (pread_list (toy_file [2, 2])) (FilePackage_of 68 ''/a.zip'')) [toy_key] =
   verify_file toy_crypto (memory_interface \<lparr>mp_addr = toy_file [2, 2], mp_package_size = 68, mp_path = [], mp_zip_handle = None\<rparr>) [toy_key]"
proof (rule verify_file_same_for_memory_and_file [OF mem_device.stable_device_axioms _ _ _ _ _ toy_crypto_digests])
  show "length (toy_file [2, 2]) < 2 ^ 64" "toy_file [2, 2] \<noteq> []"
    using length_toy_file [of "[2, 2]"] by auto
  show "CreateFilePackage (\<lambda>_. True) (\<lambda>_. 68) ''/a.zip'' = Some (FilePackage_of 68 ''/a.zip'')"
    by (simp add: CreateFilePackage_def)
  show "unat (68 :: u64) = length (toy_file [2, 2])" by (simp add: length_toy_file)
  show "MemoryPackage_content (toy_file [2, 2]) =
      Ret \<lparr>mp_addr = toy_file [2, 2], mp_package_size = 68, mp_path = [], mp_zip_handle = None\<rparr>"
    using length_toy_file [of "[2, 2]"] by (auto simp: MemoryPackage_content_def)
qed

text \<open>C20. A package put together as the signing tool does, with a signature that one of the keys accepts for the
  digest of the archive and its record, passes the check.\<close>

theorem verify_file_accepts_signed:
  assumes "memory_ok p" "digest (cr_sha1 cr) d1" "digest (cr_sha256 cr) d256"
    and "mp_addr p = signed_file entries eocd pre (pkcs7_block ct data extras info sig)"
    and "length eocd = 20" "take 4 eocd = eocd_magic" "sig \<noteq> []" "\<forall>(t, x)\<in>set extras. unat t div 32 = 5"
    and "length pre + length (pkcs7_block ct data extras info sig) + 6 < 65536"
    and "\<forall>k\<in>{4..<length pre + length (pkcs7_block ct data extras info sig) + 25}.
      take 4 (drop k (eocd @ le16_bytes (length pre + length (pkcs7_block ct data extras info sig) + 6) @
        signed_comment pre (pkcs7_block ct data extras info sig))) \<noteq> eocd_magic"
    and "list_ex (key_accepts cr (d1 (entries @ eocd)) (d256 (entries @ eocd)) sig) keys"
  shows "verify_file cr (memory_interface p) keys = Some VERIFY_SUCCESS"
proof -
  have "pkcs7_block ct data extras info sig \<noteq> []" by (simp add: pkcs7_block_def split: prod.split)
  then have "whole_file_signature (mp_addr p) = Some (entries @ eocd, pkcs7_block ct data extras info sig)"
    unfolding assms(4) using assms(5,6,9,10) by (intro whole_file_signature_signed)
  moreover have "pkcs7_signature (pkcs7_block ct data extras info sig) = Some sig"
    using assms(7-9) by (intro pkcs7_signature_block) simp_all
  ultimately show ?thesis
    using memory_source.verify_file_verdict [OF assms(1-3)] assms(11) by (simp add: verdict_def)
qed

theorem verify_file_accepts_signed_witness:
  "verify_file toy_crypto (memory_interface \<lparr>mp_addr = toy_file [2, 1], mp_package_size = 68, mp_path = [], mp_zip_handle = None\<rparr>) [toy_key] =
    Some VERIFY_SUCCESS"
proof (rule verify_file_accepts_signed [OF _ toy_crypto_digests])
  show "memory_ok \<lparr>mp_addr = toy_file [2, 1], mp_package_size = 68, mp_path = [], mp_zip_handle = None\<rparr>"
    by (simp add: memory_ok_def length_toy_file)
  show "mp_addr \<lparr>mp_addr = toy_file [2, 1], mp_package_size = 68, mp_path = [], mp_zip_handle = None\<rparr> =
    signed_file [1, 2, 3] (eocd_magic @ replicate 16 0) [7]
      (pkcs7_block (6, [1]) ((2, [1]), (49, []), (48, [])) [(160, [9])] ((2, [1]), (48, []), (48, []), (48, [])) [2, 1])"
    by (simp add: toy_file_def toy_block_def)
  show "list_ex (key_accepts toy_crypto (take 2 ([1, 2, 3] @ eocd_magic @ replicate 16 0))
      (take 2 ([1, 2, 3] @ eocd_magic @ replicate 16 0)) [2, 1]) [toy_key]"
    by (simp add: key_accepts_def toy_key_def toy_crypto_def)
qed (use toy_block_bytes [of "[2, 1]"] toy_marks [of "[2, 1]"] in \<open>simp_all add: eocd_magic_def toy_block_def\<close>)

text \<open>C35. \<open>verify_file\<close> does not look at the result of \<open>UpdateHashAtOffset\<close>: when every hash update fails, the
  signature is compared with the digest of the empty string, and a package whose signature fits that digest
  is accepted whatever its bytes.\<close>

theorem verify_file_ignores_hash_failure:
  assumes "memory_ok p" "digest (cr_sha1 cr) d1" "digest (cr_sha256 cr) d256"
  shows "verify_file cr ((memory_interface p)\<lparr>vi_UpdateHashAtOffset := \<lambda>hs start len. (False, hs)\<rparr>) keys =
    Some (verdict cr (\<lambda>_. d1 []) (\<lambda>_. d256 []) (mp_addr p) keys)"
  by (rule memory_source.verify_file_hash_fails [OF assms])

theorem verify_file_ignores_hash_failure_witness:
  "verify_file toy_crypto ((memory_interface \<lparr>mp_addr = toy_file [2, 1], mp_package_size = 68, mp_path = [], mp_zip_handle = None\<rparr>)
      \<lparr>vi_UpdateHashAtOffset := \<lambda>hs start len. (False, hs)\<rparr>) [toy_key] = Some VERIFY_FAILURE"
  using verify_file_ignores_hash_failure [OF _ toy_crypto_digests,
      of "\<lparr>mp_addr = toy_file [2, 1], mp_package_size = 68, mp_path = [], mp_zip_handle = None\<rparr>" "[toy_key]"]
    toy_file_signature [of "[2, 1]"]
  by (simp add: memory_ok_def length_toy_file verdict_def key_accepts_def toy_key_def toy_crypto_def)

text \<open>C30. The certificates of the key archive are loaded all or not at all: the list of keys is empty, or there is
  one key for every entry. Every loaded key uses a known digest and passed the checks on its size: an RSA
  modulus of 2048 or 4096 bits with exponent 3 or 65537, or a curve of degree 256.\<close>

theorem LoadKeysFromZipfile_checked:
  "list_all (key_checked lib) (LoadKeysFromZipfile lib open_archive zip_name) \<and>
   (LoadKeysFromZipfile lib open_archive zip_name = [] \<or>
    (\<exists>a. open_archive zip_name = Some a \<and> za_start_status a = 0 \<and> za_end_status a = - 1 \<and>
       list_all2 (loaded_from lib) (za_entries a) (LoadKeysFromZipfile lib open_archive zip_name)))"
proof -
  have "list_all (key_checked lib) ks" if "list_all2 (loaded_from lib) es ks" for es ks
    using that by (induction rule: list_all2_induct) (auto simp: loaded_from_def dest: LoadCertificateFromBuffer_checked)
  then show ?thesis
    by (auto simp: LoadKeysFromZipfile_def IterateZipEntriesAndSearchForKeys_def split: option.split dest!: load_entries_all)
qed

end
