(* ===== verification/Bootloader_Message.thy ===== *)
theory Bootloader_Message
  imports Recovery_Prelude
begin

text \<open>
  The messages kept in the misc partition, \<open>bootloader_message/bootloader_message.cpp\<close> and its header: the
  bootloader control block, the wipe package and the messages of the system space. The partition is the list
  of its bytes; \<open>misc_env\<close> gives the outcomes of the system calls. An operation returns its error as a value
  (the texts of the messages are not modelled) next to the new content.
\<close>

section \<open>The partition\<close>

datatype misc_error =
  FstabRead | NoMisc | StatFailed | OpenFailed | LseekFailed | ReadFailed | WriteFailed | FsyncFailed |
  CommandPending | WipePackageTooBig | OutOfBound

record fstab_entry =
  fe_mount_point :: string
  fe_blk_device :: string
  fe_fs_type :: string
  fe_encryptable :: bool

record misc_env =
  me_test_device :: "string option"
  me_fstab :: "fstab_entry list option"
  me_stat_ok :: "nat \<Rightarrow> bool"
  me_open_r :: bool
  me_lseek_r :: bool
  me_read :: bool
  me_open_w :: bool
  me_lseek_w :: bool
  me_write :: bool
  me_written :: nat
  me_fsync :: bool

definition BOOTLOADER_MESSAGE_OFFSET_IN_MISC :: nat where "BOOTLOADER_MESSAGE_OFFSET_IN_MISC = 0"
definition WIPE_PACKAGE_OFFSET_IN_MISC :: nat where "WIPE_PACKAGE_OFFSET_IN_MISC = 16384"
definition SYSTEM_SPACE_OFFSET_IN_MISC :: size_t where "SYSTEM_SPACE_OFFSET_IN_MISC = 32768"
definition SYSTEM_SPACE_SIZE_IN_MISC :: size_t where "SYSTEM_SPACE_SIZE_IN_MISC = 32768"

definition get_misc_blk_device :: "misc_env \<Rightarrow> misc_error + string" where
  "get_misc_blk_device env =
     (case me_test_device env of
        Some (c # d) \<Rightarrow> Inr (c # d)
      | _ \<Rightarrow>
        (case me_fstab env of None \<Rightarrow> Inl FstabRead
         | Some fstab \<Rightarrow>
           (case find (\<lambda>entry. fe_mount_point entry = ''/misc'') fstab of
              None \<Rightarrow> Inl NoMisc
            | Some entry \<Rightarrow> Inr (fe_blk_device entry))))"

text \<open>The empty name, which the callers test for, is an error or an entry without a device.\<close>

definition misc_device :: "misc_env \<Rightarrow> misc_error + string" where
  "misc_device env =
     (case get_misc_blk_device env of Inl e \<Rightarrow> Inl e
      | Inr d \<Rightarrow> if d = [] then Inl NoMisc else Inr d)"

text \<open>Up to ten attempts; \<open>tries\<close> counts those made.\<close>

function wait_loop :: "misc_env \<Rightarrow> nat \<Rightarrow> bool" where
  "wait_loop env tries =
     (let tries = tries + 1; ret = me_stat_ok env tries in
      if \<not> ret \<and> tries < 10 then wait_loop env tries else ret)"
  by pat_completeness auto
termination by (relation "measure (\<lambda>(env, tries). 10 - tries)") auto

declare wait_loop.simps [simp del]

definition wait_for_device :: "misc_env \<Rightarrow> misc_error + unit" where
  "wait_for_device env = (if wait_loop env 0 then Inr () else Inl StatFailed)"

definition overwrite :: "nat \<Rightarrow> bytes \<Rightarrow> bytes \<Rightarrow> bytes" where
  "overwrite off d dev = take off dev @ d @ drop (off + length d) dev"

definition read_misc_partition :: "misc_env \<Rightarrow> nat \<Rightarrow> nat \<Rightarrow> bytes \<Rightarrow> misc_error + bytes" where
  "read_misc_partition env sz off dev =
     (case wait_for_device env of Inl e \<Rightarrow> Inl e
      | Inr _ \<Rightarrow>
        if \<not> me_open_r env then Inl OpenFailed
        else if \<not> me_lseek_r env then Inl LseekFailed
        else if \<not> (me_read env \<and> off + sz \<le> length dev) then Inl ReadFailed
        else Inr (take sz (drop off dev)))"

text \<open>A failed \<open>WriteFully\<close> has written some first part of the data.\<close>

definition write_misc_partition :: "misc_env \<Rightarrow> bytes \<Rightarrow> nat \<Rightarrow> bytes \<Rightarrow> (misc_error + unit) \<times> bytes" where
  "write_misc_partition env p off dev =
     (if \<not> me_open_w env then (Inl OpenFailed, dev)
      else if \<not> me_lseek_w env then (Inl LseekFailed, dev)
      else if \<not> (me_write env \<and> off + length p \<le> length dev)
      then (Inl WriteFailed, overwrite off (take (min (me_written env) (length dev - off)) p) dev)
      else if \<not> me_fsync env then (Inl FsyncFailed, overwrite off p dev)
      else (Inr (), overwrite off p dev))"

definition get_bootloader_message_blk_device :: "misc_env \<Rightarrow> misc_error + string" where
  "get_bootloader_message_blk_device env =
     (case misc_device env of Inl e \<Rightarrow> Inl e
      | Inr d \<Rightarrow> (case wait_for_device env of Inl e \<Rightarrow> Inl e | Inr _ \<Rightarrow> Inr d))"

section \<open>The bootloader control block\<close>

record bootloader_message =
  blm_command :: bytes
  blm_status :: bytes
  blm_recovery :: bytes
  blm_stage :: bytes
  blm_reserved :: bytes

definition boot_zero :: bootloader_message where
  "boot_zero = \<lparr>blm_command = replicate 32 0, blm_status = replicate 32 0, blm_recovery = replicate 768 0,
     blm_stage = replicate 32 0, blm_reserved = replicate 1184 0\<rparr>"

definition boot_bytes :: "bootloader_message \<Rightarrow> bytes" where
  "boot_bytes m = blm_command m @ blm_status m @ blm_recovery m @ blm_stage m @ blm_reserved m"

definition boot_of_bytes :: "bytes \<Rightarrow> bootloader_message" where
  "boot_of_bytes bs = \<lparr>blm_command = take 32 bs, blm_status = take 32 (drop 32 bs),
     blm_recovery = take 768 (drop 64 bs), blm_stage = take 32 (drop 832 bs), blm_reserved = take 1184 (drop 864 bs)\<rparr>"

definition read_bootloader_message_from :: "misc_env \<Rightarrow> bytes \<Rightarrow> misc_error + bootloader_message" where
  "read_bootloader_message_from env dev =
     (case read_misc_partition env 2048 BOOTLOADER_MESSAGE_OFFSET_IN_MISC dev of
        Inl e \<Rightarrow> Inl e | Inr bs \<Rightarrow> Inr (boot_of_bytes bs))"

definition read_bootloader_message :: "misc_env \<Rightarrow> bytes \<Rightarrow> misc_error + bootloader_message" where
  "read_bootloader_message env dev =
     (case misc_device env of Inl e \<Rightarrow> Inl e | Inr _ \<Rightarrow> read_bootloader_message_from env dev)"

definition write_bootloader_message_to ::
  "misc_env \<Rightarrow> bootloader_message \<Rightarrow> bytes \<Rightarrow> (misc_error + unit) \<times> bytes" where
  "write_bootloader_message_to env boot dev =
     write_misc_partition env (boot_bytes boot) BOOTLOADER_MESSAGE_OFFSET_IN_MISC dev"

definition write_bootloader_message ::
  "misc_env \<Rightarrow> bootloader_message \<Rightarrow> bytes \<Rightarrow> (misc_error + unit) \<times> bytes" where
  "write_bootloader_message env boot dev =
     (case misc_device env of Inl e \<Rightarrow> (Inl e, dev) | Inr _ \<Rightarrow> write_bootloader_message_to env boot dev)"

definition clear_bootloader_message :: "misc_env \<Rightarrow> bytes \<Rightarrow> (misc_error + unit) \<times> bytes" where
  "clear_bootloader_message env dev = write_bootloader_message env boot_zero dev"

text \<open>\<open>strlcpy\<close> into a field of \<open>length field\<close> bytes, and C string literals as bytes.\<close>

definition strlcpy :: "bytes \<Rightarrow> bytes \<Rightarrow> bytes" where
  "strlcpy src field =
     (let s = take (length field - 1) (takeWhile (\<lambda>b. b \<noteq> 0) src) in s @ [0] @ drop (length s + 1) field)"

definition str :: "string \<Rightarrow> bytes" where
  "str s = map of_char s"

text \<open>
  The text of the recovery field. \<open>back()\<close> of an empty option is undefined, which is the result \<open>None\<close>.
\<close>

fun recovery_text :: "bytes list \<Rightarrow> bytes \<Rightarrow> bytes option" where
  "recovery_text [] recovery = Some recovery"
| "recovery_text (s # options) recovery =
     (if s = [] then None
      else let recovery = recovery @ s in
        recovery_text options (if last s \<noteq> 10 then recovery @ [10] else recovery))"

definition update_bootloader_message_in_struct ::
  "bootloader_message \<Rightarrow> bytes list \<Rightarrow> bootloader_message option" where
  "update_bootloader_message_in_struct boot options =
     (let boot = boot\<lparr>blm_command := replicate 32 0, blm_recovery := replicate 768 0\<rparr>;
          boot = boot\<lparr>blm_command := strlcpy (str ''boot-recovery'') (blm_command boot)\<rparr> in
      case recovery_text options (str ''recovery'' @ [10]) of None \<Rightarrow> None
      | Some recovery \<Rightarrow> Some (boot\<lparr>blm_recovery := strlcpy recovery (blm_recovery boot)\<rparr>))"

definition write_bootloader_message_options ::
  "misc_env \<Rightarrow> bytes list \<Rightarrow> bytes \<Rightarrow> ((misc_error + unit) \<times> bytes) option" where
  "write_bootloader_message_options env options dev =
     (case update_bootloader_message_in_struct boot_zero options of None \<Rightarrow> None
      | Some boot \<Rightarrow> Some (write_bootloader_message env boot dev))"

definition write_bootloader_message_to_options ::
  "misc_env \<Rightarrow> bytes list \<Rightarrow> bytes \<Rightarrow> ((misc_error + unit) \<times> bytes) option" where
  "write_bootloader_message_to_options env options dev =
     (case update_bootloader_message_in_struct boot_zero options of None \<Rightarrow> None
      | Some boot \<Rightarrow> Some (write_bootloader_message_to env boot dev))"

definition update_bootloader_message ::
  "misc_env \<Rightarrow> bytes list \<Rightarrow> bytes \<Rightarrow> ((misc_error + unit) \<times> bytes) option" where
  "update_bootloader_message env options dev =
     (case read_bootloader_message env dev of Inl e \<Rightarrow> Some (Inl e, dev)
      | Inr boot \<Rightarrow>
        (case update_bootloader_message_in_struct boot options of None \<Rightarrow> None
         | Some boot \<Rightarrow> Some (write_bootloader_message env boot dev)))"

definition write_reboot_bootloader :: "misc_env \<Rightarrow> bytes \<Rightarrow> (misc_error + unit) \<times> bytes" where
  "write_reboot_bootloader env dev =
     (case read_bootloader_message env dev of Inl e \<Rightarrow> (Inl e, dev)
      | Inr boot \<Rightarrow>
        if blm_command boot ! 0 \<noteq> 0 then (Inl CommandPending, dev)
        else write_bootloader_message env
               (boot\<lparr>blm_command := strlcpy (str ''bootonce-bootloader'') (blm_command boot)\<rparr>) dev)"

section \<open>The wipe package and the system space\<close>

definition read_wipe_package :: "misc_env \<Rightarrow> nat \<Rightarrow> bytes \<Rightarrow> misc_error + bytes" where
  "read_wipe_package env sz dev =
     (case misc_device env of Inl e \<Rightarrow> Inl e
      | Inr _ \<Rightarrow> read_misc_partition env sz WIPE_PACKAGE_OFFSET_IN_MISC dev)"

definition kMaximumWipePackageSize :: nat where
  "kMaximumWipePackageSize = unat SYSTEM_SPACE_OFFSET_IN_MISC - WIPE_PACKAGE_OFFSET_IN_MISC"

definition write_wipe_package :: "misc_env \<Rightarrow> bytes \<Rightarrow> bytes \<Rightarrow> (misc_error + unit) \<times> bytes" where
  "write_wipe_package env package_data dev =
     (case misc_device env of Inl e \<Rightarrow> (Inl e, dev)
      | Inr _ \<Rightarrow>
        if length package_data > kMaximumWipePackageSize then (Inl WipePackageTooBig, dev)
        else write_misc_partition env package_data WIPE_PACKAGE_OFFSET_IN_MISC dev)"

definition ValidateSystemSpaceRegion :: "size_t \<Rightarrow> size_t \<Rightarrow> bool" where
  "ValidateSystemSpaceRegion off sz =
     (sz \<le> SYSTEM_SPACE_SIZE_IN_MISC \<and> off \<le> SYSTEM_SPACE_SIZE_IN_MISC - sz)"

definition ReadMiscPartitionSystemSpace :: "misc_env \<Rightarrow> size_t \<Rightarrow> size_t \<Rightarrow> bytes \<Rightarrow> misc_error + bytes" where
  "ReadMiscPartitionSystemSpace env sz off dev =
     (if \<not> ValidateSystemSpaceRegion off sz then Inl OutOfBound
      else case misc_device env of Inl e \<Rightarrow> Inl e
      | Inr _ \<Rightarrow> read_misc_partition env (unat sz) (unat (SYSTEM_SPACE_OFFSET_IN_MISC + off)) dev)"

definition WriteMiscPartitionSystemSpace ::
  "misc_env \<Rightarrow> bytes \<Rightarrow> size_t \<Rightarrow> size_t \<Rightarrow> bytes \<Rightarrow> (misc_error + unit) \<times> bytes" where
  "WriteMiscPartitionSystemSpace env data sz off dev =
     (if \<not> ValidateSystemSpaceRegion off sz then (Inl OutOfBound, dev)
      else case misc_device env of Inl e \<Rightarrow> (Inl e, dev)
      | Inr _ \<Rightarrow> write_misc_partition env data (unat (SYSTEM_SPACE_OFFSET_IN_MISC + off)) dev)"

text \<open>The packed structures of the system space, in the byte order of arm64.\<close>

record misc_virtual_ab_message =
  vab_version :: u8
  vab_magic :: u32
  vab_merge_status :: u8
  vab_source_slot :: u8
  vab_reserved :: bytes

record misc_memtag_message =
  mt_version :: u8
  mt_magic :: u32
  mt_memtag_mode :: u32
  mt_reserved :: bytes

record misc_kcmdline_message =
  kc_version :: u8
  kc_magic :: u32
  kc_kcmdline_flags :: u64
  kc_reserved :: bytes

record misc_control_message =
  ct_version :: u8
  ct_magic :: u32
  ct_misctrl_flags :: u64
  ct_reserved :: bytes

definition vab_bytes :: "misc_virtual_ab_message \<Rightarrow> bytes" where
  "vab_bytes m = [vab_version m] @ le_bytes 4 (unat (vab_magic m)) @ [vab_merge_status m, vab_source_slot m] @ vab_reserved m"

definition vab_of_bytes :: "bytes \<Rightarrow> misc_virtual_ab_message" where
  "vab_of_bytes bs = \<lparr>vab_version = bs ! 0, vab_magic = of_nat (le_val (take 4 (drop 1 bs))),
     vab_merge_status = bs ! 5, vab_source_slot = bs ! 6, vab_reserved = take 57 (drop 7 bs)\<rparr>"

definition mt_bytes :: "misc_memtag_message \<Rightarrow> bytes" where
  "mt_bytes m = [mt_version m] @ le_bytes 4 (unat (mt_magic m)) @ le_bytes 4 (unat (mt_memtag_mode m)) @ mt_reserved m"

definition mt_of_bytes :: "bytes \<Rightarrow> misc_memtag_message" where
  "mt_of_bytes bs = \<lparr>mt_version = bs ! 0, mt_magic = of_nat (le_val (take 4 (drop 1 bs))),
     mt_memtag_mode = of_nat (le_val (take 4 (drop 5 bs))), mt_reserved = take 55 (drop 9 bs)\<rparr>"

definition kc_bytes :: "misc_kcmdline_message \<Rightarrow> bytes" where
  "kc_bytes m = [kc_version m] @ le_bytes 4 (unat (kc_magic m)) @ le_bytes 8 (unat (kc_kcmdline_flags m)) @ kc_reserved m"

definition kc_of_bytes :: "bytes \<Rightarrow> misc_kcmdline_message" where
  "kc_of_bytes bs = \<lparr>kc_version = bs ! 0, kc_magic = of_nat (le_val (take 4 (drop 1 bs))),
     kc_kcmdline_flags = of_nat (le_val (take 8 (drop 5 bs))), kc_reserved = take 51 (drop 13 bs)\<rparr>"

definition ct_bytes :: "misc_control_message \<Rightarrow> bytes" where
  "ct_bytes m = [ct_version m] @ le_bytes 4 (unat (ct_magic m)) @ le_bytes 8 (unat (ct_misctrl_flags m)) @ ct_reserved m"

definition ct_of_bytes :: "bytes \<Rightarrow> misc_control_message" where
  "ct_of_bytes bs = \<lparr>ct_version = bs ! 0, ct_magic = of_nat (le_val (take 4 (drop 1 bs))),
     ct_misctrl_flags = of_nat (le_val (take 8 (drop 5 bs))), ct_reserved = take 51 (drop 13 bs)\<rparr>"

text \<open>Offsets of the structures in \<open>misc_system_space_layout\<close>; each takes 64 bytes.\<close>

definition virtual_ab_offset :: size_t where "virtual_ab_offset = 0"
definition memtag_offset :: size_t where "memtag_offset = 64"
definition kcmdline_offset :: size_t where "kcmdline_offset = 128"
definition control_offset :: size_t where "control_offset = 192"
definition system_space_layout_size :: size_t where "system_space_layout_size = 256"

definition ReadMiscVirtualAbMessage :: "misc_env \<Rightarrow> bytes \<Rightarrow> misc_error + misc_virtual_ab_message" where
  "ReadMiscVirtualAbMessage env dev =
     map_sum id vab_of_bytes (ReadMiscPartitionSystemSpace env 64 virtual_ab_offset dev)"

definition WriteMiscVirtualAbMessage ::
  "misc_env \<Rightarrow> misc_virtual_ab_message \<Rightarrow> bytes \<Rightarrow> (misc_error + unit) \<times> bytes" where
  "WriteMiscVirtualAbMessage env m dev = WriteMiscPartitionSystemSpace env (vab_bytes m) 64 virtual_ab_offset dev"

definition ReadMiscMemtagMessage :: "misc_env \<Rightarrow> bytes \<Rightarrow> misc_error + misc_memtag_message" where
  "ReadMiscMemtagMessage env dev =
     map_sum id mt_of_bytes (ReadMiscPartitionSystemSpace env 64 memtag_offset dev)"

definition WriteMiscMemtagMessage ::
  "misc_env \<Rightarrow> misc_memtag_message \<Rightarrow> bytes \<Rightarrow> (misc_error + unit) \<times> bytes" where
  "WriteMiscMemtagMessage env m dev = WriteMiscPartitionSystemSpace env (mt_bytes m) 64 memtag_offset dev"

definition ReadMiscKcmdlineMessage :: "misc_env \<Rightarrow> bytes \<Rightarrow> misc_error + misc_kcmdline_message" where
  "ReadMiscKcmdlineMessage env dev =
     map_sum id kc_of_bytes (ReadMiscPartitionSystemSpace env 64 kcmdline_offset dev)"

definition WriteMiscKcmdlineMessage ::
  "misc_env \<Rightarrow> misc_kcmdline_message \<Rightarrow> bytes \<Rightarrow> (misc_error + unit) \<times> bytes" where
  "WriteMiscKcmdlineMessage env m dev = WriteMiscPartitionSystemSpace env (kc_bytes m) 64 kcmdline_offset dev"

definition ReadMiscControlMessage :: "misc_env \<Rightarrow> bytes \<Rightarrow> misc_error + misc_control_message" where
  "ReadMiscControlMessage env dev =
     map_sum id ct_of_bytes (ReadMiscPartitionSystemSpace env 64 control_offset dev)"

definition WriteMiscControlMessage ::
  "misc_env \<Rightarrow> misc_control_message \<Rightarrow> bytes \<Rightarrow> (misc_error + unit) \<times> bytes" where
  "WriteMiscControlMessage env m dev = WriteMiscPartitionSystemSpace env (ct_bytes m) 64 control_offset dev"

text \<open>The reserved part is empty when its first byte is 0 and every byte equals the next one.\<close>

definition CheckReservedSystemSpaceEmpty :: "misc_env \<Rightarrow> bytes \<Rightarrow> misc_error + bool" where
  "CheckReservedSystemSpaceEmpty env dev =
     (let kReservedSize = SYSTEM_SPACE_SIZE_IN_MISC - system_space_layout_size in
      case ReadMiscPartitionSystemSpace env kReservedSize system_space_layout_size dev of
        Inl e \<Rightarrow> Inl e
      | Inr space \<Rightarrow>
          let n = unat kReservedSize - 1 in Inr (space ! 0 = 0 \<and> take n space = take n (drop 1 space)))"

section \<open>Reading back what was written\<close>

lemmas misc_offsets = BOOTLOADER_MESSAGE_OFFSET_IN_MISC_def WIPE_PACKAGE_OFFSET_IN_MISC_def
  SYSTEM_SPACE_OFFSET_IN_MISC_def SYSTEM_SPACE_SIZE_IN_MISC_def virtual_ab_offset_def memtag_offset_def
  kcmdline_offset_def control_offset_def system_space_layout_size_def kMaximumWipePackageSize_def

text \<open>The fields with a fixed length.\<close>

definition boot_wf :: "bootloader_message \<Rightarrow> bool" where
  "boot_wf m \<longleftrightarrow> length (blm_command m) = 32 \<and> length (blm_status m) = 32 \<and> length (blm_recovery m) = 768 \<and>
     length (blm_stage m) = 32 \<and> length (blm_reserved m) = 1184"

lemma boot_roundtrip: "boot_wf m \<Longrightarrow> boot_of_bytes (boot_bytes m) = m"
  by (cases m) (simp add: boot_wf_def boot_of_bytes_def boot_bytes_def)

lemma length_boot_bytes: "boot_wf m \<Longrightarrow> length (boot_bytes m) = 2048"
  by (simp add: boot_wf_def boot_bytes_def)

lemma boot_of_bytes_wf: "length bs = 2048 \<Longrightarrow> boot_wf (boot_of_bytes bs)"
  by (simp add: boot_wf_def boot_of_bytes_def)

lemma vab_roundtrip: "length (vab_reserved m) = 57 \<Longrightarrow> vab_of_bytes (vab_bytes m) = m \<and> length (vab_bytes m) = 64"
  by (cases m) (simp add: vab_of_bytes_def vab_bytes_def nth_append)

lemma mt_roundtrip: "length (mt_reserved m) = 55 \<Longrightarrow> mt_of_bytes (mt_bytes m) = m \<and> length (mt_bytes m) = 64"
  by (cases m) (simp add: mt_of_bytes_def mt_bytes_def)

lemma kc_roundtrip: "length (kc_reserved m) = 51 \<Longrightarrow> kc_of_bytes (kc_bytes m) = m \<and> length (kc_bytes m) = 64"
  by (cases m) (simp add: kc_of_bytes_def kc_bytes_def)

lemma ct_roundtrip: "length (ct_reserved m) = 51 \<Longrightarrow> ct_of_bytes (ct_bytes m) = m \<and> length (ct_bytes m) = 64"
  by (cases m) (simp add: ct_of_bytes_def ct_bytes_def)

lemma overwrite_at: "off + length d \<le> length dev \<Longrightarrow> take (length d) (drop off (overwrite off d dev)) = d"
  by (simp add: overwrite_def)

lemma length_overwrite [simp]: "off + length d \<le> length dev \<Longrightarrow> length (overwrite off d dev) = length dev"
  by (simp add: overwrite_def)

lemma overwrite_nth: "off + length d \<le> length dev \<Longrightarrow> i < off \<or> off + length d \<le> i \<Longrightarrow> overwrite off d dev ! i = dev ! i"
  by (auto simp: overwrite_def nth_append)

lemma overwrite_frame:
  assumes "b + n \<le> off \<or> off + len \<le> b" "length d \<le> len" "off + length d \<le> length dev"
  shows "take n (drop b (overwrite off d dev)) = take n (drop b dev)"
  using assms by (intro nth_equalityI) (auto simp: overwrite_nth)

lemma overwrite_Nil [simp]: "overwrite off [] dev = dev"
  by (simp add: overwrite_def)

section \<open>Regions of the partition\<close>

text \<open>
  What a user of one message relies on: it reads back what was written, a write touches nothing outside
  its region even when it fails, and a read depends on its region only.
\<close>

definition can_read :: "misc_env \<Rightarrow> bool" where
  "can_read env \<longleftrightarrow> (\<exists>d. misc_device env = Inr d) \<and> wait_loop env 0 \<and> me_open_r env \<and> me_lseek_r env \<and> me_read env"

locale misc_store =
  fixes put :: "'m \<Rightarrow> bytes \<Rightarrow> (misc_error + unit) \<times> bytes" and get :: "bytes \<Rightarrow> misc_error + 'm"
    and wf :: "'m \<Rightarrow> bool" and off len :: nat and readable :: bool
  assumes put_get: "wf m \<Longrightarrow> put m dev = (Inr (), dev') \<Longrightarrow> readable \<Longrightarrow> get dev' = Inr m"
    and put_frame: "wf m \<Longrightarrow> b + n \<le> off \<or> off + len \<le> b \<Longrightarrow> take n (drop b (snd (put m dev))) = take n (drop b dev)"
    and put_length: "wf m \<Longrightarrow> length (snd (put m dev)) = length dev"
    and get_local: "length dev = length dev' \<Longrightarrow> take len (drop off dev) = take len (drop off dev') \<Longrightarrow> get dev = get dev'"

lemma length_overwrite_take [simp]: "length (overwrite off (take (min k (length dev - off)) p) dev) = length dev"
  by (cases "off \<le> length dev") auto

lemma write_misc_length: "length (snd (write_misc_partition env p off dev)) = length dev"
  by (simp add: write_misc_partition_def)

lemma write_misc_frame:
  assumes "b + n \<le> off \<or> off + len \<le> b" "length p \<le> len"
  shows "take n (drop b (snd (write_misc_partition env p off dev))) = take n (drop b dev)"
proof -
  have "take n (drop b (overwrite off (take (min k (length dev - off)) p) dev)) = take n (drop b dev)" for k
  proof (cases "off \<le> length dev")
    case True
    then show ?thesis using assms by (intro overwrite_frame [where len = len]) auto
  qed simp
  then show ?thesis using assms by (simp add: write_misc_partition_def overwrite_frame)
qed

lemma write_misc_ok:
  "write_misc_partition env p off dev = (Inr (), dev') \<Longrightarrow> off + length p \<le> length dev \<and> dev' = overwrite off p dev"
  by (auto simp: write_misc_partition_def split: if_splits)

lemma read_misc_written:
  assumes "can_read env" "write_misc_partition env' p off dev = (Inr (), dev')"
  shows "read_misc_partition env (length p) off dev' = Inr p"
  using assms write_misc_ok [OF assms(2)] by (simp add: read_misc_partition_def wait_for_device_def can_read_def overwrite_at)

lemma read_misc_local:
  "length dev = length dev' \<Longrightarrow> take sz (drop off dev) = take sz (drop off dev') \<Longrightarrow>
   read_misc_partition env sz off dev = read_misc_partition env sz off dev'"
  by (auto simp: read_misc_partition_def split: sum.split)

interpretation bcb: misc_store "write_bootloader_message env" "read_bootloader_message env" boot_wf 0 2048 "can_read env" for env
proof
  fix m dev dev' and b n :: nat
  assume wf: "boot_wf m"
  note defs = write_bootloader_message_def write_bootloader_message_to_def read_bootloader_message_def
    read_bootloader_message_from_def misc_offsets
  show "read_bootloader_message env dev' = Inr m"
    if "write_bootloader_message env m dev = (Inr (), dev')" "can_read env"
    using that wf read_misc_written [of env env "boot_bytes m" 0 dev dev']
    by (auto simp: defs length_boot_bytes boot_roundtrip can_read_def split: sum.splits)
  show "take n (drop b (snd (write_bootloader_message env m dev))) = take n (drop b dev)" if "b + n \<le> 0 \<or> 0 + 2048 \<le> b"
    using that wf write_misc_frame [of b n 0 2048 "boot_bytes m" env dev]
    by (auto simp: defs length_boot_bytes split: sum.split)
  show "length (snd (write_bootloader_message env m dev)) = length dev"
    by (auto simp: defs write_misc_length split: sum.split)
next
  fix dev dev' :: bytes
  assume "length dev = length dev'" "take 2048 (drop 0 dev) = take 2048 (drop 0 dev')"
  then show "read_bootloader_message env dev = read_bootloader_message env dev'"
    using read_misc_local [of dev dev' 2048 0 env]
    by (simp add: read_bootloader_message_def read_bootloader_message_from_def misc_offsets split: sum.split)
qed

text \<open>The four messages of the system space are stores for one reason.\<close>

lemma system_space_store:
  fixes enc :: "'m \<Rightarrow> bytes"
  assumes "\<And>m. good m \<Longrightarrow> dec (enc m) = m \<and> length (enc m) = 64" "unat off \<le> 32704"
  shows "misc_store (\<lambda>m. WriteMiscPartitionSystemSpace env (enc m) 64 off)
    (\<lambda>dev. map_sum id dec (ReadMiscPartitionSystemSpace env 64 off dev)) good (32768 + unat off) 64 (can_read env)"
proof -
  have valid: "ValidateSystemSpaceRegion off 64"
    using assms(2) by (simp add: ValidateSystemSpaceRegion_def misc_offsets word_le_nat_alt)
  have at: "unat (SYSTEM_SPACE_OFFSET_IN_MISC + off) = 32768 + unat off"
    using assms(2) by (subst unat_add_nowrap) (simp_all add: misc_offsets)
  note defs = WriteMiscPartitionSystemSpace_def ReadMiscPartitionSystemSpace_def valid at
  show ?thesis
  proof
    fix m dev dev' and b n :: nat
    assume wf: "good m"
    note enc = assms(1) [OF wf]
    show "map_sum id dec (ReadMiscPartitionSystemSpace env 64 off dev') = Inr m"
      if "WriteMiscPartitionSystemSpace env (enc m) 64 off dev = (Inr (), dev')" "can_read env"
      using that enc read_misc_written [of env env "enc m" "32768 + unat off" dev dev']
      by (auto simp: defs can_read_def split: sum.splits)
    show "take n (drop b (snd (WriteMiscPartitionSystemSpace env (enc m) 64 off dev))) = take n (drop b dev)"
      if "b + n \<le> 32768 + unat off \<or> 32768 + unat off + 64 \<le> b"
      using write_misc_frame [OF that, of "enc m" env dev] enc by (auto simp: defs split: sum.split)
    show "length (snd (WriteMiscPartitionSystemSpace env (enc m) 64 off dev)) = length dev"
      by (auto simp: defs write_misc_length split: sum.split)
  next
    fix dev dev' :: bytes
    assume "length dev = length dev'" "take 64 (drop (32768 + unat off) dev) = take 64 (drop (32768 + unat off) dev')"
    then show "map_sum id dec (ReadMiscPartitionSystemSpace env 64 off dev) = map_sum id dec (ReadMiscPartitionSystemSpace env 64 off dev')"
      using read_misc_local [of dev dev' 64 "32768 + unat off" env] by (simp add: defs split: sum.split)
  qed
qed

interpretation vab: misc_store "WriteMiscVirtualAbMessage env" "ReadMiscVirtualAbMessage env"
  "\<lambda>m. length (vab_reserved m) = 57" 32768 64 "can_read env" for env
  using system_space_store [of "\<lambda>m. length (vab_reserved m) = 57" vab_of_bytes vab_bytes virtual_ab_offset env]
  by (simp add: vab_roundtrip misc_offsets WriteMiscVirtualAbMessage_def [abs_def] ReadMiscVirtualAbMessage_def [abs_def])

interpretation memtag: misc_store "WriteMiscMemtagMessage env" "ReadMiscMemtagMessage env"
  "\<lambda>m. length (mt_reserved m) = 55" 32832 64 "can_read env" for env
  using system_space_store [of "\<lambda>m. length (mt_reserved m) = 55" mt_of_bytes mt_bytes memtag_offset env]
  by (simp add: mt_roundtrip misc_offsets WriteMiscMemtagMessage_def [abs_def] ReadMiscMemtagMessage_def [abs_def])

interpretation kcmdline: misc_store "WriteMiscKcmdlineMessage env" "ReadMiscKcmdlineMessage env"
  "\<lambda>m. length (kc_reserved m) = 51" 32896 64 "can_read env" for env
  using system_space_store [of "\<lambda>m. length (kc_reserved m) = 51" kc_of_bytes kc_bytes kcmdline_offset env]
  by (simp add: kc_roundtrip misc_offsets WriteMiscKcmdlineMessage_def [abs_def] ReadMiscKcmdlineMessage_def [abs_def])

interpretation control: misc_store "WriteMiscControlMessage env" "ReadMiscControlMessage env"
  "\<lambda>m. length (ct_reserved m) = 51" 32960 64 "can_read env" for env
  using system_space_store [of "\<lambda>m. length (ct_reserved m) = 51" ct_of_bytes ct_bytes control_offset env]
  by (simp add: ct_roundtrip misc_offsets WriteMiscControlMessage_def [abs_def] ReadMiscControlMessage_def [abs_def])

text \<open>All writers of the partition, each with its region and the read that finds its message.\<close>

datatype misc_message =
  MBoot bootloader_message | MWipe bytes | MVab misc_virtual_ab_message | MMemtag misc_memtag_message |
  MKcmdline misc_kcmdline_message | MControl misc_control_message

fun misc_put :: "misc_env \<Rightarrow> misc_message \<Rightarrow> bytes \<Rightarrow> (misc_error + unit) \<times> bytes" where
  "misc_put env (MBoot m) dev = write_bootloader_message env m dev"
| "misc_put env (MWipe d) dev = write_wipe_package env d dev"
| "misc_put env (MVab m) dev = WriteMiscVirtualAbMessage env m dev"
| "misc_put env (MMemtag m) dev = WriteMiscMemtagMessage env m dev"
| "misc_put env (MKcmdline m) dev = WriteMiscKcmdlineMessage env m dev"
| "misc_put env (MControl m) dev = WriteMiscControlMessage env m dev"

fun misc_stored :: "misc_env \<Rightarrow> misc_message \<Rightarrow> bytes \<Rightarrow> bool" where
  "misc_stored env (MBoot m) dev = (read_bootloader_message env dev = Inr m)"
| "misc_stored env (MWipe d) dev = (read_wipe_package env (length d) dev = Inr d)"
| "misc_stored env (MVab m) dev = (ReadMiscVirtualAbMessage env dev = Inr m)"
| "misc_stored env (MMemtag m) dev = (ReadMiscMemtagMessage env dev = Inr m)"
| "misc_stored env (MKcmdline m) dev = (ReadMiscKcmdlineMessage env dev = Inr m)"
| "misc_stored env (MControl m) dev = (ReadMiscControlMessage env dev = Inr m)"

fun misc_wf :: "misc_message \<Rightarrow> bool" where
  "misc_wf (MBoot m) = boot_wf m"
| "misc_wf (MWipe d) = True"
| "misc_wf (MVab m) = (length (vab_reserved m) = 57)"
| "misc_wf (MMemtag m) = (length (mt_reserved m) = 55)"
| "misc_wf (MKcmdline m) = (length (kc_reserved m) = 51)"
| "misc_wf (MControl m) = (length (ct_reserved m) = 51)"

fun region_start :: "misc_message \<Rightarrow> nat" where
  "region_start (MBoot m) = 0"
| "region_start (MWipe d) = 16384"
| "region_start (MVab m) = 32768"
| "region_start (MMemtag m) = 32832"
| "region_start (MKcmdline m) = 32896"
| "region_start (MControl m) = 32960"

fun region_size :: "misc_message \<Rightarrow> nat" where
  "region_size (MBoot m) = 2048"
| "region_size (MWipe d) = 16384"
| "region_size _ = 64"

lemma wipe_frame:
  "b + n \<le> 16384 \<or> 32768 \<le> b \<Longrightarrow> take n (drop b (snd (write_wipe_package env d dev))) = take n (drop b dev)"
  using write_misc_frame [of b n 16384 16384 d env dev]
  by (auto simp: write_wipe_package_def misc_offsets not_less split: sum.split)

lemma misc_put_frame:
  assumes "misc_wf m" "b + n \<le> region_start m \<or> region_start m + region_size m \<le> b"
  shows "take n (drop b (snd (misc_put env m dev))) = take n (drop b dev)"
  using assms bcb.put_frame vab.put_frame memtag.put_frame kcmdline.put_frame control.put_frame wipe_frame
  by (cases m) auto

lemma misc_put_length: "misc_wf m \<Longrightarrow> length (snd (misc_put env m dev)) = length dev"
  by (cases m)
     (auto simp: bcb.put_length vab.put_length memtag.put_length kcmdline.put_length control.put_length
        write_wipe_package_def write_misc_length split: sum.split)

lemma read_wipe_written:
  assumes "can_read env" "write_wipe_package env d dev = (Inr (), dev')"
  shows "read_wipe_package env (length d) dev' = Inr d" "length d \<le> 16384"
  using assms read_misc_written [of env env d 16384 dev dev']
  by (auto simp: write_wipe_package_def read_wipe_package_def misc_offsets not_less can_read_def split: sum.splits if_splits)

lemma misc_put_stored:
  assumes "misc_wf m" "can_read env" "misc_put env m dev = (Inr (), dev')"
  shows "misc_stored env m dev'"
  using assms
  by (cases m)
     (auto intro: bcb.put_get vab.put_get memtag.put_get kcmdline.put_get control.put_get read_wipe_written(1))

lemma regions_apart:
  "region_start m \<noteq> region_start k \<Longrightarrow>
   region_start m + region_size m \<le> region_start k \<or> region_start k + region_size k \<le> region_start m"
  by (cases m; cases k) auto

text \<open>A message that fits its region is found, or not, by the bytes of the region.\<close>

fun misc_fits :: "misc_message \<Rightarrow> bool" where
  "misc_fits (MWipe d) = (length d \<le> 16384)"
| "misc_fits _ = True"

lemma take_drop_prefix: "take a (drop b xs) = take a (drop b ys) \<Longrightarrow> n \<le> a \<Longrightarrow> take n (drop b xs) = take n (drop b ys)"
  by (metis min.absorb1 take_take)

lemma misc_stored_local:
  assumes "misc_fits k" "length dev = length dev'"
    "take (region_size k) (drop (region_start k) dev) = take (region_size k) (drop (region_start k) dev')"
  shows "misc_stored env k dev \<longleftrightarrow> misc_stored env k dev'"
proof (cases k)
  case (MBoot m)
  then show ?thesis using assms bcb.get_local [of dev dev' env] by simp
next
  case (MWipe d)
  have "take (length d) (drop 16384 dev) = take (length d) (drop 16384 dev')"
    using assms(1,3) MWipe take_drop_prefix [of 16384 16384 dev dev' "length d"] by simp
  then have "read_wipe_package env (length d) dev = read_wipe_package env (length d) dev'"
    using assms(2) read_misc_local [of dev dev' "length d" 16384 env]
    by (auto simp: read_wipe_package_def misc_offsets split: sum.split)
  then show ?thesis using MWipe by simp
next
  case (MVab m)
  then show ?thesis using assms vab.get_local [of dev dev' env] by simp
next
  case (MMemtag m)
  then show ?thesis using assms memtag.get_local [of dev dev' env] by simp
next
  case (MKcmdline m)
  then show ?thesis using assms kcmdline.get_local [of dev dev' env] by simp
next
  case (MControl m)
  then show ?thesis using assms control.get_local [of dev dev' env] by simp
qed

lemma misc_put_keeps:
  assumes "misc_wf m" "misc_fits k" "region_start m \<noteq> region_start k"
  shows "misc_stored env k (snd (misc_put env m dev)) \<longleftrightarrow> misc_stored env k dev"
  using assms regions_apart [OF assms(3)] by (intro misc_stored_local misc_put_length misc_put_frame) auto

text \<open>A sequence of writes that all succeed.\<close>

fun misc_put_all :: "misc_env \<Rightarrow> misc_message list \<Rightarrow> bytes \<Rightarrow> bytes option" where
  "misc_put_all env [] dev = Some dev"
| "misc_put_all env (m # ms) dev =
     (case misc_put env m dev of (Inr _, dev) \<Rightarrow> misc_put_all env ms dev | (Inl _, _) \<Rightarrow> None)"

lemma misc_put_fits: "can_read env \<Longrightarrow> misc_put env m dev = (Inr (), dev') \<Longrightarrow> misc_fits m"
  using read_wipe_written(2) by (cases m) auto

lemma misc_put_all_keeps:
  assumes "misc_put_all env ms dev = Some dev'" "list_all misc_wf ms" "misc_fits k" "region_start k \<notin> region_start ` set ms"
  shows "misc_stored env k dev' \<longleftrightarrow> misc_stored env k dev"
  using assms
proof (induction ms arbitrary: dev)
  case (Cons m ms)
  obtain dev1 where "misc_put env m dev = (Inr (), dev1)" "misc_put_all env ms dev1 = Some dev'"
    using Cons.prems(1) by (auto split: prod.splits sum.splits)
  then show ?case using Cons misc_put_keeps [of m k env dev] by auto
qed simp

lemma misc_put_all_stored:
  assumes "misc_put_all env ms dev = Some dev'" "list_all misc_wf ms" "can_read env" "distinct (map region_start ms)"
  shows "list_all (\<lambda>m. misc_stored env m dev') ms"
  using assms
proof (induction ms arbitrary: dev)
  case (Cons m ms)
  obtain dev1 where m: "misc_put env m dev = (Inr (), dev1)" "misc_put_all env ms dev1 = Some dev'"
    using Cons.prems(1) by (auto split: prod.splits sum.splits)
  have "misc_stored env m dev1" using Cons.prems m(1) by (intro misc_put_stored) auto
  then have "misc_stored env m dev'"
    using Cons.prems m misc_put_fits misc_put_all_keeps [OF m(2)] by auto
  moreover have "list_all (\<lambda>m. misc_stored env m dev') ms" using Cons m(2) by auto
  ultimately show ?case by simp
qed simp

section \<open>The recovery command\<close>

text \<open>The C string in a field, and the lines that \<open>recovery_text\<close> builds.\<close>

definition c_str :: "bytes \<Rightarrow> bytes" where
  "c_str field = takeWhile (\<lambda>b. b \<noteq> 0) field"

definition with_newline :: "bytes \<Rightarrow> bytes" where
  "with_newline s = (if last s = 10 then s else s @ [10])"

lemma recovery_text_lines:
  "recovery_text options r = (if [] \<in> set options then None else Some (r @ concat (map with_newline options)))"
  by (induction options arbitrary: r) (auto simp: Let_def with_newline_def)

lemma strlcpy_length: "field \<noteq> [] \<Longrightarrow> length (strlcpy src field) = length field"
proof -
  assume "field \<noteq> []"
  then have "length (take (length field - 1) (takeWhile (\<lambda>b. b \<noteq> 0) src)) < length field" by (cases field) auto
  then show ?thesis by (simp add: strlcpy_def Let_def)
qed

lemma strlcpy_c_str: "c_str (strlcpy src field) = take (length field - 1) (c_str src)"
proof -
  have "takeWhile (\<lambda>b. b \<noteq> 0) (take n (takeWhile (\<lambda>b. b \<noteq> 0) src) @ 0 # r) = take n (takeWhile (\<lambda>b. b \<noteq> 0) src)" for n r
    by (subst takeWhile_append2) (auto dest: in_set_takeD set_takeWhileD)
  then show ?thesis by (simp add: strlcpy_def c_str_def Let_def)
qed

lemma update_in_struct_fields:
  assumes "boot_wf boot"
  shows "update_bootloader_message_in_struct boot options =
    (if [] \<in> set options then None
     else Some (boot\<lparr>blm_command := strlcpy (str ''boot-recovery'') (replicate 32 0),
       blm_recovery := strlcpy (str ''recovery'' @ [10] @ concat (map with_newline options)) (replicate 768 0)\<rparr>))"
  by (simp add: update_bootloader_message_in_struct_def Let_def recovery_text_lines)

lemma zero_run:
  fixes xs :: bytes
  assumes "xs \<noteq> []" "take (length xs - 1) xs = take (length xs - 1) (drop 1 xs)" "xs ! 0 = 0"
  shows "list_all (\<lambda>b. b = 0) xs"
proof -
  have "xs ! i = 0" if "i < length xs" for i
    using that
  proof (induction i)
    case (Suc i)
    have "xs ! i = take (length xs - 1) xs ! i" using Suc.prems by simp
    also have "\<dots> = xs ! Suc i" unfolding assms(2) using Suc.prems by simp
    finally show ?case using Suc by simp
  qed (use assms in simp)
  then show ?thesis by (simp add: list_all_length)
qed

section \<open>Properties of the misc partition\<close>

definition all_ok :: misc_env where
  "all_ok = \<lparr>me_test_device = None,
     me_fstab = Some [\<lparr>fe_mount_point = ''/misc'', fe_blk_device = ''/dev/misc'', fe_fs_type = ''emmc'', fe_encryptable = False\<rparr>],
     me_stat_ok = (\<lambda>n. True), me_open_r = True, me_lseek_r = True, me_read = True, me_open_w = True, me_lseek_w = True,
     me_write = True, me_written = 0, me_fsync = True\<rparr>"

lemma all_ok_device: "misc_device all_ok = Inr ''/dev/misc''"
  by (simp add: misc_device_def get_misc_blk_device_def all_ok_def)

lemma can_read_all_ok: "can_read all_ok"
  by (simp add: can_read_def all_ok_device, subst wait_loop.simps, simp add: all_ok_def)

lemma boot_zero_wf: "boot_wf boot_zero"
  by (simp add: boot_wf_def boot_zero_def)

lemma read_boot_prefix: "can_read env \<Longrightarrow> boot_wf m \<Longrightarrow> read_bootloader_message env (boot_bytes m @ r) = Inr m"
  by (auto simp: read_bootloader_message_def read_bootloader_message_from_def read_misc_partition_def wait_for_device_def
      can_read_def misc_offsets length_boot_bytes boot_roundtrip)

lemma write_all_ok:
  "boot_wf m \<Longrightarrow> 2048 \<le> length dev \<Longrightarrow> write_bootloader_message all_ok m dev = (Inr (), overwrite 0 (boot_bytes m) dev)"
  by (simp add: write_bootloader_message_def all_ok_device write_bootloader_message_to_def write_misc_partition_def
      misc_offsets length_boot_bytes) (simp add: all_ok_def)

text \<open>C9. No writer of the misc partition touches a byte outside its own region, even when a system call fails
  half way, and none changes the size of the partition: 2 KiB for the bootloader message, 16 KiB for the wipe
  package, 64 bytes for each message of the system space.\<close>

theorem misc_writes_confined:
  assumes "misc_wf m" "b + n \<le> region_start m \<or> region_start m + region_size m \<le> b"
  shows "take n (drop b (snd (misc_put env m dev))) = take n (drop b dev) \<and> length (snd (misc_put env m dev)) = length dev"
  using misc_put_frame [OF assms] misc_put_length [OF assms(1)] by blast

theorem misc_writes_confined_witness:
  "take 10 (drop 2048 (snd (misc_put all_ok (MBoot boot_zero) (replicate 65536 7)))) = replicate 10 7"
  using misc_writes_confined [of "MBoot boot_zero" 2048 10 all_ok "replicate 65536 7"] by (simp add: boot_zero_wf)

text \<open>C8. After any sequence of successful writes of different kinds, in any order, every one of the messages reads
  back as it was written.\<close>

theorem misc_writes_read_back:
  assumes "misc_put_all env ms dev = Some dev'" "list_all misc_wf ms" "can_read env" "distinct (map region_start ms)"
  shows "list_all (\<lambda>m. misc_stored env m dev') ms"
  using assms by (rule misc_put_all_stored)

theorem misc_writes_read_back_witness:
  "\<exists>dev'. misc_put_all all_ok [MWipe [1, 2], MBoot boot_zero] (replicate 65536 7) = Some dev' \<and>
     read_bootloader_message all_ok dev' = Inr boot_zero \<and> read_wipe_package all_ok 2 dev' = Inr [1, 2]"
proof -
  have "\<exists>dev'. misc_put_all all_ok [MWipe [1, 2], MBoot boot_zero] (replicate 65536 7) = Some dev'"
    by (simp add: write_wipe_package_def write_bootloader_message_def write_bootloader_message_to_def all_ok_device
        write_misc_partition_def misc_offsets length_boot_bytes boot_zero_wf) (simp add: all_ok_def)
  then obtain dev' where "misc_put_all all_ok [MWipe [1, 2], MBoot boot_zero] (replicate 65536 7) = Some dev'" ..
  with misc_writes_read_back [OF this _ can_read_all_ok] show ?thesis by (simp add: boot_zero_wf numeral_2_eq_2)
qed

text \<open>\<open>update_bootloader_message\<close> makes the bootloader start the recovery with the given options and keeps the rest
  of the message: the command is \<open>boot-recovery\<close>, the recovery field holds the options one per line, cut to 767
  bytes, and status, stage and reserved bytes are those that were stored.\<close>

theorem update_bootloader_message_fields:
  assumes "can_read env" "read_bootloader_message env dev = Inr boot" "update_bootloader_message env options dev = Some (Inr (), dev')"
  shows "\<exists>boot'. read_bootloader_message env dev' = Inr boot' \<and>
    c_str (blm_command boot') = str ''boot-recovery'' \<and>
    c_str (blm_recovery boot') = take 767 (c_str (str ''recovery'' @ [10] @ concat (map with_newline options))) \<and>
    blm_status boot' = blm_status boot \<and> blm_stage boot' = blm_stage boot \<and> blm_reserved boot' = blm_reserved boot"
proof -
  have wf: "boot_wf boot"
    using assms(2)
    by (auto simp: read_bootloader_message_def read_bootloader_message_from_def read_misc_partition_def
        intro!: boot_of_bytes_wf split: sum.splits if_splits)
  define boot' where "boot' = boot\<lparr>blm_command := strlcpy (str ''boot-recovery'') (replicate 32 0),
       blm_recovery := strlcpy (str ''recovery'' @ [10] @ concat (map with_newline options)) (replicate 768 0)\<rparr>"
  have wf': "boot_wf boot'" using wf by (simp add: boot_wf_def boot'_def strlcpy_length)
  have "write_bootloader_message env boot' dev = (Inr (), dev')"
    using assms(2,3) by (auto simp: update_bootloader_message_def update_in_struct_fields [OF wf] boot'_def split: if_splits)
  then have "read_bootloader_message env dev' = Inr boot'" using bcb.put_get [OF wf'] assms(1) by blast
  moreover have "c_str (blm_command boot') = str ''boot-recovery''"
    by (simp add: boot'_def strlcpy_c_str) (simp add: c_str_def str_def)
  ultimately show ?thesis
    by (intro exI [of _ boot']) (simp add: boot'_def strlcpy_c_str del: append_Cons)
qed

theorem update_bootloader_message_fields_witness:
  "\<exists>dev' boot'. update_bootloader_message all_ok [str ''--wipe_data''] (boot_bytes boot_zero @ replicate 63488 0) = Some (Inr (), dev') \<and>
     read_bootloader_message all_ok dev' = Inr boot' \<and> c_str (blm_command boot') = str ''boot-recovery'' \<and>
     c_str (blm_recovery boot') = str ''recovery'' @ [10] @ str ''--wipe_data'' @ [10]"
proof -
  let ?dev = "boot_bytes boot_zero @ replicate 63488 0"
  note rd = read_boot_prefix [OF can_read_all_ok boot_zero_wf, of "replicate 63488 0"]
  have "\<exists>dev'. update_bootloader_message all_ok [str ''--wipe_data''] ?dev = Some (Inr (), dev')"
    using boot_zero_wf
    by (simp add: update_bootloader_message_def rd update_in_struct_fields str_def write_all_ok boot_wf_def strlcpy_length
        length_boot_bytes)
  then obtain dev' where "update_bootloader_message all_ok [str ''--wipe_data''] ?dev = Some (Inr (), dev')" ..
  with update_bootloader_message_fields [OF can_read_all_ok rd this] show ?thesis
    by (auto simp: c_str_def str_def with_newline_def)
qed

text \<open>\<open>write_reboot_bootloader\<close> never overwrites a pending command: when the stored command is not empty it fails
  and the partition is unchanged.\<close>

theorem write_reboot_bootloader_keeps_pending:
  assumes "read_bootloader_message env dev = Inr boot" "c_str (blm_command boot) \<noteq> []"
  shows "write_reboot_bootloader env dev = (Inl CommandPending, dev)"
proof -
  have "blm_command boot ! 0 \<noteq> 0" using assms(2) by (cases "blm_command boot") (auto simp: c_str_def split: if_splits)
  then show ?thesis using assms(1) by (simp add: write_reboot_bootloader_def)
qed

theorem write_reboot_bootloader_keeps_pending_witness:
  "write_reboot_bootloader all_ok (boot_bytes (boot_zero\<lparr>blm_command := 98 # replicate 31 0\<rparr>) @ [1]) =
     (Inl CommandPending, boot_bytes (boot_zero\<lparr>blm_command := 98 # replicate 31 0\<rparr>) @ [1])"
proof (rule write_reboot_bootloader_keeps_pending)
  show "read_bootloader_message all_ok (boot_bytes (boot_zero\<lparr>blm_command := 98 # replicate 31 0\<rparr>) @ [1]) =
      Inr (boot_zero\<lparr>blm_command := 98 # replicate 31 0\<rparr>)"
    by (rule read_boot_prefix [OF can_read_all_ok]) (simp add: boot_wf_def boot_zero_def)
qed (simp add: c_str_def)

text \<open>The comparison of the reserved space with itself, shifted by one byte, is a test that every byte is zero.\<close>

theorem CheckReservedSystemSpaceEmpty_iff:
  assumes "can_read env" "65536 \<le> length dev"
  shows "CheckReservedSystemSpaceEmpty env dev = Inr (list_all (\<lambda>b. b = 0) (take 32512 (drop 33024 dev)))"
proof -
  define sp where "sp = take 32512 (drop 33024 dev)"
  have len: "length sp = 32512" using assms(2) by (simp add: sp_def)
  have "ReadMiscPartitionSystemSpace env (SYSTEM_SPACE_SIZE_IN_MISC - system_space_layout_size) system_space_layout_size dev = Inr sp"
    using assms
    by (auto simp: ReadMiscPartitionSystemSpace_def ValidateSystemSpaceRegion_def misc_offsets can_read_def
        read_misc_partition_def wait_for_device_def sp_def)
  moreover have "unat (SYSTEM_SPACE_SIZE_IN_MISC - system_space_layout_size) - 1 = length sp - 1"
    by (simp add: misc_offsets len)
  moreover have "sp ! 0 = 0 \<and> take (length sp - 1) sp = take (length sp - 1) (drop 1 sp) \<longleftrightarrow> list_all (\<lambda>b. b = 0) sp"
  proof
    assume "sp ! 0 = 0 \<and> take (length sp - 1) sp = take (length sp - 1) (drop 1 sp)"
    then show "list_all (\<lambda>b. b = 0) sp" using len by (intro zero_run) auto
  next
    assume z: "list_all (\<lambda>b. b = 0) sp"
    then have "sp ! 0 = 0" using len by (simp add: list_all_length)
    moreover have "take (length sp - 1) sp = take (length sp - 1) (drop 1 sp)"
      by (rule nth_equalityI) (use z in \<open>auto simp: list_all_length\<close>)
    ultimately show "sp ! 0 = 0 \<and> take (length sp - 1) sp = take (length sp - 1) (drop 1 sp)" by blast
  qed
  ultimately show ?thesis unfolding CheckReservedSystemSpaceEmpty_def Let_def sp_def [symmetric] by simp
qed

theorem CheckReservedSystemSpaceEmpty_iff_witness:
  "CheckReservedSystemSpaceEmpty all_ok (replicate 65536 0) = Inr True"
  using CheckReservedSystemSpaceEmpty_iff [OF can_read_all_ok, of "replicate 65536 0"] by (simp add: list_all_iff)

text \<open>An empty option makes \<open>update_bootloader_message_in_struct\<close> call \<open>back()\<close> on an empty string, which is
  undefined; every other list of options is fine.\<close>

theorem update_in_struct_empty_option:
  "update_bootloader_message_in_struct boot options = None \<longleftrightarrow> [] \<in> set options"
  by (simp add: update_bootloader_message_in_struct_def Let_def recovery_text_lines)

end
