(* ===== verification/Uncrypt.thy ===== *)
theory Uncrypt
  imports Bootloader_Message Block_Map
begin

text \<open>
  The uncrypt service, \<open>uncrypt/uncrypt.cpp\<close>: it writes the block map of an update package (and, on an encrypted
  file system, the plain bytes of the package to its own device blocks) and keeps the bootloader message for its
  clients. The outcomes of the system calls are given by an environment, call by call; the effects are kept in a
  record of the world: the bytes written to the device, the map files, the status codes sent to the client, the
  status file and the misc partition.
\<close>

section \<open>Outcomes and effects\<close>

datatype uncrypt_error =
  kUncryptFileRemoveError | kUncryptFileOpenError | kUncryptSocketOpenError | kUncryptSocketWriteError |
  kUncryptSocketListenError | kUncryptSocketAcceptError | kUncryptFstabReadError | kUncryptFileStatError |
  kUncryptBlockOpenError | kUncryptIoctlError | kUncryptReadError | kUncryptWriteError | kUncryptFileSyncError |
  kUncryptFileCloseError | kUncryptFileRenameError | kUncryptPackageMissingError | kUncryptRealpathFindError |
  kUncryptBlockDeviceFindError | kUncryptErrorPlaceholder

fun error_code :: "uncrypt_error \<Rightarrow> int" where
  "error_code kUncryptErrorPlaceholder = 50"
| "error_code kUncryptFileRemoveError = 101"
| "error_code kUncryptFileOpenError = 102"
| "error_code kUncryptSocketOpenError = 103"
| "error_code kUncryptSocketWriteError = 104"
| "error_code kUncryptSocketListenError = 105"
| "error_code kUncryptSocketAcceptError = 106"
| "error_code kUncryptFstabReadError = 107"
| "error_code kUncryptFileStatError = 108"
| "error_code kUncryptBlockOpenError = 109"
| "error_code kUncryptIoctlError = 110"
| "error_code kUncryptReadError = 111"
| "error_code kUncryptWriteError = 112"
| "error_code kUncryptFileSyncError = 113"
| "error_code kUncryptFileCloseError = 114"
| "error_code kUncryptFileRenameError = 115"
| "error_code kUncryptPackageMissingError = 116"
| "error_code kUncryptRealpathFindError = 117"
| "error_code kUncryptBlockDeviceFindError = 118"

record uworld =
  uw_tick :: nat
  uw_socket :: "int list"
  uw_disk :: "(int \<times> bytes) list"
  uw_tmp :: string
  uw_pos :: nat
  uw_map :: "string option"
  uw_status :: string
  uw_misc :: bytes

text \<open>
  The outcome of a call may depend on how many calls came before it. \<open>ue_fibmap\<close> is the \<open>FIBMAP\<close> request, from a
  block of the file to a block of the device. \<open>ue_percent\<close> is the floating point expression for the progress.
\<close>

record uenv =
  ue_ok :: "nat \<Rightarrow> bool"
  ue_stat :: "(int \<times> int) option"
  ue_fibmap :: "nat \<Rightarrow> int \<Rightarrow> int option"
  ue_read :: "int \<Rightarrow> nat \<Rightarrow> bytes option"
  ue_percent :: "int \<Rightarrow> int \<Rightarrow> int"
  ue_fstab :: "fstab_entry list option"
  ue_crypto_state :: string
  ue_realpath :: "string \<Rightarrow> string option"
  ue_path_file :: "string option"
  ue_files :: "bytes \<Rightarrow> bytes option"
  ue_seconds :: int
  ue_misc :: misc_env

type_synonym 'a um = "uworld \<Rightarrow> (uncrypt_error + 'a) \<times> uworld"

definition um_bind :: "'a um \<Rightarrow> ('a \<Rightarrow> 'b um) \<Rightarrow> 'b um" where
  "um_bind m k w = (case m w of (Inl e, w') \<Rightarrow> (Inl e, w') | (Inr a, w') \<Rightarrow> k a w')"

definition um_return :: "'a \<Rightarrow> 'a um" where
  "um_return a w = (Inr a, w)"

text \<open>A system call with nothing but an outcome; a failure returns from the function with the code.\<close>

definition sys :: "uenv \<Rightarrow> uworld \<Rightarrow> bool \<times> uworld" where
  "sys env w = (ue_ok env (uw_tick w), w\<lparr>uw_tick := uw_tick w + 1\<rparr>)"

definition must :: "uenv \<Rightarrow> uncrypt_error \<Rightarrow> unit um" where
  "must env e w = (case sys env w of (True, w') \<Rightarrow> (Inr (), w') | (False, w') \<Rightarrow> (Inl e, w'))"

section \<open>Helpers\<close>

definition WINDOW_SIZE :: nat where "WINDOW_SIZE = 5"
definition FIBMAP_RETRY_LIMIT :: nat where "FIBMAP_RETRY_LIMIT = 3"

definition write_at_offset :: "uenv \<Rightarrow> bytes \<Rightarrow> int \<Rightarrow> unit um" where
  "write_at_offset env buffer offset =
     um_bind (must env kUncryptWriteError) (\<lambda>_.
     um_bind (must env kUncryptWriteError) (\<lambda>_ w.
       (Inr (), w\<lparr>uw_disk := uw_disk w @ [(offset, buffer)]\<rparr>)))"

definition add_block_to_ranges :: "int list \<Rightarrow> int \<Rightarrow> int list" where
  "add_block_to_ranges ranges new_block =
     (if ranges \<noteq> [] \<and> new_block = last ranges then butlast ranges @ [last ranges + 1]
      else ranges @ [new_block, new_block + 1])"

text \<open>The device of a path: its name, whether it is encryptable, encrypted, and on f2fs.\<close>

fun find_block_device ::
  "(string \<Rightarrow> string \<Rightarrow> bool) \<Rightarrow> string \<Rightarrow> string \<Rightarrow> fstab_entry list \<Rightarrow> string \<times> bool \<times> bool \<times> bool" where
  "find_block_device StartsWith crypto_state path [] = ([], False, False, False)"
| "find_block_device StartsWith crypto_state path (entry # fstab) =
     (if fe_mount_point entry = [] then find_block_device StartsWith crypto_state path fstab
      else if StartsWith path (fe_mount_point entry @ ''/'')
      then (fe_blk_device entry, fe_encryptable entry, fe_encryptable entry \<and> crypto_state = ''encrypted'',
            fe_fs_type entry = ''f2fs'')
      else find_block_device StartsWith crypto_state path fstab)"

definition FindBlockDevice ::
  "(string \<Rightarrow> string \<Rightarrow> bool) \<Rightarrow> uenv \<Rightarrow> fstab_entry list \<Rightarrow> string \<Rightarrow> string \<times> bool \<times> bool \<times> bool" where
  "FindBlockDevice StartsWith env fstab path = find_block_device StartsWith (ue_crypto_state env) path fstab"

definition write_status_to_socket :: "uenv \<Rightarrow> int \<Rightarrow> int \<Rightarrow> uworld \<Rightarrow> bool \<times> uworld" where
  "write_status_to_socket env status socket w =
     (if socket = - 1 then (True, w)
      else case sys env w of
        (True, w') \<Rightarrow> (True, w'\<lparr>uw_socket := uw_socket w' @ [status]\<rparr>)
      | (False, w') \<Rightarrow> (False, w'))"

definition FindUncryptPackage :: "(string \<Rightarrow> string) \<Rightarrow> uenv \<Rightarrow> string option" where
  "FindUncryptPackage Trim env = map_option Trim (ue_path_file env)"

definition fibmap :: "uenv \<Rightarrow> int \<Rightarrow> int um" where
  "fibmap env block w =
     (case ue_fibmap env (uw_tick w) block of
        None \<Rightarrow> (Inl kUncryptIoctlError, w\<lparr>uw_tick := uw_tick w + 1\<rparr>)
      | Some b \<Rightarrow> (Inr b, w\<lparr>uw_tick := uw_tick w + 1\<rparr>))"

text \<open>The request reads its argument from \<open>*block\<close> and overwrites it; nothing sets it back to the wanted block.\<close>

fun RetryFibmap :: "uenv \<Rightarrow> nat \<Rightarrow> int \<Rightarrow> int um" where
  "RetryFibmap env 0 block w = (Inl kUncryptIoctlError, w)"
| "RetryFibmap env (Suc tries) block w =
     um_bind (must env kUncryptFileSyncError) (\<lambda>_.
     um_bind (fibmap env block) (\<lambda>b. if b \<noteq> 0 then um_return b else RetryFibmap env tries b)) w"

text \<open>\<open>WriteStringToFd\<close> on the map file: it was opened without \<open>O_TRUNC\<close>, so old bytes behind the position remain.\<close>

definition write_map :: "uenv \<Rightarrow> string \<Rightarrow> unit um" where
  "write_map env s =
     um_bind (must env kUncryptWriteError) (\<lambda>_ w.
       (Inr (), w\<lparr>uw_tmp := take (uw_pos w) (uw_tmp w) @ s @ drop (uw_pos w + length s) (uw_tmp w),
                  uw_pos := uw_pos w + length s\<rparr>))"

section \<open>Producing the block map\<close>

record ring =
  rg_ranges :: "int list"
  rg_buffers :: "bytes list"
  rg_head :: nat
  rg_tail :: nat
  rg_head_block :: int

text \<open>Both loops write out the head buffer in the same way.\<close>

definition flush_head :: "uenv \<Rightarrow> bool \<Rightarrow> int \<Rightarrow> ring \<Rightarrow> ring um" where
  "flush_head env encrypted blksize r =
     um_bind (fibmap env (rg_head_block r)) (\<lambda>block.
     um_bind (if block = 0 then RetryFibmap env FIBMAP_RETRY_LIMIT block else um_return block) (\<lambda>block.
     let ranges = add_block_to_ranges (rg_ranges r) block in
     um_bind (if encrypted then write_at_offset env (rg_buffers r ! rg_head r) (blksize * block) else um_return ()) (\<lambda>_.
     um_return (r\<lparr>rg_ranges := ranges, rg_head := (rg_head r + 1) mod WINDOW_SIZE,
                 rg_head_block := rg_head_block r + 1\<rparr>))))"

definition make_room :: "uenv \<Rightarrow> bool \<Rightarrow> int \<Rightarrow> ring \<Rightarrow> ring um" where
  "make_room env encrypted blksize r =
     (if (rg_tail r + 1) mod WINDOW_SIZE = rg_head r then flush_head env encrypted blksize r else um_return r)"

text \<open>Reading the next block to the tail gives the new position and ring.\<close>

definition read_tail :: "uenv \<Rightarrow> bool \<Rightarrow> int \<Rightarrow> int \<Rightarrow> int \<Rightarrow> ring \<Rightarrow> (int \<times> ring) um" where
  "read_tail env encrypted st_size blksize pos r w =
     (let next = (rg_tail r + 1) mod WINDOW_SIZE in
      if encrypted
      then let to_read = min blksize (st_size - pos) in
        (case ue_read env pos (nat to_read) of
           None \<Rightarrow> (Inl kUncryptReadError, w)
         | Some d \<Rightarrow>
             (Inr (pos + to_read,
                r\<lparr>rg_buffers := (rg_buffers r)[rg_tail r := d @ drop (length d) (rg_buffers r ! rg_tail r)],
                  rg_tail := next\<rparr>), w))
      else (Inr (pos + blksize, r\<lparr>rg_tail := next\<rparr>), w))"

lemma read_tail_pos:
  "read_tail env encrypted st_size blksize pos r w = (Inr (pos', r'), w') \<Longrightarrow> 0 < blksize \<Longrightarrow> pos < st_size \<Longrightarrow> pos < pos'"
  by (auto simp: read_tail_def Let_def split: if_splits option.splits)

text \<open>
  The loop over the file. A block size that is not positive does not get here: the block count before the
  loop divides by it.
\<close>

function fill_loop ::
  "uenv \<Rightarrow> bool \<Rightarrow> int \<Rightarrow> int \<Rightarrow> int \<Rightarrow> int \<Rightarrow> int \<Rightarrow> ring \<Rightarrow> uworld \<Rightarrow> (uncrypt_error + ring) \<times> uworld" where
  "fill_loop env encrypted st_size blksize socket pos last_progress r w =
     (if pos < st_size \<and> 0 < blksize
      then
        let progress = ue_percent env pos st_size;
            w1 = (if progress > last_progress then snd (write_status_to_socket env progress socket w) else w);
            last_progress = max progress last_progress in
        (case make_room env encrypted blksize r w1 of
           (Inl e, w2) \<Rightarrow> (Inl e, w2)
         | (Inr r1, w2) \<Rightarrow>
           (case read_tail env encrypted st_size blksize pos r1 w2 of
              (Inl e, w3) \<Rightarrow> (Inl e, w3)
            | (Inr (pos', r2), w3) \<Rightarrow>
                fill_loop env encrypted st_size blksize socket pos' last_progress r2 w3))
      else (Inr r, w))"
  by pat_completeness auto
termination
  by (relation "measure (\<lambda>(env, encrypted, st_size, blksize, socket, pos, last_progress, r, w). nat (st_size - pos))")
     (auto dest: read_tail_pos [OF sym])

declare fill_loop.simps [simp del]

text \<open>The loop that writes out what is left; \<open>tail\<close> is always an index of the window.\<close>

definition ring_left :: "ring \<Rightarrow> nat" where
  "ring_left r = (if rg_head r < WINDOW_SIZE then (rg_tail r + WINDOW_SIZE - rg_head r) mod WINDOW_SIZE else WINDOW_SIZE)"

lemma flush_head_ring:
  assumes "flush_head env encrypted blksize r w = (Inr r', w')"
  shows "rg_head r' = (rg_head r + 1) mod WINDOW_SIZE" "rg_tail r' = rg_tail r" "rg_buffers r' = rg_buffers r"
    "rg_head_block r' = rg_head_block r + 1"
  using assms
  by (auto simp: flush_head_def um_bind_def um_return_def Let_def split: prod.splits sum.splits if_splits)

lemma ring_left_flush:
  assumes "rg_head r \<noteq> rg_tail r" "rg_tail r < WINDOW_SIZE" "rg_head r' = (rg_head r + 1) mod WINDOW_SIZE" "rg_tail r' = rg_tail r"
  shows "ring_left r' < ring_left r"
proof (cases "rg_head r < WINDOW_SIZE")
  case True
  then have "rg_head r \<in> {0, 1, 2, 3, 4}" "rg_tail r \<in> {0, 1, 2, 3, 4}" using assms(2) by (auto simp: WINDOW_SIZE_def)
  then show ?thesis using assms by (auto simp: ring_left_def WINDOW_SIZE_def)
qed (auto simp: ring_left_def WINDOW_SIZE_def assms)

function drain_loop :: "uenv \<Rightarrow> bool \<Rightarrow> int \<Rightarrow> ring \<Rightarrow> uworld \<Rightarrow> (uncrypt_error + ring) \<times> uworld" where
  "drain_loop env encrypted blksize r w =
     (if rg_head r \<noteq> rg_tail r \<and> rg_tail r < WINDOW_SIZE
      then (case flush_head env encrypted blksize r w of
              (Inl e, w') \<Rightarrow> (Inl e, w')
            | (Inr r', w') \<Rightarrow> drain_loop env encrypted blksize r' w')
      else (Inr r, w))"
  by pat_completeness auto
termination
  by (relation "measure (\<lambda>(env, encrypted, blksize, r, w). ring_left r)")
     (auto intro!: ring_left_flush dest: flush_head_ring [OF sym])

declare drain_loop.simps [simp del]

text \<open>The range lines of the map file.\<close>

fun write_range_lines :: "uenv \<Rightarrow> int list \<Rightarrow> unit um" where
  "write_range_lines env (a # b # ranges) =
     um_bind (write_map env (show_int a @ '' '' @ show_int b @ ''\<newline>'')) (\<lambda>_. write_range_lines env ranges)"
| "write_range_lines env _ = um_return ()"

text \<open>
  \<open>ProductBlockMap\<close>. The result \<open>None\<close> is the division by a block size of zero. Closing a descriptor after its
  \<open>fsync\<close> and the directory calls at the end have outcomes only.
\<close>

definition ProductBlockMap ::
  "uenv \<Rightarrow> string \<Rightarrow> bool \<Rightarrow> bool \<Rightarrow> int \<Rightarrow> uworld \<Rightarrow> ((uncrypt_error + unit) \<times> uworld) option" where
  "ProductBlockMap env blk_dev encrypted f2fs_fs socket w =
     (case um_bind (must env kUncryptFileRemoveError) (\<lambda>_ w. (Inr (), w\<lparr>uw_map := None\<rparr>)) w of
        (Inl e, w) \<Rightarrow> Some (Inl e, w)
      | (Inr _, w) \<Rightarrow>
     (case um_bind (must env kUncryptFileOpenError) (\<lambda>_ w. (Inr (), w\<lparr>uw_pos := 0\<rparr>)) w of
        (Inl e, w) \<Rightarrow> Some (Inl e, w)
      | (Inr _, w) \<Rightarrow>
     (case write_status_to_socket env 0 socket w of
        (False, w) \<Rightarrow> Some (Inl kUncryptSocketWriteError, w)
      | (True, w) \<Rightarrow>
     (case ue_stat env of
        None \<Rightarrow> Some (Inl kUncryptFileStatError, w)
      | Some (st_size, blksize) \<Rightarrow>
     if blksize = 0 then None
     else Some (
       um_bind (write_map env (blk_dev @ ''\<newline>'' @ show_int st_size @ '' '' @ show_int blksize @ ''\<newline>'')) (\<lambda>_.
       let buffers = (if encrypted then replicate WINDOW_SIZE (replicate (nat blksize) 0) else []);
           r = \<lparr>rg_ranges = [], rg_buffers = buffers, rg_head = 0, rg_tail = 0, rg_head_block = 0\<rparr> in
       um_bind (must env kUncryptFileOpenError) (\<lambda>_.
       um_bind (if encrypted then must env kUncryptBlockOpenError else um_return ()) (\<lambda>_.
       um_bind (if f2fs_fs then must env kUncryptIoctlError else um_return ()) (\<lambda>_.
       um_bind (fill_loop env encrypted st_size blksize socket 0 0 r) (\<lambda>r.
       um_bind (drain_loop env encrypted blksize r) (\<lambda>r.
       um_bind (write_map env (to_dec (length (rg_ranges r) div 2) @ ''\<newline>'')) (\<lambda>_.
       um_bind (write_range_lines env (rg_ranges r)) (\<lambda>_.
       um_bind (must env kUncryptFileSyncError) (\<lambda>_.
       um_bind (must env kUncryptFileCloseError) (\<lambda>_.
       um_bind (if encrypted then um_bind (must env kUncryptFileSyncError) (\<lambda>_. must env kUncryptFileCloseError)
                else um_return ()) (\<lambda>_.
       um_bind (um_bind (must env kUncryptFileRenameError) (\<lambda>_ w. (Inr (), w\<lparr>uw_map := Some (uw_tmp w), uw_tmp := []\<rparr>))) (\<lambda>_.
       um_bind (must env kUncryptFileOpenError) (\<lambda>_.
       um_bind (must env kUncryptFileSyncError) (\<lambda>_.
       must env kUncryptFileCloseError)))))))))))))) w)))))"

section \<open>The services\<close>

definition Uncrypt ::
  "(string \<Rightarrow> string \<Rightarrow> bool) \<Rightarrow> uenv \<Rightarrow> fstab_entry list \<Rightarrow> string \<Rightarrow> int \<Rightarrow> uworld \<Rightarrow> ((uncrypt_error + unit) \<times> uworld) option" where
  "Uncrypt StartsWith env fstab input_path socket w =
     (case ue_realpath env input_path of
        None \<Rightarrow> Some (Inl kUncryptRealpathFindError, w)
      | Some path \<Rightarrow>
        (case FindBlockDevice StartsWith env fstab path of (blk_dev, encryptable, encrypted, f2fs_fs) \<Rightarrow>
           if blk_dev = [] then Some (Inl kUncryptBlockDeviceFindError, w)
           else if StartsWith path ''/data/'' then ProductBlockMap env blk_dev encrypted f2fs_fs socket w
           else Some (Inr (), w)))"

definition write_status_file :: "uenv \<Rightarrow> string \<Rightarrow> uworld \<Rightarrow> uworld" where
  "write_status_file env s w = (case sys env w of (True, w') \<Rightarrow> w'\<lparr>uw_status := s\<rparr> | (False, w') \<Rightarrow> w')"

definition log_uncrypt_error_code :: "uenv \<Rightarrow> uncrypt_error \<Rightarrow> uworld \<Rightarrow> uworld" where
  "log_uncrypt_error_code env e = write_status_file env (''uncrypt_error: '' @ show_int (error_code e) @ ''\<newline>'')"

definition uncrypt_wrapper ::
  "(string \<Rightarrow> string \<Rightarrow> bool) \<Rightarrow> (string \<Rightarrow> string) \<Rightarrow> uenv \<Rightarrow> fstab_entry list \<Rightarrow> string option \<Rightarrow> int \<Rightarrow> uworld
    \<Rightarrow> (bool \<times> uworld) option" where
  "uncrypt_wrapper StartsWith Trim env fstab input_path socket w =
     (let w = log_uncrypt_error_code env kUncryptErrorPlaceholder w in
      case (case input_path of Some p \<Rightarrow> Some p | None \<Rightarrow> FindUncryptPackage Trim env) of
        None \<Rightarrow>
          let w = snd (write_status_to_socket env (- 1) socket w) in
          Some (False, log_uncrypt_error_code env kUncryptPackageMissingError w)
      | Some p \<Rightarrow>
        (case Uncrypt StartsWith env fstab p socket w of
           None \<Rightarrow> None
         | Some (status, w) \<Rightarrow>
             let uncrypt_message = ''uncrypt_time: '' @ show_int (ue_seconds env) @ ''\<newline>'' in
             (case status of
                Inl e \<Rightarrow>
                  let w = write_status_file env (uncrypt_message @ ''uncrypt_error: '' @ show_int (error_code e) @ ''\<newline>'') w in
                  Some (False, snd (write_status_to_socket env (- 1) socket w))
              | Inr _ \<Rightarrow>
                  let w = write_status_file env uncrypt_message w in
                  Some (True, snd (write_status_to_socket env 100 socket w)))))"

definition clear_bcb :: "uenv \<Rightarrow> int \<Rightarrow> uworld \<Rightarrow> bool \<times> uworld" where
  "clear_bcb env socket w =
     (case clear_bootloader_message (ue_misc env) (uw_misc w) of
        (Inl _, misc) \<Rightarrow> (False, snd (write_status_to_socket env (- 1) socket (w\<lparr>uw_misc := misc\<rparr>)))
      | (Inr _, misc) \<Rightarrow> (True, snd (write_status_to_socket env 100 socket (w\<lparr>uw_misc := misc\<rparr>))))"

text \<open>The options of the message; the wipe package is the content of the last file named.\<close>

fun bcb_options ::
  "(bytes \<Rightarrow> bytes \<Rightarrow> bool) \<Rightarrow> (bytes \<Rightarrow> bytes option) \<Rightarrow> bytes list \<Rightarrow> bytes \<Rightarrow> (bytes list \<times> bytes) option" where
  "bcb_options StartsWith files [] wipe_package = Some ([], wipe_package)"
| "bcb_options StartsWith files (option # options) wipe_package =
     (if StartsWith option (str ''--wipe_package='')
      then (case files (drop 15 option) of
              None \<Rightarrow> None
            | Some d \<Rightarrow>
                (case bcb_options StartsWith files options d of None \<Rightarrow> None
                 | Some (os, wp) \<Rightarrow> Some ((str (''--wipe_package_size='' @ to_dec (length d))) # os, wp)))
      else (case bcb_options StartsWith files options wipe_package of None \<Rightarrow> None
            | Some (os, wp) \<Rightarrow> Some (option # os, wp)))"

text \<open>
  \<open>setup_bcb\<close> reads a length and a message from the socket. A negative length makes \<open>resize\<close> throw, an empty
  option is undefined in the bootloader message code: both are the result \<open>None\<close>.
\<close>

definition ntohl :: "bytes \<Rightarrow> int" where
  "ntohl bs = sint (of_nat (le_val (rev bs)) :: u32)"

definition setup_bcb ::
  "(bytes \<Rightarrow> bytes \<Rightarrow> bool) \<Rightarrow> (bytes \<Rightarrow> bytes list) \<Rightarrow> uenv \<Rightarrow> bytes \<Rightarrow> int \<Rightarrow> uworld \<Rightarrow> (bool \<times> uworld) option" where
  "setup_bcb StartsWith SplitLines env input socket w =
     (if length input < 4 then Some (False, w)
      else
      let len = ntohl (take 4 input); input = drop 4 input in
      if len < 0 then None
      else if length input < nat len then Some (False, w)
      else
      let content = take (nat len) input in
      (case bcb_options StartsWith (ue_files env) (SplitLines content) [] of
         None \<Rightarrow> Some (False, w)
       | Some (options, wipe_package) \<Rightarrow>
         (case write_bootloader_message_options (ue_misc env) options (uw_misc w) of
            None \<Rightarrow> None
          | Some (Inl _, misc) \<Rightarrow> Some (False, snd (write_status_to_socket env (- 1) socket (w\<lparr>uw_misc := misc\<rparr>)))
          | Some (Inr _, misc) \<Rightarrow>
            (case (if wipe_package \<noteq> [] then write_wipe_package (ue_misc env) wipe_package misc else (Inr (), misc)) of
               (Inl _, misc) \<Rightarrow> Some (False, snd (write_status_to_socket env (- 1) socket (w\<lparr>uw_misc := misc\<rparr>)))
             | (Inr _, misc) \<Rightarrow> Some (True, snd (write_status_to_socket env 100 socket (w\<lparr>uw_misc := misc\<rparr>)))))))"

datatype uncrypt_action = UNCRYPT | SETUP_BCB | CLEAR_BCB | UNCRYPT_DEBUG

definition parse_args :: "string list \<Rightarrow> (uncrypt_action \<times> string option) option" where
  "parse_args argv =
     (if length argv = 2 \<and> argv ! 1 = ''--clear-bcb'' then Some (CLEAR_BCB, None)
      else if length argv = 2 \<and> argv ! 1 = ''--setup-bcb'' then Some (SETUP_BCB, None)
      else if length argv = 1 then Some (UNCRYPT, None)
      else if length argv = 3 then Some (UNCRYPT_DEBUG, Some (argv ! 1))
      else None)"

text \<open>
  \<open>main\<close>, its exit code and the world; \<open>input\<close> is what the client sends. The code read at the end is not looked at.
\<close>

definition uncrypt_main ::
  "(string \<Rightarrow> string \<Rightarrow> bool) \<Rightarrow> (string \<Rightarrow> string) \<Rightarrow> (bytes \<Rightarrow> bytes \<Rightarrow> bool) \<Rightarrow> (bytes \<Rightarrow> bytes list) \<Rightarrow> uenv
    \<Rightarrow> string list \<Rightarrow> bytes \<Rightarrow> int \<Rightarrow> uworld \<Rightarrow> (int \<times> uworld) option" where
  "uncrypt_main StartsWith Trim StartsWithB SplitLines env argv input socket w =
     (case parse_args argv of None \<Rightarrow> Some (2, w)
      | Some (action, input_path) \<Rightarrow>
        (case ue_fstab env of None \<Rightarrow> Some (1, log_uncrypt_error_code env kUncryptFstabReadError w)
         | Some fstab \<Rightarrow>
           let exit = map_option (\<lambda>(success, w). (if success then 0 else 1, w)) in
           if action = UNCRYPT_DEBUG then exit (uncrypt_wrapper StartsWith Trim env fstab input_path (- 1) w)
           else (case sys env w of
             (False, w) \<Rightarrow> Some (1, log_uncrypt_error_code env kUncryptSocketOpenError w)
           | (True, w) \<Rightarrow>
             (case sys env w of
                (False, w) \<Rightarrow> Some (1, log_uncrypt_error_code env kUncryptSocketListenError w)
              | (True, w) \<Rightarrow>
                (case sys env w of
                   (False, w) \<Rightarrow> Some (1, log_uncrypt_error_code env kUncryptSocketAcceptError w)
                 | (True, w) \<Rightarrow>
                   exit (case action of
                       UNCRYPT \<Rightarrow> uncrypt_wrapper StartsWith Trim env fstab input_path socket w
                     | SETUP_BCB \<Rightarrow> setup_bcb StartsWithB SplitLines env input socket w
                     | CLEAR_BCB \<Rightarrow> Some (clear_bcb env socket w)
                     | UNCRYPT_DEBUG \<Rightarrow> Some (False, w)))))))"

section \<open>Ranges\<close>

text \<open>The pairs in the flat list of \<open>add_block_to_ranges\<close>, and the blocks they stand for.\<close>

fun pairs :: "int list \<Rightarrow> (int \<times> int) list" where
  "pairs (a # b # xs) = (a, b) # pairs xs"
| "pairs _ = []"

definition range_blocks :: "(int \<times> int) list \<Rightarrow> int list" where
  "range_blocks ps = concat (map (\<lambda>(a, b). [a..b - 1]) ps)"

definition ranges_of :: "int list \<Rightarrow> int list" where
  "ranges_of bl = foldl add_block_to_ranges [] bl"

lemma pairs_snoc: "even (length xs) \<Longrightarrow> pairs (xs @ [a, b]) = pairs xs @ [(a, b)]"
  by (induction xs rule: pairs.induct) auto

lemma flat_pairs: "even (length xs) \<Longrightarrow> xs \<noteq> [] \<Longrightarrow> \<exists>ys a. xs = ys @ [a, last xs] \<and> even (length ys)"
proof -
  assume "even (length xs)" "xs \<noteq> []"
  moreover from this obtain zs where "xs = zs @ [last xs]" by (metis append_butlast_last_id)
  moreover from calculation have "zs \<noteq> []" by (metis append_Nil length_Cons list.size(3) odd_one One_nat_def)
  ultimately show ?thesis
    by (metis (no_types, lifting) append.assoc append_Cons append_Nil append_butlast_last_id even_Suc length_append_singleton)
qed

lemma ranges_of_pairs:
  "even (length (ranges_of bl)) \<and> list_all (\<lambda>(a, b). a < b) (pairs (ranges_of bl)) \<and> range_blocks (pairs (ranges_of bl)) = bl \<and>
   (bl \<noteq> [] \<longrightarrow> ranges_of bl \<noteq> [])"
proof (induction bl rule: rev_induct)
  case (snoc b bl)
  let ?r = "ranges_of bl"
  have step: "ranges_of (bl @ [b]) = add_block_to_ranges ?r b" by (simp add: ranges_of_def)
  show ?case
  proof (cases "?r \<noteq> [] \<and> b = last ?r")
    case True
    obtain ys a where ys: "?r = ys @ [a, b]" "even (length ys)" using flat_pairs [of ?r] snoc.IH True by auto
    have IH: "a < b" "list_all (\<lambda>(a, b). a < b) (pairs ys)" "range_blocks (pairs ys) @ [a..b - 1] = bl"
      using snoc.IH by (simp_all add: ys pairs_snoc range_blocks_def)
    have "ranges_of (bl @ [b]) = ys @ [a, b + 1]" by (simp add: step add_block_to_ranges_def ys butlast_append)
    moreover have "[a..b] = [a..b - 1] @ [b]" using IH(1) upto_rec2 [of a b] by simp
    ultimately show ?thesis using IH ys(2) by (auto simp: pairs_snoc range_blocks_def)
  next
    case False
    then have "ranges_of (bl @ [b]) = ?r @ [b, b + 1]" by (auto simp: step add_block_to_ranges_def)
    then show ?thesis using snoc.IH by (simp add: pairs_snoc range_blocks_def)
  qed
qed (simp add: ranges_of_def range_blocks_def)

section \<open>The text of the map\<close>

definition range_text :: "int \<times> int \<Rightarrow> string" where
  "range_text p = show_int (fst p) @ '' '' @ show_int (snd p) @ ''\<newline>''"

definition map_text :: "string \<Rightarrow> int \<Rightarrow> int \<Rightarrow> int list \<Rightarrow> string" where
  "map_text blk_dev st_size blksize ranges =
     blk_dev @ ''\<newline>'' @ show_int st_size @ '' '' @ show_int blksize @ ''\<newline>'' @
     to_dec (length ranges div 2) @ ''\<newline>'' @ concat (map range_text (pairs ranges))"

text \<open>The map file after \<open>s\<close> was written over the old content, and everything else as in \<open>w0\<close>.\<close>

definition text_written :: "string \<Rightarrow> string \<Rightarrow> uworld \<Rightarrow> uworld \<Rightarrow> bool" where
  "text_written old s w0 w \<longleftrightarrow> uw_pos w = length s \<and> uw_tmp w = s @ drop (length s) old \<and>
     uw_disk w = uw_disk w0 \<and> uw_map w = uw_map w0 \<and> uw_misc w = uw_misc w0"

section \<open>The ring of buffers\<close>

definition nblocks :: "bytes \<Rightarrow> nat \<Rightarrow> nat" where
  "nblocks content bs = (length content - 1) div bs + 1"

definition file_block :: "bytes \<Rightarrow> nat \<Rightarrow> nat \<Rightarrow> bytes" where
  "file_block content bs k = take bs (drop (k * bs) content)"

text \<open>A buffer that holds a block: the rest of the last one keeps what was there before.\<close>

definition holds :: "bytes \<Rightarrow> nat \<Rightarrow> nat \<Rightarrow> bytes \<Rightarrow> bool" where
  "holds content bs k d \<longleftrightarrow> length d = bs \<and> take (length (file_block content bs k)) d = file_block content bs k"

lemma window_distinct: "(a :: nat) < b \<Longrightarrow> b \<le> a + 4 \<Longrightarrow> a mod 5 \<noteq> b mod 5"
  using mod_eq_dvd_iff_nat [of a b 5] dvd_imp_le [of 5 "b - a"] by auto

lemma window_full:
  assumes "(h :: nat) \<le> k" "k \<le> h + 4"
  shows "(k mod 5 + 1) mod 5 = h mod 5 \<longleftrightarrow> k = h + 4"
proof -
  have "(k mod 5 + 1) mod 5 = h mod 5 \<longleftrightarrow> 5 dvd k + 1 - h"
    using assms mod_eq_dvd_iff_nat [of h "k + 1" 5] by (simp add: mod_Suc_eq)
  also have "\<dots> \<longleftrightarrow> k = h + 4"
  proof
    assume "5 dvd k + 1 - h"
    then have "5 \<le> k + 1 - h" by (rule dvd_imp_le) (use assms in simp)
    then show "k = h + 4" using assms by simp
  qed simp
  finally show ?thesis .
qed

text \<open>
  A system in which every call succeeds, the file does not change and block \<open>k\<close> of it is block \<open>phys k\<close> of the
  device, as \<open>FIBMAP\<close> promises for a file without holes.
\<close>

locale uncrypt_system =
  fixes env :: uenv and content :: bytes and bs :: nat and phys :: "nat \<Rightarrow> int"
  assumes calls_ok: "ue_ok env t"
    and stat_ok: "ue_stat env = Some (int (length content), int bs)"
    and fibmap_ok: "k < nblocks content bs \<Longrightarrow> ue_fibmap env t (int k) = Some (phys k)"
    and phys_pos: "k < nblocks content bs \<Longrightarrow> 0 < phys k"
    and read_ok: "pos + n \<le> length content \<Longrightarrow> ue_read env (int pos) n = Some (take n (drop pos content))"
    and nonempty: "content \<noteq> []" "0 < bs"
begin

abbreviation n :: nat where
  "n \<equiv> nblocks content bs"

lemma block_index: "k < n \<longleftrightarrow> k * bs < length content"
proof -
  have "k < n \<longleftrightarrow> k \<le> (length content - 1) div bs" by (auto simp: nblocks_def)
  also have "\<dots> \<longleftrightarrow> k * bs \<le> length content - 1" by (rule less_eq_div_iff_mult_less_eq) (rule nonempty(2))
  also have "\<dots> \<longleftrightarrow> k * bs < length content" using nonempty(1) by (cases content) auto
  finally show ?thesis .
qed

lemma must_ok: "must env e w = (Inr (), w\<lparr>uw_tick := uw_tick w + 1\<rparr>)"
  by (simp add: must_def sys_def calls_ok)

text \<open>\<open>k\<close> blocks were read, \<open>h\<close> of them written out.\<close>

definition ring_inv :: "bool \<Rightarrow> nat \<Rightarrow> nat \<Rightarrow> ring \<Rightarrow> bool" where
  "ring_inv enc k h r \<longleftrightarrow> h \<le> k \<and> k \<le> h + 4 \<and> k \<le> n \<and> rg_head r = h mod 5 \<and> rg_tail r = k mod 5 \<and>
     rg_head_block r = int h \<and> rg_ranges r = ranges_of (map phys [0..<h]) \<and>
     (enc \<longrightarrow> length (rg_buffers r) = 5 \<and> list_all (\<lambda>b. length b = bs) (rg_buffers r) \<and>
        (\<forall>j. h \<le> j \<and> j < k \<longrightarrow> holds content bs j (rg_buffers r ! (j mod 5))))"

text \<open>The effects of the loops: \<open>h\<close> blocks on the device, and codes for the client.\<close>

definition written :: "bool \<Rightarrow> nat \<Rightarrow> uworld \<Rightarrow> uworld \<Rightarrow> bool" where
  "written enc h w w' \<longleftrightarrow>
     (\<exists>ws. uw_disk w' = uw_disk w @ ws \<and> map fst ws = (if enc then map (\<lambda>k. int bs * phys k) [0..<h] else []) \<and>
        (\<forall>j<length ws. holds content bs j (snd (ws ! j)))) \<and>
     uw_tmp w' = uw_tmp w \<and> uw_pos w' = uw_pos w \<and> uw_map w' = uw_map w \<and> uw_misc w' = uw_misc w"

lemma written_refl: "written enc 0 w w"
  by (simp add: written_def)

lemma written_status: "written enc h w w' \<Longrightarrow> written enc h w (snd (write_status_to_socket env p socket w'))"
  by (simp add: written_def write_status_to_socket_def sys_def calls_ok)

lemma flush_step:
  assumes inv: "ring_inv enc k h r" and h: "h < k" and wr: "written enc h w0 w"
  shows "\<exists>r' w'. flush_head env enc (int bs) r w = (Inr r', w') \<and> ring_inv enc k (h + 1) r' \<and> written enc (h + 1) w0 w'"
proof -
  have hn: "h < n" using inv h by (simp add: ring_inv_def)
  define ranges where "ranges = add_block_to_ranges (rg_ranges r) (phys h)"
  have rg: "ranges = ranges_of (map phys [0..<h + 1])" using inv by (simp add: ranges_def ring_inv_def ranges_of_def)
  define r' where "r' = r\<lparr>rg_ranges := ranges, rg_head := (rg_head r + 1) mod WINDOW_SIZE, rg_head_block := rg_head_block r + 1\<rparr>"
  have inv': "ring_inv enc k (h + 1) r'"
    using inv h unfolding ring_inv_def r'_def rg by (auto simp: WINDOW_SIZE_def mod_Suc_eq)
  have fib: "fibmap env (rg_head_block r) w = (Inr (phys h), w\<lparr>uw_tick := uw_tick w + 1\<rparr>)"
    using inv fibmap_ok [OF hn] by (simp add: fibmap_def ring_inv_def)
  have nz: "phys h \<noteq> 0" using phys_pos [OF hn] by simp
  show ?thesis
  proof (cases enc)
    case False
    then have "flush_head env enc (int bs) r w = (Inr r', w\<lparr>uw_tick := uw_tick w + 1\<rparr>)"
      using fib nz by (simp add: flush_head_def um_bind_def um_return_def Let_def r'_def ranges_def)
    moreover have "written enc (h + 1) w0 (w\<lparr>uw_tick := uw_tick w + 1\<rparr>)" using wr False by (simp add: written_def)
    ultimately show ?thesis using inv' by blast
  next
    case True
    define d where "d = rg_buffers r ! rg_head r"
    define w' where "w' = w\<lparr>uw_tick := uw_tick w + 3, uw_disk := uw_disk w @ [(int bs * phys h, d)]\<rparr>"
    have "flush_head env enc (int bs) r w = (Inr r', w')"
      using fib nz True
      by (simp add: flush_head_def um_bind_def um_return_def Let_def r'_def ranges_def write_at_offset_def must_ok w'_def d_def)
    moreover have "holds content bs h d" using inv h True by (simp add: ring_inv_def d_def)
    moreover obtain ws where ws: "uw_disk w = uw_disk w0 @ ws" "map fst ws = map (\<lambda>k. int bs * phys k) [0..<h]"
      "\<forall>j<length ws. holds content bs j (snd (ws ! j))"
      using wr True by (auto simp: written_def)
    moreover have "length ws = h" using arg_cong [OF ws(2), of length] by simp
    ultimately have "written enc (h + 1) w0 w'"
      using wr True unfolding written_def
      by (intro conjI exI [of _ "ws @ [(int bs * phys h, d)]"]) (auto simp: w'_def nth_append less_Suc_eq)
    then show ?thesis using inv' \<open>flush_head env enc (int bs) r w = (Inr r', w')\<close> by blast
  qed
qed

lemma make_room_step:
  assumes "ring_inv enc k h r" "written enc h w0 w"
  shows "\<exists>r' w' h'. make_room env enc (int bs) r w = (Inr r', w') \<and> ring_inv enc k h' r' \<and> written enc h' w0 w' \<and> k \<le> h' + 3"
proof (cases "k = h + 4")
  case True
  then obtain r' w' where r': "flush_head env enc (int bs) r w = (Inr r', w')" "ring_inv enc k (h + 1) r'" "written enc (h + 1) w0 w'"
    using flush_step [OF assms(1) _ assms(2)] by auto
  moreover have "(rg_tail r + 1) mod WINDOW_SIZE = rg_head r"
    using True assms(1) window_full [of h k] by (simp add: ring_inv_def WINDOW_SIZE_def)
  ultimately show ?thesis using True by (intro exI [of _ r'] exI [of _ w'] exI [of _ "h + 1"]) (simp add: make_room_def)
next
  case False
  then have "make_room env enc (int bs) r w = (Inr r, w)"
    using assms(1) window_full [of h k] by (auto simp: make_room_def ring_inv_def WINDOW_SIZE_def um_return_def)
  then show ?thesis using assms False by (intro exI [of _ r] exI [of _ w] exI [of _ h]) (auto simp: ring_inv_def)
qed

lemma length_file_block: "k < n \<Longrightarrow> length (file_block content bs k) = min bs (length content - k * bs)"
  by (simp add: file_block_def)

lemma read_step:
  assumes inv: "ring_inv enc k h r" and k: "k \<le> h + 3" "k < n"
    and pos: "pos = (if enc then min (k * bs) (length content) else k * bs)"
  shows "\<exists>pos' r'. read_tail env enc (int (length content)) (int bs) (int pos) r w = (Inr (int pos', r'), w) \<and>
    ring_inv enc (k + 1) h r' \<and> pos' = (if enc then min ((k + 1) * bs) (length content) else (k + 1) * bs)"
proof (cases enc)
  case False
  then show ?thesis
    using inv k pos
    by (intro exI [of _ "(k + 1) * bs"] exI [of _ "r\<lparr>rg_tail := (rg_tail r + 1) mod WINDOW_SIZE\<rparr>"])
       (auto simp: read_tail_def ring_inv_def Let_def WINDOW_SIZE_def mod_Suc_eq)
next
  case True
  have lt: "k * bs < length content" using k(2) block_index by simp
  then have p: "pos = k * bs" using pos True by simp
  define d where "d = file_block content bs k"
  have d: "length d = min bs (length content - k * bs)" using length_file_block [OF k(2)] by (simp add: d_def)
  have tr: "min (int bs) (int (length content) - int pos) = int (length d)"
    unfolding d p of_nat_min using lt by (simp only: of_nat_diff less_imp_le)
  have rd: "ue_read env (int pos) (length d) = Some d"
  proof -
    have "pos + length d \<le> length content" using lt by (simp add: d p)
    moreover have "take (length d) (drop pos content) = d"
      by (cases "bs \<le> length content - k * bs") (simp_all add: d_def file_block_def p)
    ultimately show ?thesis using read_ok [of pos "length d"] by simp
  qed
  define buf where "buf = rg_buffers r ! rg_tail r"
  define r' where "r' = r\<lparr>rg_buffers := (rg_buffers r)[rg_tail r := d @ drop (length d) buf], rg_tail := (rg_tail r + 1) mod WINDOW_SIZE\<rparr>"
  have "read_tail env enc (int (length content)) (int bs) (int pos) r w = (Inr (int (pos + length d), r'), w)"
    using True rd by (simp add: read_tail_def Let_def tr r'_def buf_def)
  moreover have "pos + length d = min ((k + 1) * bs) (length content)" using lt by (simp add: d p)
  moreover have "ring_inv enc (k + 1) h r'"
  proof -
    have b: "length (rg_buffers r) = 5" "list_all (\<lambda>b. length b = bs) (rg_buffers r)" "rg_tail r = k mod 5"
      using inv True by (auto simp: ring_inv_def)
    have lb: "length buf = bs" using b by (simp add: buf_def list_all_length)
    have new: "holds content bs k (d @ drop (length d) buf)"
      using lb d by (simp add: holds_def d_def [symmetric])
    have "holds content bs j ((rg_buffers r)[k mod 5 := d @ drop (length d) buf] ! (j mod 5))" if "h \<le> j" "j < k + 1" for j
    proof (cases "j = k")
      case False
      then have "j mod 5 \<noteq> k mod 5" using that k(1) by (intro window_distinct) simp_all
      then show ?thesis using inv True that False by (simp add: ring_inv_def)
    qed (use new b in simp)
    moreover have "list_all (\<lambda>b. length b = bs) ((rg_buffers r)[k mod 5 := d @ drop (length d) buf])"
      using b lb d by (auto simp: list_all_iff dest: set_update_subset_insert [THEN subsetD])
    ultimately show ?thesis
      using inv k b unfolding ring_inv_def r'_def by (auto simp: WINDOW_SIZE_def mod_Suc_eq)
  qed
  ultimately show ?thesis using True by (intro exI [of _ "pos + length d"] exI [of _ r']) simp
qed

lemma fill_loop_fills:
  assumes "ring_inv enc k h r" "written enc h w0 w" "pos = (if enc then min (k * bs) (length content) else k * bs)"
  shows "\<exists>r' w' h'. fill_loop env enc (int (length content)) (int bs) socket (int pos) prog r w = (Inr r', w') \<and>
    ring_inv enc n h' r' \<and> written enc h' w0 w'"
  using assms
proof (induction "n - k" arbitrary: k h r w pos prog)
  case 0
  then have "k = n" by (simp add: ring_inv_def)
  moreover have "\<not> n * bs < length content" using block_index [of n] by simp
  ultimately have "fill_loop env enc (int (length content)) (int bs) socket (int pos) prog r w = (Inr r, w)"
    using 0 by (subst fill_loop.simps) (auto simp: min_def not_less)
  then show ?case using 0 \<open>k = n\<close> by blast
next
  case (Suc m)
  then have kn: "k < n" by simp
  then have lt: "k * bs < length content" using block_index by simp
  then have posl: "int pos < int (length content)" using Suc.prems(3) by simp
  define w1 where "w1 = (if ue_percent env (int pos) (int (length content)) > prog
      then snd (write_status_to_socket env (ue_percent env (int pos) (int (length content))) socket w) else w)"
  have "written enc h w0 w1" using Suc.prems(2) written_status by (simp add: w1_def)
  then obtain r1 w2 h1 where r1: "make_room env enc (int bs) r w1 = (Inr r1, w2)" "ring_inv enc k h1 r1" "written enc h1 w0 w2" "k \<le> h1 + 3"
    using make_room_step [OF Suc.prems(1)] by blast
  obtain pos' r2 where r2: "read_tail env enc (int (length content)) (int bs) (int pos) r1 w2 = (Inr (int pos', r2), w2)"
    "ring_inv enc (k + 1) h1 r2" "pos' = (if enc then min ((k + 1) * bs) (length content) else (k + 1) * bs)"
    using read_step [OF r1(2,4) kn Suc.prems(3)] by blast
  have "fill_loop env enc (int (length content)) (int bs) socket (int pos) prog r w =
      fill_loop env enc (int (length content)) (int bs) socket (int pos')
        (max (ue_percent env (int pos) (int (length content))) prog) r2 w2"
    unfolding fill_loop.simps [of env enc _ _ socket "int pos" prog r w] Let_def w1_def [symmetric]
    using posl nonempty(2) r1(1) r2(1) by simp
  moreover have "m = n - (k + 1)" using Suc.hyps(2) by simp
  ultimately show ?case using Suc.hyps(1) [OF _ r2(2) r1(3) r2(3)] by simp
qed

lemma drain_loop_drains:
  assumes "ring_inv enc k h r" "written enc h w0 w"
  shows "\<exists>r' w'. drain_loop env enc (int bs) r w = (Inr r', w') \<and> ring_inv enc k k r' \<and> written enc k w0 w'"
  using assms
proof (induction "k - h" arbitrary: h r w)
  case 0
  then have "h = k" by (simp add: ring_inv_def)
  moreover from this 0 have "drain_loop env enc (int bs) r w = (Inr r, w)"
    by (subst drain_loop.simps) (simp add: ring_inv_def)
  ultimately show ?case using 0 by blast
next
  case (Suc m)
  then have h: "h < k" by simp
  obtain r1 w1 where r1: "flush_head env enc (int bs) r w = (Inr r1, w1)" "ring_inv enc k (h + 1) r1" "written enc (h + 1) w0 w1"
    using flush_step [OF Suc.prems(1) h Suc.prems(2)] by blast
  have "k \<le> h + 4" using Suc.prems(1) by (simp add: ring_inv_def)
  then have "h mod 5 \<noteq> k mod 5" using h by (intro window_distinct) simp_all
  then have "drain_loop env enc (int bs) r w = drain_loop env enc (int bs) r1 w1"
    using Suc.prems(1) r1(1) by (subst drain_loop.simps) (simp add: ring_inv_def WINDOW_SIZE_def)
  then show ?case using Suc.hyps(1) [OF _ r1(2,3)] Suc.hyps(2) by simp
qed

lemma write_map_ok:
  assumes "text_written old s w0 w"
  shows "\<exists>w'. write_map env t w = (Inr (), w') \<and> text_written old (s @ t) w0 w'"
  using assms by (simp add: write_map_def um_bind_def must_ok text_written_def add.commute)

lemma write_range_lines_ok:
  assumes "text_written old s w0 w"
  shows "\<exists>w'. write_range_lines env ranges w = (Inr (), w') \<and>
    text_written old (s @ concat (map range_text (pairs ranges))) w0 w'"
  using assms
proof (induction ranges arbitrary: s w rule: pairs.induct)
  case (1 a b xs)
  obtain w1 where w1: "write_map env (range_text (a, b)) w = (Inr (), w1)" "text_written old (s @ range_text (a, b)) w0 w1"
    using write_map_ok [OF "1.prems"] by blast
  obtain w2 where "write_range_lines env xs w1 = (Inr (), w2)"
    "text_written old ((s @ range_text (a, b)) @ concat (map range_text (pairs xs))) w0 w2"
    using "1.IH" [OF w1(2)] by blast
  then show ?case using w1(1) by (simp add: um_bind_def range_text_def [of "(a, b)"])
qed (simp_all add: um_return_def)

definition start_ring :: "bool \<Rightarrow> ring" where
  "start_ring enc = \<lparr>rg_ranges = [], rg_buffers = (if enc then replicate WINDOW_SIZE (replicate bs 0) else []),
     rg_head = 0, rg_tail = 0, rg_head_block = 0\<rparr>"

lemma start_ring_inv: "ring_inv enc 0 0 (start_ring enc)"
  by (simp add: ring_inv_def start_ring_def ranges_of_def WINDOW_SIZE_def list_all_iff)

abbreviation tick :: "uworld \<Rightarrow> uworld" where
  "tick w \<equiv> w\<lparr>uw_tick := uw_tick w + 1\<rparr>"

text \<open>The body between the header line and the end of the loops.\<close>

lemma loops_ok:
  "\<exists>r1 w1 r2 w2. fill_loop env enc (int (length content)) (int bs) socket 0 0 (start_ring enc) w = (Inr r1, w1) \<and>
     drain_loop env enc (int bs) r1 w1 = (Inr r2, w2) \<and> rg_ranges r2 = ranges_of (map phys [0..<n]) \<and> written enc n w w2"
proof -
  have pos0: "0 = (if enc then min (0 * bs) (length content) else 0 * bs)" by simp
  obtain r1 w1 h where 1: "fill_loop env enc (int (length content)) (int bs) socket 0 0 (start_ring enc) w = (Inr r1, w1)"
    "ring_inv enc n h r1" "written enc h w w1"
    using fill_loop_fills [OF start_ring_inv written_refl pos0, of socket 0 w] by auto
  obtain r2 w2 where "drain_loop env enc (int bs) r1 w1 = (Inr r2, w2)" "ring_inv enc n n r2" "written enc n w w2"
    using drain_loop_drains [OF 1(2,3)] by blast
  then show ?thesis using 1(1) by (auto simp: ring_inv_def)
qed

lemma status_ok:
  "\<exists>w'. write_status_to_socket env p socket w = (True, w') \<and> uw_tmp w' = uw_tmp w \<and> uw_pos w' = uw_pos w \<and>
     uw_disk w' = uw_disk w \<and> uw_misc w' = uw_misc w"
  by (cases "socket = - 1") (simp_all add: write_status_to_socket_def sys_def calls_ok)

lemma ProductBlockMap_writes:
  fixes blk_dev :: string
  assumes "uw_tmp w = old"
  defines "map_s \<equiv> map_text blk_dev (int (length content)) (int bs) (ranges_of (map phys [0..<n]))"
  shows "\<exists>w' ws. ProductBlockMap env blk_dev enc f2fs_fs socket w = Some (Inr (), w') \<and>
    uw_map w' = Some (map_s @ drop (length map_s) old) \<and> uw_disk w' = uw_disk w @ ws \<and>
    map fst ws = (if enc then map (\<lambda>k. int bs * phys k) [0..<n] else []) \<and>
    (\<forall>j<length ws. holds content bs j (snd (ws ! j))) \<and> uw_misc w' = uw_misc w"
proof -
  let ?H = "blk_dev @ ''\<newline>'' @ show_int (int (length content)) @ '' '' @ show_int (int bs) @ ''\<newline>''"
  let ?R = "ranges_of (map phys [0..<n])"
  define w1 where "w1 = (tick ((tick w)\<lparr>uw_map := None\<rparr>))\<lparr>uw_pos := 0\<rparr>"
  obtain w2 where w2: "write_status_to_socket env 0 socket w1 = (True, w2)" "text_written old [] w2 w2"
      "uw_disk w2 = uw_disk w" "uw_misc w2 = uw_misc w"
    using status_ok [of 0 socket w1] assms(1) by (auto simp: w1_def text_written_def)
  obtain w3 where w3: "write_map env ?H w2 = (Inr (), w3)" "text_written old ?H w2 w3"
    using write_map_ok [OF w2(2), of ?H] by auto
  define w4 where "w4 = (let w = tick w3; w = (if enc then tick w else w) in if f2fs_fs then tick w else w)"
  obtain r1 w5 r2 w6 where loops: "fill_loop env enc (int (length content)) (int bs) socket 0 0 (start_ring enc) w4 = (Inr r1, w5)"
    "drain_loop env enc (int bs) r1 w5 = (Inr r2, w6)" "rg_ranges r2 = ?R" "written enc n w4 w6"
    using loops_ok [of enc socket w4] by blast
  have "text_written old ?H w6 w6" using w3(2) loops(4) by (auto simp: text_written_def written_def w4_def Let_def)
  then obtain w7 where w7: "write_map env (to_dec (length ?R div 2) @ ''\<newline>'') w6 = (Inr (), w7)"
    "text_written old (?H @ to_dec (length ?R div 2) @ ''\<newline>'') w6 w7"
    using write_map_ok by blast
  obtain w8 where w8: "write_range_lines env ?R w7 = (Inr (), w8)"
    "text_written old ((?H @ to_dec (length ?R div 2) @ ''\<newline>'') @ concat (map range_text (pairs ?R))) w6 w8"
    using write_range_lines_ok [OF w7(2)] by blast
  then have tw: "text_written old map_s w6 w8" by (simp add: map_s_def map_text_def)
  define w9 where "w9 = (let w = tick (tick w8) in if enc then tick (tick w) else w)"
  define w10 where "w10 = (tick w9)\<lparr>uw_map := Some (uw_tmp w9), uw_tmp := []\<rparr>"
  have bs0: "int bs \<noteq> 0" using nonempty(2) by simp
  have "ProductBlockMap env blk_dev enc f2fs_fs socket w = Some (Inr (), tick (tick (tick w10)))"
    using w2(1) w3(1) loops w7(1) w8(1) bs0
    by (cases enc; cases f2fs_fs)
       (simp_all add: ProductBlockMap_def um_bind_def um_return_def must_ok stat_ok w1_def w4_def w9_def w10_def start_ring_def Let_def)
  moreover obtain ws where "uw_disk w6 = uw_disk w4 @ ws" "map fst ws = (if enc then map (\<lambda>k. int bs * phys k) [0..<n] else [])"
    "\<forall>j<length ws. holds content bs j (snd (ws ! j))" "uw_misc w6 = uw_misc w4"
    using loops(4) unfolding written_def by blast
  moreover have "uw_disk w4 = uw_disk w" "uw_misc w4 = uw_misc w"
    using w2(3,4) w3(2) by (auto simp: w4_def text_written_def Let_def)
  moreover have "uw_map w10 = Some (map_s @ drop (length map_s) old)" "uw_disk w10 = uw_disk w6" "uw_misc w10 = uw_misc w6"
    using tw by (auto simp: w10_def w9_def text_written_def Let_def)
  ultimately show ?thesis by (intro exI [of _ "tick (tick (tick w10))"] exI [of _ ws]) simp
qed

end

section \<open>Properties of uncrypt\<close>

text \<open>A small package of five bytes in blocks of two, the last one elsewhere on the device.\<close>

definition sample_phys :: "nat \<Rightarrow> int" where
  "sample_phys k = (if k < 2 then 7 + int k else 20)"

definition sample_uenv :: uenv where
  "sample_uenv = \<lparr>ue_ok = \<lambda>_. True, ue_stat = Some (5, 2), ue_fibmap = \<lambda>_ k. Some (sample_phys (nat k)),
     ue_read = \<lambda>pos m. Some (take m (drop (nat pos) [1, 2, 3, 4, 5])), ue_percent = \<lambda>pos size. 100 * pos div size,
     ue_fstab = Some [], ue_crypto_state = ''encrypted'', ue_realpath = Some, ue_path_file = Some ''/data/ota.zip'',
     ue_files = \<lambda>_. None, ue_seconds = 1, ue_misc = all_ok\<rparr>"

definition sample_world :: uworld where
  "sample_world = \<lparr>uw_tick = 0, uw_socket = [], uw_disk = [], uw_tmp = [], uw_pos = 0, uw_map = None, uw_status = [], uw_misc = []\<rparr>"

interpretation sample: uncrypt_system sample_uenv "[1, 2, 3, 4, 5]" 2 sample_phys
  by unfold_locales (simp_all add: sample_uenv_def sample_phys_def nblocks_def)



text \<open>C36. The retry of \<open>FIBMAP\<close> asks for the wrong block: the request overwrote its argument with 0, so when block \<open>k\<close> had
  no place on the device yet, the retry takes the place of block 0 of the file for block \<open>k\<close>, enters it in the map
  and, on an encrypted file system, writes block \<open>k\<close> over it.\<close>

theorem RetryFibmap_takes_block_0:
  assumes "\<And>t. ue_ok env t" "ue_fibmap env (uw_tick w) (rg_head_block r) = Some 0"
    and "\<And>t. ue_fibmap env t 0 = Some b" "b \<noteq> 0"
  shows "\<exists>r' w'. flush_head env True blksize r w = (Inr r', w') \<and> rg_ranges r' = add_block_to_ranges (rg_ranges r) b \<and>
    uw_disk w' = uw_disk w @ [(blksize * b, rg_buffers r ! rg_head r)]"
  using assms
  by (simp add: flush_head_def um_bind_def fibmap_def FIBMAP_RETRY_LIMIT_def must_def sys_def um_return_def write_at_offset_def
      numeral_3_eq_3 Let_def)

theorem RetryFibmap_takes_block_0_witness:
  "\<exists>r' w'. flush_head (sample_uenv\<lparr>ue_fibmap := \<lambda>t k. if k = 0 then Some 7 else Some 0\<rparr>) True 2
      \<lparr>rg_ranges = [], rg_buffers = [ [1, 2] ], rg_head = 0, rg_tail = 1, rg_head_block = 3\<rparr> sample_world = (Inr r', w') \<and>
     rg_ranges r' = [7, 8] \<and> uw_disk w' = [(14, [1, 2])]"
  using RetryFibmap_takes_block_0 [of "sample_uenv\<lparr>ue_fibmap := \<lambda>t k. if k = 0 then Some 7 else Some 0\<rparr>" sample_world
      "\<lparr>rg_ranges = [], rg_buffers = [ [1, 2] ], rg_head = 0, rg_tail = 1, rg_head_block = 3\<rparr>" 7 2]
  by (simp add: sample_uenv_def sample_world_def add_block_to_ranges_def)



text \<open>A command message that ends in a newline, as its lines suggest, makes \<open>setup_bcb\<close> hand an empty last option to
  the bootloader message code, which is undefined there.\<close>

theorem setup_bcb_trailing_newline:
  assumes "\<And>m. SplitLines (m @ [10]) = SplitLines m @ [ [] ]" "\<And>s p. StartsWith s p \<longleftrightarrow> take (length p) s = p"
    and "length hdr = 4" "ntohl hdr = int (length m + 1)" "list_all (\<lambda>s. \<not> StartsWith s (str ''--wipe_package='')) (SplitLines m)"
  shows "setup_bcb StartsWith SplitLines env (hdr @ m @ [10]) socket w = None"
proof -
  have opts: "bcb_options StartsWith files os wp = Some (os, wp)" if "list_all (\<lambda>s. \<not> StartsWith s (str ''--wipe_package='')) os" for files os wp
    using that by (induction os) auto
  have "\<not> StartsWith [] (str ''--wipe_package='')" by (simp add: assms(2) str_def)
  then have "bcb_options StartsWith (ue_files env) (SplitLines (m @ [10])) [] = Some (SplitLines m @ [ [] ], [])"
    using assms(5) by (subst assms(1)) (rule opts, simp add: list_all_append)
  then show ?thesis
    using assms(3,4)
    by (simp add: setup_bcb_def Let_def write_bootloader_message_options_def update_bootloader_message_in_struct_def recovery_text_lines)
qed

fun split_lines :: "bytes \<Rightarrow> bytes list" where
  "split_lines [] = [ [] ]"
| "split_lines (x # xs) =
     (if x = 10 then [] # split_lines xs else case split_lines xs of [] \<Rightarrow> [ [x] ] | p # ps \<Rightarrow> (x # p) # ps)"

lemma split_lines_not_Nil: "split_lines m \<noteq> []"
  by (cases m) (auto split: list.split)

lemma split_lines_newline: "split_lines (m @ [10]) = split_lines m @ [ [] ]"
  by (induction m) (auto simp: split_lines_not_Nil split: list.split)

theorem setup_bcb_trailing_newline_witness:
  "setup_bcb (\<lambda>s p. take (length p) s = p) split_lines sample_uenv ([0, 0, 0, 2] @ [65] @ [10]) 3 sample_world = None"
  by (rule setup_bcb_trailing_newline) (simp_all add: split_lines_newline ntohl_def str_def)

end
