(* ===== verification/Package_Pipeline.thy ===== *)
theory Package_Pipeline
  imports Uncrypt Fuse_Provider
begin

text \<open>
  How \<open>uncrypt/uncrypt.cpp\<close> and \<open>fuse_sideload/fuse_provider.cpp\<close> meet: uncrypt writes the blocks of a package to the
  device and a block map to a file, recovery parses the map and reads the package from the device. No code is
  modelled here; the theory relates the text that \<open>ProductBlockMap\<close> writes to the text that \<open>ParseBlockMapFile\<close>
  reads, and the device after uncrypt's writes to the bytes the provider delivers.
\<close>

section \<open>Text and words\<close>

definition word_range :: "int \<times> int \<Rightarrow> range" where
  "word_range p = (of_int (fst p), of_int (snd p))"

definition produced_map :: "string \<Rightarrow> bytes \<Rightarrow> nat \<Rightarrow> (nat \<Rightarrow> int) \<Rightarrow> block_map_data" where
  "produced_map blk_dev content bs phys =
     \<lparr>bm_path = blk_dev, bm_file_size = of_nat (length content), bm_block_size = of_nat bs,
      bm_block_ranges = \<lparr>rs_ranges = map word_range (pairs (ranges_of (map phys [0..<nblocks content bs]))),
        rs_blocks = of_nat (nblocks content bs)\<rparr>\<rparr>"

lemma show_int_nat: "0 \<le> x \<Longrightarrow> show_int x = to_dec (nat x)"
  by (simp add: show_int_def)

lemma join_lines: "ls \<noteq> [] \<Longrightarrow> join (CHR ''\<newline>'') ls @ ''\<newline>'' = concat (map (\<lambda>l. l @ ''\<newline>'') ls)"
  by (induction "CHR ''\<newline>''" ls rule: join.induct) auto

lemma length_pairs: "even (length xs) \<Longrightarrow> length (pairs xs) = length xs div 2"
  by (induction xs rule: pairs.induct) auto

lemma range_blocks_bounds:
  assumes "(a, b) \<in> set ps" "a < b"
  shows "a \<in> set (range_blocks ps)" "b - 1 \<in> set (range_blocks ps)"
  using assms by (auto simp: range_blocks_def intro!: bexI [of _ "(a, b)"])

lemma unat_of_int_64: "0 \<le> x \<Longrightarrow> x < 18446744073709551616 \<Longrightarrow> unat (of_int x :: u64) = nat x"
  using unat_of_nat_small [of "nat x", where ?'a = 64] by (simp add: nat_less_iff)

lemma of_int_less_64: "0 \<le> a \<Longrightarrow> a < b \<Longrightarrow> b < 18446744073709551616 \<Longrightarrow> (of_int a :: u64) < of_int b"
  by (simp add: word_less_nat_alt unat_of_int_64)

text \<open>The text \<open>ProductBlockMap\<close> writes is the text form of a block map.\<close>

lemma range_line_text:
  assumes "0 \<le> a" "a < b" "b < 18446744073709551616"
  shows "range_text (a, b) = range_line (word_range (a, b)) @ ''\<newline>''"
  using assms by (simp add: range_text_def range_line_def word_range_def show_int_nat unat_of_int_64)

lemma map_nat_upto: "0 \<le> a \<Longrightarrow> map nat [a..b - 1] = [nat a..<nat b]"
proof (induction "nat (b - a)" arbitrary: b)
  case (Suc m)
  then have ab: "a < b" by simp
  then have "[a..b - 1] = [a..(b - 1) - 1] @ [b - 1]" using upto_rec2 [of a "b - 1"] by simp
  moreover have "map nat [a..(b - 1) - 1] = [nat a..<nat (b - 1)]"
    using Suc.hyps ab by (intro Suc.hyps(1) Suc.prems) simp
  moreover have "nat b = Suc (nat (b - 1))" "nat a \<le> nat (b - 1)" using Suc.prems ab by simp_all
  ultimately show ?case by simp
qed simp

section \<open>The device after the writes\<close>

text \<open>The device after the writes of uncrypt.\<close>

definition apply_writes :: "(int \<times> bytes) list \<Rightarrow> bytes \<Rightarrow> bytes" where
  "apply_writes ws dev = foldl (\<lambda>dev (off, d). overwrite (nat off) d dev) dev ws"

lemma block_disjoint: "a \<noteq> (b :: nat) \<Longrightarrow> a * bs + bs \<le> b * bs \<or> b * bs + bs \<le> a * bs"
  using mult_le_mono1 [of "Suc a" b bs] mult_le_mono1 [of "Suc b" a bs] by (cases "a < b") auto

lemma apply_writes_block:
  assumes "map fst ws = map (\<lambda>k. int bs * phys k) [0..<length ws]" "\<forall>j<length ws. length (snd (ws ! j)) = bs"
    and "\<forall>j<length ws. 0 \<le> phys j \<and> (nat (phys j) + 1) * bs \<le> length dev" "inj_on phys {..<length ws}"
  shows "length (apply_writes ws dev) = length dev \<and>
    (\<forall>j<length ws. take bs (drop (nat (phys j) * bs) (apply_writes ws dev)) = snd (ws ! j))"
  using assms
proof (induction ws rule: rev_induct)
  case (snoc x ws)
  let ?n = "length ws"
  have x: "fst x = int bs * phys ?n" "length (snd x) = bs" "0 \<le> phys ?n" "(nat (phys ?n) + 1) * bs \<le> length dev"
    using snoc.prems by (auto simp: nth_append)
  have "map fst ws = map (\<lambda>k. int bs * phys k) [0..<?n]" using snoc.prems(1) by simp
  moreover have "\<forall>j<?n. length (snd (ws ! j)) = bs"
  proof (intro allI impI)
    fix j assume "j < ?n"
    then show "length (snd (ws ! j)) = bs" using snoc.prems(2) [rule_format, of j] by (simp add: nth_append)
  qed
  moreover have "\<forall>j<?n. 0 \<le> phys j \<and> (nat (phys j) + 1) * bs \<le> length dev" using snoc.prems(3) by auto
  moreover have "inj_on phys {..<?n}" using snoc.prems(4) by (rule inj_on_subset) auto
  ultimately have IH: "length (apply_writes ws dev) = length dev"
    "\<forall>j<?n. take bs (drop (nat (phys j) * bs) (apply_writes ws dev)) = snd (ws ! j)"
    using snoc.IH by blast+
  have off: "nat (fst x) = nat (phys ?n) * bs" using x(1,3) by (simp add: nat_mult_distrib mult.commute)
  have step: "apply_writes (ws @ [x]) dev = overwrite (nat (phys ?n) * bs) (snd x) (apply_writes ws dev)"
    using off by (cases x) (simp add: apply_writes_def)
  have fit: "nat (phys ?n) * bs + length (snd x) \<le> length (apply_writes ws dev)" using x(2,4) IH(1) by simp
  have "take bs (drop (nat (phys j) * bs) (apply_writes (ws @ [x]) dev)) = snd ((ws @ [x]) ! j)" if "j < Suc ?n" for j
  proof (cases "j = ?n")
    case True
    then show ?thesis using overwrite_at [OF fit] x(2) by (simp add: step)
  next
    case False
    then have j: "j < ?n" using that by simp
    have "phys j \<noteq> phys ?n" using snoc.prems(4) j False by (auto simp: inj_on_def)
    then have "nat (phys j) \<noteq> nat (phys ?n)" using x(3) snoc.prems(3) j by (simp add: eq_nat_nat_iff)
    then have "nat (phys j) * bs + bs \<le> nat (phys ?n) * bs \<or> nat (phys ?n) * bs + bs \<le> nat (phys j) * bs"
      by (rule block_disjoint)
    then have "take bs (drop (nat (phys j) * bs) (overwrite (nat (phys ?n) * bs) (snd x) (apply_writes ws dev))) =
        take bs (drop (nat (phys j) * bs) (apply_writes ws dev))"
      by (intro overwrite_frame [where len = bs]) (use x(2) fit in simp_all)
    then show ?thesis using IH(2) j by (simp add: step nth_append)
  qed
  then show ?case using fit IH(1) by (simp add: step)
qed (simp add: apply_writes_def)

text \<open>Buffers that hold the blocks of the file, one after the other, start with the file.\<close>

lemma nth_concat_uniform:
  assumes "\<forall>x\<in>set xs. length x = s" "i < length xs * s"
  shows "concat xs ! i = xs ! (i div s) ! (i mod s)"
proof -
  have s: "0 < s" using assms(2) by (cases s) auto
  have k: "i div s < length xs" using assms(2) by (simp add: less_mult_imp_div_less)
  have "i div s * s \<le> length (concat xs)" using concat_uniform(1) [OF assms(1)] assms(2) by (metis div_times_less_eq_dividend less_imp_le order_trans)
  then have "concat xs ! i = drop (i div s * s) (concat xs) ! (i mod s)" by simp
  also have "\<dots> = concat (xs ! (i div s) # drop (Suc (i div s)) xs) ! (i mod s)"
    using concat_uniform(2) [OF assms(1)] Cons_nth_drop_Suc [OF k] by simp
  also have "\<dots> = xs ! (i div s) ! (i mod s)" using assms(1) k s by (simp add: nth_append)
  finally show ?thesis .
qed

lemma holds_concat:
  assumes "\<forall>j<m. holds content bs j (d j)" "length content \<le> m * bs" "0 < bs"
  shows "take (length content) (concat (map d [0..<m])) = content"
proof (rule nth_equalityI)
  have u: "\<forall>x\<in>set (map d [0..<m]). length x = bs" using assms(1) by (auto simp: holds_def)
  show len: "length (take (length content) (concat (map d [0..<m]))) = length content"
    using concat_uniform(1) [OF u] assms(2) by simp
  fix i assume "i < length (take (length content) (concat (map d [0..<m])))"
  then have i: "i < length content" using len by simp
  then have k: "i div bs < m" using assms(2) by (simp add: less_mult_imp_div_less)
  have t: "i mod bs < length (file_block content bs (i div bs))"
    using i assms(3) by (simp add: file_block_def) (metis add.commute div_mult_mod_eq less_diff_conv)
  have "take (length content) (concat (map d [0..<m])) ! i = d (i div bs) ! (i mod bs)"
    using nth_concat_uniform [OF u, of i] i assms(2) k by simp
  also have "\<dots> = take (length (file_block content bs (i div bs))) (d (i div bs)) ! (i mod bs)" using t by simp
  also have "\<dots> = file_block content bs (i div bs) ! (i mod bs)" using assms(1) k by (simp add: holds_def)
  also have "\<dots> = content ! (i div bs * bs + i mod bs)"
  proof -
    have "i div bs * bs \<le> length content" using i by (meson div_times_less_eq_dividend less_imp_le order_trans)
    then show ?thesis using assms(3) by (simp only: file_block_def nth_take nth_drop mod_less_divisor)
  qed
  also have "\<dots> = content ! i" by simp
  finally show "take (length content) (concat (map d [0..<m])) ! i = content ! i" .
qed

section \<open>The map that uncrypt writes\<close>

text \<open>A package on a device whose sizes fit the types of the code and whose blocks are all different.\<close>

locale package_on_device = uncrypt_system +
  assumes small: "length content < 2 ^ 64" "bs < 2 ^ 32" "nblocks content bs < 2 ^ 31"
    and phys_small: "k < nblocks content bs \<Longrightarrow> phys k < 2 ^ 31 - 1"
    and phys_inj: "inj_on phys {..<nblocks content bs}"
begin

abbreviation blocks :: "int list" where
  "blocks \<equiv> map phys [0..<n]"

lemma range_ok:
  assumes "(a, b) \<in> set (pairs (ranges_of blocks))"
  shows "0 \<le> a" "a < b" "b < 18446744073709551616"
proof -
  note r = ranges_of_pairs [of blocks]
  show ab: "a < b" using r assms by (auto simp: list_all_iff)
  have "a \<in> set blocks" "b - 1 \<in> set blocks" using range_blocks_bounds [OF assms ab] r by simp_all
  then show "0 \<le> a" "b < 18446744073709551616" using phys_pos phys_small by (fastforce dest: order.strict_implies_order)+
qed

lemma produced_block_list: "block_list (bm_block_ranges (produced_map d content bs phys)) = map (\<lambda>k. nat (phys k)) [0..<nblocks content bs]"
proof -
  have "blocks_of (map word_range ps) = map nat (range_blocks ps)" if "\<forall>(a, b)\<in>set ps. 0 \<le> a \<and> a < b \<and> b < 18446744073709551616" for ps
    using that
    by (induction ps) (auto simp: blocks_of_def range_blocks_def word_range_def unat_of_int_64 map_nat_upto)
  moreover have "\<forall>(a, b)\<in>set (pairs (ranges_of blocks)). 0 \<le> a \<and> a < b \<and> b < 18446744073709551616" using range_ok by blast
  ultimately show ?thesis
    using ranges_of_pairs [of blocks] by (simp add: block_list_def produced_map_def)
qed

lemma produced_map_ok: "block_map_ok (produced_map d content bs phys)"
proof -
  let ?m = "produced_map d content bs phys"
  have sizes: "unat (bm_file_size ?m) = length content" "unat (bm_block_size ?m) = bs" "unat (rs_blocks (bm_block_ranges ?m)) = nblocks content bs"
    using small by (simp_all add: produced_map_def unat_of_nat_small)
  have ranges: "list_all (\<lambda>(a, b). a < b) (rs_ranges (bm_block_ranges ?m))"
    using range_ok by (auto simp: produced_map_def list_all_iff word_range_def intro!: of_int_less_64)
  have ne: "rs_ranges (bm_block_ranges ?m) \<noteq> []"
  proof -
    have "blocks \<noteq> []" by (simp add: nblocks_def)
    then have "range_blocks (pairs (ranges_of blocks)) \<noteq> []" using ranges_of_pairs [of blocks] by simp
    then show ?thesis by (auto simp: produced_map_def range_blocks_def)
  qed
  show ?thesis
    using small nonempty sizes ranges ne
    by (simp add: block_map_ok_def rs_inv_def produced_block_list) (simp add: nblocks_def)
qed

lemma produced_text:
  "map_text d (int (length content)) (int bs) (ranges_of blocks) =
     join (CHR ''\<newline>'') (block_map_lines (produced_map d content bs phys)) @ ''\<newline>''"
proof -
  let ?m = "produced_map d content bs phys"
  have sizes: "unat (bm_file_size ?m) = length content" "unat (bm_block_size ?m) = bs"
    using small by (simp_all add: produced_map_def unat_of_nat_small)
  have "concat (map range_text (pairs (ranges_of blocks))) =
      concat (map (\<lambda>l. l @ ''\<newline>'') (map range_line (rs_ranges (bm_block_ranges ?m))))"
    using range_ok by (auto simp: produced_map_def comp_def range_line_text intro!: arg_cong [where f = concat])
  moreover have "length (rs_ranges (bm_block_ranges ?m)) = length (ranges_of blocks) div 2"
    using ranges_of_pairs [of blocks] by (simp add: produced_map_def length_pairs)
  ultimately show ?thesis
    by (simp add: map_text_def join_lines block_map_lines_def sizes show_int_nat) (simp add: produced_map_def)
qed

lemma blocks_cover: "length content \<le> n * bs"
proof -
  have "\<not> n < n" by simp
  then show ?thesis using block_index [of n] by simp
qed

text \<open>What the installer reads after uncrypt has written the package to the device.\<close>

lemma uncrypt_installs:
  assumes lines: "libbase_lines Trim Split" and tmp: "uw_tmp w = []"
    and d: "d \<noteq> []" "CHR ''\<newline>'' \<notin> set d" "\<not> is_space (hd d)"
    and dev: "\<forall>k<n. (nat (phys k) + 1) * bs \<le> length dev" "length dev < 2 ^ 64"
    and fuse: "open_ok d" "fbs mod of_nat bs = 0"
  shows "\<exists>w' ws p. ProductBlockMap env d True f2fs_fs socket w = Some (Inr (), w') \<and> uw_disk w' = uw_disk w @ ws \<and>
    CreateFromBlockMap open_ok (ParseBlockMapFile Trim Split (uw_map w')) fbs = Ret (Some p) \<and>
    bp_ok (apply_writes ws dev) p \<and> bp_content (apply_writes ws dev) p = content \<and> bp_file_size p = of_nat (length content) \<and>
    bp_fuse_block_size p = fbs"
proof -
  let ?m = "produced_map d content bs phys"
  obtain w' ws where run: "ProductBlockMap env d True f2fs_fs socket w = Some (Inr (), w')"
      "uw_map w' = Some (join (CHR ''\<newline>'') (block_map_lines ?m) @ ''\<newline>'')" "uw_disk w' = uw_disk w @ ws"
      "map fst ws = map (\<lambda>k. int bs * phys k) [0..<n]" "\<forall>j<length ws. holds content bs j (snd (ws ! j))"
    using ProductBlockMap_writes [of w "[]" d True f2fs_fs socket] tmp by (auto simp: produced_text)
  have lw: "length ws = n" using run(4) by (metis diff_zero length_map length_upt)
  have "ParseBlockMapFile Trim Split (uw_map w') = ?m"
    using libbase_lines.ParseBlockMapFile_text [OF lines produced_map_ok, of d] d run(2) by (simp add: produced_map_def)
  moreover define p where "p = \<lparr>bp_file_size = bm_file_size ?m, bp_fuse_block_size = fbs, bp_open = True,
      bp_source_block_size = bm_block_size ?m, bp_ranges = bm_block_ranges ?m\<rparr>"
  have cr: "CreateFromBlockMap open_ok ?m fbs = Ret (Some p)"
    using d(1) fuse by (simp add: CreateFromBlockMap_def FuseBlockDataProvider_def bm_valid_def p_def) (simp add: produced_map_def)
  let ?dev = "apply_writes ws dev"
  have wr: "length ?dev = length dev" "\<forall>j<n. take bs (drop (nat (phys j) * bs) ?dev) = snd (ws ! j)"
    using apply_writes_block [of ws bs phys dev] run(4,5) lw dev(1) phys_pos phys_inj by (auto simp: holds_def order.strict_implies_order)
  have sizes: "unat (bm_block_size ?m) = bs" "unat (bm_file_size ?m) = length content"
    using small by (simp_all add: produced_map_def unat_of_nat_small)
  have ok: "bp_ok ?dev p"
    using CreateFromBlockMap_ok(1) [OF produced_map_ok cr, of ?dev] dev wr(1)
    by (simp add: produced_block_list list_all_iff sizes)
  have "mapped_bytes ?dev bs (block_list (bm_block_ranges ?m)) = concat (map (\<lambda>j. snd (ws ! j)) [0..<n])"
    using wr(2) by (auto simp: mapped_bytes_def produced_block_list blk_def comp_def intro!: arg_cong [where f = concat])
  then have "bp_content ?dev p = content"
    using holds_concat [of n content bs "\<lambda>j. snd (ws ! j)"] run(5) lw blocks_cover nonempty(2)
    by (simp add: bp_content_def p_def sizes)
  with run(1,3) cr ok show ?thesis using calculation by (auto simp: p_def produced_map_def)
qed

end

section \<open>Properties\<close>

interpretation sample_package: package_on_device sample_uenv "[1, 2, 3, 4, 5]" 2 sample_phys
  by unfold_locales (simp_all add: sample_phys_def nblocks_def inj_on_def split: if_splits)

end
