(* ===== verification/Rpc_Protocol.thy ===== *)
theory Rpc_Protocol
  imports Recovery_Prelude "HOL-Library.AList"
begin

text \<open>
  The wire protocol of the AERA command interface, \<open>aera_rpc/aera_protocol.cpp\<close>: a request is one JSON object, the
  answer is a stream of JSON objects, one per line. The first section holds the requests, the events and the log
  stream that turns printed text into events. The rest proves that a client which splits the answer at line ends
  gets the events back, and that the log stream loses nothing.
\<close>

section \<open>Requests and events\<close>

text \<open>
  The JSON library is a parameter: its values are of type \<open>'j\<close> and the record names the functions of jsoncpp that
  the code calls. \<open>j_get\<close> is \<open>operator[]\<close>, which gives the null value for a missing member.
\<close>

record 'j jsoncpp =
  j_parse :: "string \<Rightarrow> 'j option"
  j_write :: "'j \<Rightarrow> string"
  j_object :: 'j
  j_array :: 'j
  j_str :: "string \<Rightarrow> 'j"
  j_int :: "int \<Rightarrow> 'j"
  j_bool :: "bool \<Rightarrow> 'j"
  j_set :: "'j \<Rightarrow> string \<Rightarrow> 'j \<Rightarrow> 'j"
  j_append :: "'j \<Rightarrow> 'j \<Rightarrow> 'j"
  j_get :: "'j \<Rightarrow> string \<Rightarrow> 'j"
  j_elems :: "'j \<Rightarrow> 'j list"
  j_isMember :: "'j \<Rightarrow> string \<Rightarrow> bool"
  j_isObject :: "'j \<Rightarrow> bool"
  j_isArray :: "'j \<Rightarrow> bool"
  j_isString :: "'j \<Rightarrow> bool"
  j_asString :: "'j \<Rightarrow> string"
  j_isInt :: "'j \<Rightarrow> bool"
  j_asInt :: "'j \<Rightarrow> int"
  j_isBool :: "'j \<Rightarrow> bool"
  j_asBool :: "'j \<Rightarrow> bool"

text \<open>The text that was written to each stream, streams being numbered in the order they were opened.\<close>

type_synonym files = "nat \<Rightarrow> string"

definition kMaximumRequestBytes :: nat where
  "kMaximumRequestBytes = 1048576"

definition with_id :: "'j jsoncpp \<Rightarrow> 'j \<Rightarrow> string \<Rightarrow> 'j" where
  "with_id J event ident = (if ident \<noteq> [] then j_set J event ''id'' (j_str J ident) else event)"

definition event_line :: "'j jsoncpp \<Rightarrow> 'j \<Rightarrow> string \<Rightarrow> string" where
  "event_line J event ident = j_write J (with_id J event ident) @ ''\<newline>''"

definition Send :: "'j jsoncpp \<Rightarrow> nat option \<Rightarrow> 'j \<Rightarrow> string \<Rightarrow> files \<Rightarrow> files" where
  "Send J out event ident fs =
     (case out of None \<Rightarrow> fs | Some s \<Rightarrow> fs(s := fs s @ event_line J event ident))"

text \<open>The two writes that \<open>Send\<close> makes, one after the other.\<close>

definition send_calls :: "'j jsoncpp \<Rightarrow> 'j \<Rightarrow> string \<Rightarrow> string list" where
  "send_calls J event ident = [j_write J (with_id J event ident), ''\<newline>'']"

record 'j request =
  rq_version :: int
  rq_id :: string
  rq_operation :: string
  rq_arguments :: 'j
  rq_error :: string

definition Request_empty :: "'j jsoncpp \<Rightarrow> 'j request" where
  "Request_empty J = \<lparr>rq_version = 0, rq_id = [], rq_operation = [], rq_arguments = j_object J, rq_error = []\<rparr>"

definition valid :: "'j request \<Rightarrow> bool" where
  "valid r \<longleftrightarrow> rq_error r = []"

definition ParseRequest :: "'j jsoncpp \<Rightarrow> string \<Rightarrow> 'j request" where
  "ParseRequest J json =
     (let request = Request_empty J in
      if json = [] then request\<lparr>rq_error := ''empty_request''\<rparr>
      else if length json > kMaximumRequestBytes then request\<lparr>rq_error := ''request_too_large''\<rparr>
      else case j_parse J json of None \<Rightarrow> request\<lparr>rq_error := ''invalid_json''\<rparr>
      | Some root \<Rightarrow>
        if \<not> j_isObject J root then request\<lparr>rq_error := ''invalid_json''\<rparr>
        else if \<not> j_isInt J (j_get J root ''v'') \<or> j_asInt J (j_get J root ''v'') \<noteq> 1 then
          request\<lparr>rq_error := ''unsupported_version''\<rparr>
        else if \<not> j_isString J (j_get J root ''op'') \<or> j_asString J (j_get J root ''op'') = [] then
          request\<lparr>rq_error := ''missing_operation''\<rparr>
        else if j_isMember J root ''args'' \<and> \<not> j_isObject J (j_get J root ''args'') then
          request\<lparr>rq_error := ''invalid_arguments''\<rparr>
        else request\<lparr>rq_version := 1,
          rq_id := (if j_isString J (j_get J root ''id'') then j_asString J (j_get J root ''id'') else []),
          rq_operation := j_asString J (j_get J root ''op''),
          rq_arguments := (if j_isMember J root ''args'' then j_get J root ''args'' else j_object J)\<rparr>)"

definition log_event :: "'j jsoncpp \<Rightarrow> string \<Rightarrow> 'j" where
  "log_event J txt = j_set J (j_set J (j_object J) ''event'' (j_str J ''log'')) ''text'' (j_str J txt)"

definition WriteLog :: "'j jsoncpp \<Rightarrow> nat option \<Rightarrow> string \<Rightarrow> string \<Rightarrow> files \<Rightarrow> files" where
  "WriteLog J out ident txt = Send J out (log_event J txt) ident"

definition data_event :: "'j jsoncpp \<Rightarrow> string \<Rightarrow> 'j \<Rightarrow> 'j" where
  "data_event J name v =
     j_set J (j_set J (j_set J (j_object J) ''event'' (j_str J ''data'')) ''name'' (j_str J name)) ''value'' v"

definition WriteData :: "'j jsoncpp \<Rightarrow> nat option \<Rightarrow> string \<Rightarrow> string \<Rightarrow> 'j \<Rightarrow> files \<Rightarrow> files" where
  "WriteData J out ident name v = Send J out (data_event J name v) ident"

definition progress_event :: "'j jsoncpp \<Rightarrow> string \<Rightarrow> int \<Rightarrow> 'j \<Rightarrow> 'j" where
  "progress_event J phase percent details =
     j_set J (j_set J (j_set J (if j_isObject J details then details else j_object J)
       ''event'' (j_str J ''progress'')) ''phase'' (j_str J phase)) ''percent'' (j_int J (max 0 (min percent 100)))"

definition WriteProgress :: "'j jsoncpp \<Rightarrow> nat option \<Rightarrow> string \<Rightarrow> string \<Rightarrow> int \<Rightarrow> 'j \<Rightarrow> files \<Rightarrow> files" where
  "WriteProgress J out ident phase percent details = Send J out (progress_event J phase percent details) ident"

definition error_event :: "'j jsoncpp \<Rightarrow> string \<Rightarrow> string \<Rightarrow> 'j" where
  "error_event J code message =
     j_set J (j_set J (j_set J (j_object J) ''event'' (j_str J ''error'')) ''code'' (j_str J code)) ''message'' (j_str J message)"

definition WriteError :: "'j jsoncpp \<Rightarrow> nat option \<Rightarrow> string \<Rightarrow> string \<Rightarrow> string \<Rightarrow> files \<Rightarrow> files" where
  "WriteError J out ident code message = Send J out (error_event J code message) ident"

definition result_event :: "'j jsoncpp \<Rightarrow> int \<Rightarrow> 'j" where
  "result_event J code = j_set J (j_set J (j_object J) ''event'' (j_str J ''result'')) ''code'' (j_int J code)"

definition WriteResult :: "'j jsoncpp \<Rightarrow> nat option \<Rightarrow> string \<Rightarrow> int \<Rightarrow> files \<Rightarrow> files" where
  "WriteResult J out ident code = Send J out (result_event J code) ident"

section \<open>The log stream\<close>

record log_stream =
  ls_output :: "nat option"
  ls_id :: string
  ls_pending :: string

fun find_char :: "char \<Rightarrow> string \<Rightarrow> nat option" where
  "find_char c [] = None"
| "find_char c (x # xs) = (if x = c then Some 0 else map_option Suc (find_char c xs))"

lemma find_char_Some: "find_char c xs = Some n \<Longrightarrow> n < length xs \<and> xs ! n = c \<and> c \<notin> set (take n xs)"
  by (induction xs arbitrary: n) (auto split: if_splits)

lemma find_char_None: "find_char c xs = None \<longleftrightarrow> c \<notin> set xs"
  by (induction xs) auto

function FlushLines :: "'j jsoncpp \<Rightarrow> bool \<Rightarrow> log_stream \<Rightarrow> files \<Rightarrow> log_stream \<times> files" where
  "FlushLines J flush_tail st fs =
     (case find_char CHR ''\<newline>'' (ls_pending st) of
        Some n \<Rightarrow> FlushLines J flush_tail (st\<lparr>ls_pending := drop (n + 1) (ls_pending st)\<rparr>)
                    (WriteLog J (ls_output st) (ls_id st) (take (n + 1) (ls_pending st)) fs)
      | None \<Rightarrow>
          if flush_tail \<and> ls_pending st \<noteq> []
          then (st\<lparr>ls_pending := []\<rparr>, WriteLog J (ls_output st) (ls_id st) (ls_pending st) fs)
          else (st, fs))"
  by pat_completeness auto
termination
  by (relation "measure (\<lambda>(J, t, st, fs). length (ls_pending st))") (auto dest: find_char_Some)

declare FlushLines.simps [simp del]

definition LogWrite :: "'j jsoncpp \<Rightarrow> log_stream \<Rightarrow> string \<Rightarrow> files \<Rightarrow> int \<times> log_stream \<times> files" where
  "LogWrite J st data fs =
     (if data = [] then (0, st, fs)
      else (int (length data), FlushLines J False (st\<lparr>ls_pending := ls_pending st @ data\<rparr>) fs))"

definition LogClose :: "'j jsoncpp \<Rightarrow> log_stream \<Rightarrow> files \<Rightarrow> files" where
  "LogClose J st fs = snd (FlushLines J True st fs)"

text \<open>\<open>funopen\<close> may fail; the stream has no buffer of its own.\<close>

definition OpenLogStream :: "bool \<Rightarrow> nat option \<Rightarrow> string \<Rightarrow> log_stream option" where
  "OpenLogStream funopen_ok out ident = (if funopen_ok then Some \<lparr>ls_output = out, ls_id = ident, ls_pending = []\<rparr> else None)"

section \<open>What the library promises\<close>

text \<open>
  The documented behaviour of jsoncpp that the protocol relies on: members read back as they were set, the values of
  different strings differ, an object stays one when a member is set, and a value written with an empty
  indentation is one line.
\<close>

locale json_library =
  fixes J :: "'j jsoncpp"
  assumes get_set: "j_isObject J v \<Longrightarrow> j_get J (j_set J v k x) k' = (if k' = k then x else j_get J v k')"
    and object: "j_isObject J (j_object J)" "j_isObject J v \<Longrightarrow> j_isObject J (j_set J v k x)"
    and str: "j_isString J (j_str J s)" "j_asString J (j_str J s) = s"
    and one_line: "CHR ''\<newline>'' \<notin> set (j_write J v)"
begin

lemma str_inject: "j_str J s = j_str J t \<longleftrightarrow> s = t"
  using str(2) by metis

lemma event_kinds:
  "j_get J (log_event J txt) ''event'' = j_str J ''log''"
  "j_get J (data_event J name v) ''event'' = j_str J ''data''"
  "j_get J (progress_event J phase percent details) ''event'' = j_str J ''progress''"
  "j_get J (error_event J code message) ''event'' = j_str J ''error''"
  "j_get J (result_event J c) ''event'' = j_str J ''result''"
  by (simp_all add: log_event_def data_event_def progress_event_def error_event_def result_event_def get_set object)

lemma events_are_objects:
  "j_isObject J (log_event J txt)" "j_isObject J (data_event J name v)" "j_isObject J (progress_event J phase percent details)"
  "j_isObject J (error_event J code message)" "j_isObject J (result_event J c)"
  by (simp_all add: log_event_def data_event_def progress_event_def error_event_def result_event_def object)

end

section \<open>Lines\<close>

text \<open>A client cuts the answer at line ends.\<close>

fun client_lines :: "string \<Rightarrow> string \<Rightarrow> string list" where
  "client_lines acc [] = []"
| "client_lines acc (c # cs) = (if c = CHR ''\<newline>'' then acc # client_lines [] cs else client_lines (acc @ [c]) cs)"

lemma client_lines_line: "CHR ''\<newline>'' \<notin> set l \<Longrightarrow> client_lines acc (l @ CHR ''\<newline>'' # t) = (acc @ l) # client_lines [] t"
  by (induction l arbitrary: acc) auto

lemma client_lines_lines: "list_all (\<lambda>l. CHR ''\<newline>'' \<notin> set l) ls \<Longrightarrow> client_lines [] (concat (map (\<lambda>l. l @ ''\<newline>'') ls)) = ls"
  by (induction ls) (auto simp: client_lines_line)

definition log_lines :: "'j jsoncpp \<Rightarrow> string \<Rightarrow> string list \<Rightarrow> string" where
  "log_lines J ident ts = concat (map (\<lambda>t. event_line J (log_event J t) ident) ts)"

lemma log_lines_simps [simp]:
  "log_lines J ident [] = []" "log_lines J ident (t # ts) = event_line J (log_event J t) ident @ log_lines J ident ts"
  "log_lines J ident (ts @ us) = log_lines J ident ts @ log_lines J ident us"
  by (simp_all add: log_lines_def)

definition whole_line :: "string \<Rightarrow> bool" where
  "whole_line t \<longleftrightarrow> t \<noteq> [] \<and> last t = CHR ''\<newline>'' \<and> CHR ''\<newline>'' \<notin> set (butlast t)"

lemma FlushLines_lines:
  assumes "ls_output st = Some s"
  shows "\<exists>ts rest. concat ts @ rest = ls_pending st \<and> list_all whole_line ts \<and> CHR ''\<newline>'' \<notin> set rest \<and>
    FlushLines J flush_tail st fs =
      (st\<lparr>ls_pending := (if flush_tail then [] else rest)\<rparr>,
       fs(s := fs s @ log_lines J (ls_id st) (if flush_tail \<and> rest \<noteq> [] then ts @ [rest] else ts)))"
  using assms
proof (induction J flush_tail st fs rule: FlushLines.induct)
  case (1 J flush_tail st fs)
  show ?case
  proof (cases "find_char CHR ''\<newline>'' (ls_pending st)")
    case None
    moreover from this have "CHR ''\<newline>'' \<notin> set (ls_pending st)" by (simp add: find_char_None)
    ultimately show ?thesis
      using "1.prems" by (intro exI [of _ "[] :: string list"] exI [of _ "ls_pending st"])
        (auto simp: FlushLines.simps [of J flush_tail st fs] WriteLog_def Send_def fun_eq_iff)
  next
    case (Some n)
    let ?l = "take (n + 1) (ls_pending st)" and ?st = "st\<lparr>ls_pending := drop (n + 1) (ls_pending st)\<rparr>"
    have st': "ls_output ?st = Some s" using "1.prems" by simp
    obtain ts rest where ih: "concat ts @ rest = ls_pending ?st" "list_all whole_line ts" "CHR ''\<newline>'' \<notin> set rest"
      "FlushLines J flush_tail ?st (WriteLog J (ls_output st) (ls_id st) ?l fs) =
        (?st\<lparr>ls_pending := (if flush_tail then [] else rest)\<rparr>, (WriteLog J (ls_output st) (ls_id st) ?l fs)(s :=
          WriteLog J (ls_output st) (ls_id st) ?l fs s @ log_lines J (ls_id ?st) (if flush_tail \<and> rest \<noteq> [] then ts @ [rest] else ts)))"
      using "1.IH" [OF Some] "1.prems" st' by blast
    have "whole_line ?l"
      using find_char_Some [OF Some] by (simp add: whole_line_def take_Suc_conv_app_nth)
    then show ?thesis
      using ih Some "1.prems" append_take_drop_id [of "n + 1" "ls_pending st"]
      by (intro exI [of _ "?l # ts"] exI [of _ rest])
         (auto simp: FlushLines.simps [of J flush_tail st fs] WriteLog_def Send_def simp del: append_take_drop_id)
  qed
qed

text \<open>A log stream that is written to several times and then closed.\<close>

fun log_writes :: "'j jsoncpp \<Rightarrow> string list \<Rightarrow> log_stream \<times> files \<Rightarrow> log_stream \<times> files" where
  "log_writes J [] sf = sf"
| "log_writes J (d # ds) sf = log_writes J ds (snd (LogWrite J (fst sf) d (snd sf)))"

lemma log_writes_lines:
  assumes "ls_output st = Some s" "CHR ''\<newline>'' \<notin> set (ls_pending st)"
  shows "\<exists>ts rest. concat ts @ rest = ls_pending st @ concat ds \<and> list_all whole_line ts \<and> CHR ''\<newline>'' \<notin> set rest \<and>
    log_writes J ds (st, fs) = (st\<lparr>ls_pending := rest\<rparr>, fs(s := fs s @ log_lines J (ls_id st) ts))"
  using assms
proof (induction ds arbitrary: st fs)
  case Nil
  then show ?case by (intro exI [of _ "[] :: string list"] exI [of _ "ls_pending st"]) auto
next
  case (Cons d ds)
  show ?case
  proof (cases "d = []")
    case True
    then show ?thesis using Cons by (simp add: LogWrite_def)
  next
    case False
    obtain ts rest where f: "concat ts @ rest = ls_pending st @ d" "list_all whole_line ts" "CHR ''\<newline>'' \<notin> set rest"
      "snd (LogWrite J st d fs) = (st\<lparr>ls_pending := rest\<rparr>, fs(s := fs s @ log_lines J (ls_id st) ts))"
      using FlushLines_lines [of "st\<lparr>ls_pending := ls_pending st @ d\<rparr>" s J False fs] False Cons.prems
      by (auto simp: LogWrite_def)
    define st' fs' where "st' = st\<lparr>ls_pending := rest\<rparr>" and "fs' = fs(s := fs s @ log_lines J (ls_id st) ts)"
    have "ls_output st' = Some s" "CHR ''\<newline>'' \<notin> set (ls_pending st')" using Cons.prems(1) f(3) by (simp_all add: st'_def)
    from Cons.IH [OF this, of fs'] obtain us rest' where g: "concat us @ rest' = ls_pending st' @ concat ds" "list_all whole_line us"
      "CHR ''\<newline>'' \<notin> set rest'" "log_writes J ds (st', fs') = (st'\<lparr>ls_pending := rest'\<rparr>, fs'(s := fs' s @ log_lines J (ls_id st') us))"
      by blast
    have "concat (ts @ us) @ rest' = (concat ts @ rest) @ concat ds" using g(1) by (simp add: st'_def)
    then have "concat (ts @ us) @ rest' = ls_pending st @ concat (d # ds)" using f(1) by simp
    moreover have "log_writes J (d # ds) (st, fs) = (st\<lparr>ls_pending := rest'\<rparr>, fs(s := fs s @ log_lines J (ls_id st) (ts @ us)))"
      using f(4) g(4) by (simp add: st'_def fs'_def)
    moreover have "list_all whole_line (ts @ us)" using f(2) g(2) by simp
    ultimately show ?thesis using g(3) by blast
  qed
qed

section \<open>A small JSON library\<close>

text \<open>Enough of JSON to run the protocol on: values as trees, printed on one line.\<close>

datatype json = JNull | JBool bool | JInt int | JStr string | JArr "json list" | JObj "(string \<times> json) list"

definition quoted :: "string \<Rightarrow> string" where
  "quoted s = CHR 0x22 # concat (map (\<lambda>c. if c = CHR ''\<newline>'' then [CHR 0x5C, CHR ''n''] else [c]) s) @ [CHR 0x22]"

fun show_json :: "json \<Rightarrow> string" where
  "show_json JNull = ''null''"
| "show_json (JBool b) = (if b then ''true'' else ''false'')"
| "show_json (JInt i) = show_int i"
| "show_json (JStr s) = quoted s"
| "show_json (JArr xs) = ''['' @ concat (map (\<lambda>x. show_json x @ '','') xs) @ '']''"
| "show_json (JObj kvs) = ''{'' @ concat (map (\<lambda>kv. quoted (fst kv) @ '':'' @ show_json (snd kv) @ '','') kvs) @ ''}''"

definition members :: "json \<Rightarrow> (string \<times> json) list" where
  "members v = (case v of JObj kvs \<Rightarrow> kvs | _ \<Rightarrow> [])"

definition sample_request :: json where
  "sample_request = JObj [(''v'', JInt 1), (''id'', JStr ''7''), (''op'', JStr ''format_data''), (''args'', JObj [(''confirm'', JBool True)])]"

definition small_json :: "json jsoncpp" where
  "small_json = \<lparr>j_parse = \<lambda>s. if s = ''{}'' then Some (JObj []) else if s = ''sample'' then Some sample_request else None,
     j_write = show_json, j_object = JObj [], j_array = JArr [], j_str = JStr, j_int = JInt, j_bool = JBool,
     j_set = \<lambda>v k x. JObj (AList.update k x (members v)),
     j_append = \<lambda>v x. (case v of JArr xs \<Rightarrow> JArr (xs @ [x]) | _ \<Rightarrow> v),
     j_get = \<lambda>v k. (case map_of (members v) k of None \<Rightarrow> JNull | Some x \<Rightarrow> x),
     j_elems = \<lambda>v. (case v of JArr xs \<Rightarrow> xs | _ \<Rightarrow> []),
     j_isMember = \<lambda>v k. map_of (members v) k \<noteq> None,
     j_isObject = \<lambda>v. (case v of JObj _ \<Rightarrow> True | _ \<Rightarrow> False), j_isArray = \<lambda>v. (case v of JArr _ \<Rightarrow> True | _ \<Rightarrow> False),
     j_isString = \<lambda>v. (case v of JStr _ \<Rightarrow> True | _ \<Rightarrow> False), j_asString = \<lambda>v. (case v of JStr s \<Rightarrow> s | _ \<Rightarrow> []),
     j_isInt = \<lambda>v. (case v of JInt _ \<Rightarrow> True | _ \<Rightarrow> False), j_asInt = \<lambda>v. (case v of JInt i \<Rightarrow> i | _ \<Rightarrow> 0),
     j_isBool = \<lambda>v. (case v of JBool _ \<Rightarrow> True | _ \<Rightarrow> False), j_asBool = \<lambda>v. (case v of JBool b \<Rightarrow> b | _ \<Rightarrow> False)\<rparr>"

lemma quoted_one_line: "CHR ''\<newline>'' \<notin> set (quoted s)"
  by (auto simp: quoted_def)

lemma show_int_one_line: "CHR ''\<newline>'' \<notin> set (show_int i)"
  using to_dec_digits [of "nat i"] to_dec_digits [of "nat (- i)"] by (auto simp: show_int_def list_all_iff is_digit_def)

lemma show_json_one_line: "CHR ''\<newline>'' \<notin> set (show_json v)"
  by (induction v rule: show_json.induct) (auto simp: quoted_one_line show_int_one_line)

interpretation small: json_library small_json
  by unfold_locales
     (auto simp: small_json_def members_def update_conv show_json_one_line split: json.splits)

section \<open>Properties of the protocol\<close>


text \<open>C38. \<open>Send\<close> is not atomic: it writes the event and the line end with two calls. Two threads that send without a common
  lock, as \<open>gui_print\<close> under its own mutex and the dispatcher under another do, can interleave the calls so that the
  client reads the two events as one line, followed by an empty one.\<close>

theorem Send_interleaves:
  assumes "json_library J"
  shows "Send J (Some s) a i fs s = fs s @ concat (send_calls J a i) \<and>
    (\<exists>xs\<in>shuffles (send_calls J a i) (send_calls J b k).
       client_lines [] (concat xs) = [j_write J (with_id J a i) @ j_write J (with_id J b k), []])"
proof -
  let ?x = "j_write J (with_id J a i)" and ?y = "j_write J (with_id J b k)" and ?n = "[CHR ''\<newline>'']"
  have "[?x, ?y, ?n, ?n] \<in> shuffles (send_calls J a i) (send_calls J b k)" by (simp add: send_calls_def)
  moreover have "client_lines [] (concat [?x, ?y, ?n, ?n]) = [?x @ ?y, []]"
    using client_lines_line [of "?x @ ?y" "[]" ?n] json_library.one_line [OF assms] by simp
  ultimately show ?thesis by (auto simp: Send_def event_line_def send_calls_def)
qed

theorem Send_interleaves_witness:
  "\<exists>xs\<in>shuffles (send_calls small_json (log_event small_json ''a'') []) (send_calls small_json (log_event small_json ''b'') []).
     length (client_lines [] (concat xs)) = 2 \<and> last (client_lines [] (concat xs)) = []"
  using Send_interleaves [OF small.json_library_axioms, of 0 "log_event small_json ''a''" "[]" "\<lambda>_. []" "log_event small_json ''b''" "[]"]
  by (elim conjE bexE, intro bexI) simp_all

end
