(* ===== verification/Rpc_Engine.thy ===== *)
theory Rpc_Engine
  imports Rpc_Protocol
begin

text \<open>
  The operations of the AERA command interface, \<open>aera_rpc/aera_engine.cpp\<close>. An operation talks to the recovery
  through function calls and to the client through events, while other threads go on; so it is modelled as a
  program: a tree whose nodes are the calls and events in the order of the code, with one branch for each answer.
  The first section holds the vocabulary, the second the operations, the third what every run of them keeps.
\<close>

section \<open>Calls and events\<close>

datatype job =
    kInstall | kSideload | kFlashImage | kExtractPayload | kFlashPayload | kBackup | kUploadBackup | kRestore | kWipe
  | kMount | kUnmount | kFormatData | kClearSnapshotCow | kRootOperation | kPcBackupOperation | kFormatUsb | kNetworkStorage

text \<open>The fields of a job that the engine sets; the others keep their initial values.\<close>

record job_request =
  jr_job :: job
  jr_title :: string
  jr_path :: string
  jr_name :: string
  jr_partitions :: "string list"
  jr_compression :: bool
  jr_digest :: bool
  jr_confirmation :: string

definition JobRequest_empty :: job_request where
  "JobRequest_empty = \<lparr>jr_job = kInstall, jr_title = [], jr_path = [], jr_name = [], jr_partitions = [],
     jr_compression = True, jr_digest = True, jr_confirmation = []\<rparr>"

record volume =
  vol_name :: string
  vol_path :: string
  vol_bytes :: nat
  vol_selected :: bool

record wifi_network =
  wn_ssid :: string
  wn_security :: string
  wn_saved :: bool
  wn_connected :: bool

record wifi_status =
  ws_supported :: bool
  ws_enabled :: bool
  ws_connected :: bool
  ws_busy :: bool
  ws_state :: string
  ws_ssid :: string
  ws_ip_address :: string
  ws_networks :: "wifi_network list"

datatype wifi_operation = kEnable | kDisable | kDisconnect | kScan | kConnect | kForget | kTest

record wifi_request =
  wr_operation :: wifi_operation
  wr_ssid :: string
  wr_password :: string
  wr_use_saved_credentials :: bool

datatype reboot_command = rb_system | rb_recovery | rb_poweroff | rb_bootloader | rb_download | rb_edl | rb_fastboot

datatype mode_transition = kAccepted | kAlreadyActive | kBusy | kUnavailable

text \<open>The calls, by the type of their result.\<close>

datatype int_call =
    RecoveryRunJob job_request | RecoveryRunWifi wifi_request | RecoveryDecrypt string int | RecoveryBrightness
  | Repair_By_Path string | Resize_By_Path string | Wipe_By_Path string | Wipe_By_Path_as string string | RemotePort

datatype bool_call = RecoveryDataLocked | RecoveryMtpEnabled | RecoverySetMtp bool | RemoteStart int | RemoteRunning

datatype string_call =
    RecoveryVersion | RecoveryBuildType | RecoveryBuildDate | RecoveryDevice | RecoveryMaintainer | RecoverySlot
  | RecoveryStorage | RecoveryBackupRoot | RemoteAddress | RemoteAccessCode

datatype volume_call = RecoveryVolumes string | RecoveryRestoreVolumes string

datatype unit_call = Update_System_Details | Sync | Tw_reboot reboot_command | RemoteStop

datatype 'j event = ELog string | EData string 'j | EError string string

datatype 'j prog =
    Return int
  | Emit "'j event" "'j prog"
  | Do unit_call "'j prog"
  | AskInt int_call "int \<Rightarrow> 'j prog"
  | AskBool bool_call "bool \<Rightarrow> 'j prog"
  | AskString string_call "string \<Rightarrow> 'j prog"
  | AskVolumes volume_call "volume list \<Rightarrow> 'j prog"
  | AskWifi "wifi_status \<Rightarrow> 'j prog"
  | AskTransition bool "mode_transition \<Rightarrow> 'j prog"
  | AskLog "string list option \<Rightarrow> 'j prog"

section \<open>The operations\<close>

definition Text :: "'j jsoncpp \<Rightarrow> 'j \<Rightarrow> string \<Rightarrow> string \<Rightarrow> string" where
  "Text J args name fallback = (if j_isString J (j_get J args name) then j_asString J (j_get J args name) else fallback)"

definition Flag :: "'j jsoncpp \<Rightarrow> 'j \<Rightarrow> string \<Rightarrow> bool \<Rightarrow> bool" where
  "Flag J args name fallback = (if j_isBool J (j_get J args name) then j_asBool J (j_get J args name) else fallback)"

definition Number :: "'j jsoncpp \<Rightarrow> 'j \<Rightarrow> string \<Rightarrow> int \<Rightarrow> int" where
  "Number J args name fallback = (if j_isInt J (j_get J args name) then j_asInt J (j_get J args name) else fallback)"

definition Strings :: "'j jsoncpp \<Rightarrow> 'j \<Rightarrow> string \<Rightarrow> string list" where
  "Strings J args name =
     (let array = j_get J args name in
      if \<not> j_isArray J array then []
      else map (j_asString J) (filter (\<lambda>e. j_isString J e \<and> j_asString J e \<noteq> []) (j_elems J array)))"

definition volume_item :: "'j jsoncpp \<Rightarrow> bool \<Rightarrow> volume \<Rightarrow> 'j" where
  "volume_item J mounted_state v =
     j_set J (j_set J (j_set J (j_set J (j_object J) ''name'' (j_str J (vol_name v))) ''path'' (j_str J (vol_path v)))
       ''bytes'' (j_int J (int (vol_bytes v)))) (if mounted_state then ''mounted'' else ''selected'') (j_bool J (vol_selected v))"

definition Volumes :: "'j jsoncpp \<Rightarrow> volume list \<Rightarrow> bool \<Rightarrow> 'j" where
  "Volumes J volumes mounted_state =
     j_set J (j_object J) ''items'' (foldl (j_append J) (j_array J) (map (volume_item J mounted_state) volumes))"

definition Fail :: "string \<Rightarrow> string \<Rightarrow> int \<Rightarrow> 'j prog" where
  "Fail code message result = Emit (EError code message) (Return result)"

definition zero_or :: "int_call \<Rightarrow> 'j prog \<Rightarrow> 'j prog" where
  "zero_or c p = AskInt c (\<lambda>r. if r = 0 then Return 0 else p)"

definition status_json :: "'j jsoncpp \<Rightarrow> (string \<times> 'j) list \<Rightarrow> 'j" where
  "status_json J kvs = foldl (\<lambda>v (k, x). j_set J v k x) (j_object J) kvs"

definition Status :: "'j jsoncpp \<Rightarrow> 'j prog" where
  "Status J =
     AskString RecoveryVersion (\<lambda>release. AskString RecoveryBuildType (\<lambda>btype. AskString RecoveryBuildDate (\<lambda>date.
     AskString RecoveryDevice (\<lambda>device. AskString RecoveryMaintainer (\<lambda>maint. AskString RecoverySlot (\<lambda>slot.
     AskString RecoveryStorage (\<lambda>storage. AskBool RecoveryDataLocked (\<lambda>locked. AskBool RecoveryMtpEnabled (\<lambda>mtp.
     AskInt RecoveryBrightness (\<lambda>brightness. AskWifi (\<lambda>wifi.
     Emit (EData ''status'' (status_json J
       [(''release'', j_str J release), (''build_type'', j_str J btype), (''build_date'', j_str J date),
        (''device'', j_str J device), (''maintainer'', j_str J maint), (''active_slot'', j_str J slot),
        (''storage'', j_str J storage), (''storage_locked'', j_bool J locked), (''mtp'', j_bool J mtp),
        (''brightness'', j_int J brightness), (''wifi_supported'', j_bool J (ws_supported wifi)),
        (''wifi_enabled'', j_bool J (ws_enabled wifi)), (''wifi_connected'', j_bool J (ws_connected wifi)),
        (''wifi_ssid'', j_str J (ws_ssid wifi)), (''wifi_address'', j_str J (ws_ip_address wifi))]))
     (Return 0))))))))))))"

fun mount_loop :: "bool \<Rightarrow> string list \<Rightarrow> 'j prog" where
  "mount_loop unmount [] = Return 0"
| "mount_loop unmount (path # paths) =
     AskInt (RecoveryRunJob (JobRequest_empty\<lparr>jr_job := if unmount then kUnmount else kMount,
         jr_title := if unmount then ''Unmount'' else ''Mount'', jr_path := path\<rparr>))
       (\<lambda>r. if r \<noteq> 0 then Fail (if unmount then ''unmount_failed'' else ''mount_failed'')
                 (''Could not '' @ (if unmount then ''unmount '' else ''mount '') @ path) 1
            else mount_loop unmount paths)"

definition Mount :: "'j jsoncpp \<Rightarrow> 'j request \<Rightarrow> bool \<Rightarrow> 'j prog" where
  "Mount J request unmount =
     (let paths = Strings J (rq_arguments request) ''paths'' in
      if paths = [] then
        AskVolumes (RecoveryVolumes ''mount'') (\<lambda>vs. Emit (EData ''mounts'' (Volumes J vs True)) (Return 0))
      else mount_loop unmount paths)"

fun install_loop :: "string list \<Rightarrow> 'j prog" where
  "install_loop [] = Return 0"
| "install_loop (path # paths) =
     Emit (ELog (''Installing '' @ path @ ''\<newline>''))
      (AskInt (RecoveryRunJob (JobRequest_empty\<lparr>jr_job := kInstall, jr_title := ''Install package'', jr_path := path\<rparr>))
        (\<lambda>r. if r \<noteq> 0 then Fail ''install_failed'' (''Package installation failed: '' @ path) 1 else install_loop paths))"

definition Install :: "'j jsoncpp \<Rightarrow> 'j request \<Rightarrow> 'j prog" where
  "Install J request =
     (let packages = Strings J (rq_arguments request) ''zips'' in
      if packages = [] then Fail ''missing_package'' ''No package path was supplied'' 2 else install_loop packages)"

text \<open>The default of the storage path is evaluated before \<open>Text\<close> looks at the argument.\<close>

definition Backup :: "'j jsoncpp \<Rightarrow> 'j request \<Rightarrow> 'j prog" where
  "Backup J request =
     (let args = rq_arguments request; partitions = Strings J args ''parts'' in
      if partitions = [] then Fail ''missing_partitions'' ''Backup requires at least one partition'' 2
      else AskString RecoveryStorage (\<lambda>storage.
        zero_or (RecoveryRunJob (JobRequest_empty\<lparr>jr_job := kBackup, jr_title := ''Create backup'',
            jr_path := Text J args ''storage'' storage, jr_partitions := partitions,
            jr_compression := Flag J args ''compress'' True, jr_name := Text J args ''name'' [],
            jr_digest := Flag J args ''digest'' True\<rparr>))
          (Fail ''backup_failed'' ''AERA could not create the backup'' 1)))"

definition restore_from :: "'j jsoncpp \<Rightarrow> 'j \<Rightarrow> string \<Rightarrow> string list \<Rightarrow> 'j prog" where
  "restore_from J args folder partitions =
     zero_or (RecoveryRunJob (JobRequest_empty\<lparr>jr_job := kRestore, jr_title := ''Restore backup'', jr_path := folder,
         jr_partitions := partitions, jr_digest := Flag J args ''digest_check'' True\<rparr>))
       (Fail ''restore_failed'' ''AERA could not restore the backup'' 1)"

definition restore_folder :: "'j jsoncpp \<Rightarrow> 'j \<Rightarrow> string \<Rightarrow> 'j prog" where
  "restore_folder J args folder =
     (if folder = [] then Fail ''missing_backup'' ''Restore requires a backup name or path'' 2
      else let partitions = Strings J args ''parts'' in
        if partitions = [] then
          AskVolumes (RecoveryRestoreVolumes folder) (\<lambda>vs.
            restore_from J args folder (map vol_path (filter (\<lambda>v. vol_path v \<noteq> ''ADB Backup'') vs)))
        else restore_from J args folder partitions)"

definition Restore :: "'j jsoncpp \<Rightarrow> 'j request \<Rightarrow> 'j prog" where
  "Restore J request =
     (let args = rq_arguments request; folder = Text J args ''path'' []; name = Text J args ''name'' [] in
      if folder = [] \<and> name \<noteq> [] then
        AskString RecoveryBackupRoot (\<lambda>root. restore_folder J args (root @ ''/'' @ name))
      else restore_folder J args folder)"

definition Wipe :: "'j jsoncpp \<Rightarrow> 'j request \<Rightarrow> 'j prog" where
  "Wipe J request =
     (let partitions = Strings J (rq_arguments request) ''parts'' in
      if partitions = [] then
        AskVolumes (RecoveryVolumes ''wipe'') (\<lambda>vs. Emit (EData ''wipe_targets'' (Volumes J vs False)) (Return 0))
      else zero_or (RecoveryRunJob (JobRequest_empty\<lparr>jr_job := kWipe, jr_title := ''Wipe partitions'', jr_partitions := partitions\<rparr>))
        (Fail ''wipe_failed'' ''AERA could not wipe every selected partition'' 1))"

definition FormatData :: "'j jsoncpp \<Rightarrow> 'j request \<Rightarrow> 'j prog" where
  "FormatData J request =
     (if \<not> Flag J (rq_arguments request) ''confirm'' False then
        Fail ''confirmation_required'' ''Format Data requires explicit confirmation'' 2
      else zero_or (RecoveryRunJob (JobRequest_empty\<lparr>jr_job := kFormatData, jr_title := ''Format Data'', jr_path := ''/data'',
          jr_confirmation := ''yes''\<rparr>))
        (Fail ''format_failed'' ''AERA could not format /data'' 1))"

definition network_item :: "'j jsoncpp \<Rightarrow> wifi_network \<Rightarrow> 'j" where
  "network_item J n = status_json J [(''ssid'', j_str J (wn_ssid n)), (''security'', j_str J (wn_security n)),
     (''saved'', j_bool J (wn_saved n)), (''connected'', j_bool J (wn_connected n))]"

definition wifi_json :: "'j jsoncpp \<Rightarrow> wifi_status \<Rightarrow> 'j" where
  "wifi_json J s = status_json J [(''supported'', j_bool J (ws_supported s)), (''enabled'', j_bool J (ws_enabled s)),
     (''connected'', j_bool J (ws_connected s)), (''busy'', j_bool J (ws_busy s)), (''state'', j_str J (ws_state s)),
     (''ssid'', j_str J (ws_ssid s)), (''ip_address'', j_str J (ws_ip_address s)),
     (''networks'', foldl (j_append J) (j_array J) (map (network_item J) (ws_networks s)))]"

definition wifi_action :: "string \<Rightarrow> wifi_operation option" where
  "wifi_action action =
     (if action = ''enable'' \<or> action = ''start'' then Some kEnable
      else if action = ''disable'' \<or> action = ''stop'' then Some kDisable
      else if action = ''disconnect'' then Some kDisconnect
      else if action = ''scan'' then Some kScan
      else if action = ''connect'' then Some kConnect
      else if action = ''forget'' then Some kForget
      else if action = ''test'' then Some kTest
      else None)"

definition Wifi :: "'j jsoncpp \<Rightarrow> 'j request \<Rightarrow> 'j prog" where
  "Wifi J request =
     (let args = rq_arguments request; action = Text J args ''action'' ''status'' in
      if action = ''status'' \<or> action = ''list'' then AskWifi (\<lambda>s. Emit (EData ''wifi'' (wifi_json J s)) (Return 0))
      else case wifi_action action of
        None \<Rightarrow> Fail ''invalid_wifi_action'' (''Unknown Wi-Fi action: '' @ action) 2
      | Some op \<Rightarrow>
          zero_or (RecoveryRunWifi \<lparr>wr_operation = op, wr_ssid = Text J args ''ssid'' [], wr_password = Text J args ''password'' [],
              wr_use_saved_credentials = (Text J args ''password'' [] = [])\<rparr>)
            (Fail ''wifi_failed'' ''The Wi-Fi operation failed'' 1))"

definition Partition :: "'j jsoncpp \<Rightarrow> 'j request \<Rightarrow> 'j prog" where
  "Partition J request =
     (let args = rq_arguments request; path = Text J args ''path'' []; action = Text J args ''action'' ''list'';
          finish = (\<lambda>success. Do Update_System_Details
            (if success \<noteq> 0 then Return 0 else Fail ''partition_operation_failed'' (action @ '' failed for '' @ path) 1)) in
      if path = [] \<or> action = ''list'' then
        AskVolumes (RecoveryVolumes ''part_option'') (\<lambda>vs. Emit (EData ''partitions'' (Volumes J vs False)) (Return 0))
      else if action = ''repair'' then AskInt (Repair_By_Path path) finish
      else if action = ''resize'' then AskInt (Resize_By_Path path) finish
      else if action = ''wipe'' then
        let filesystem = Text J args ''fs'' [] in
        if filesystem = [] then AskInt (Wipe_By_Path path) finish else AskInt (Wipe_By_Path_as path filesystem) finish
      else Fail ''invalid_partition_action'' (''Unknown partition action: '' @ action) 2)"

definition reboot_target :: "string \<Rightarrow> reboot_command option" where
  "reboot_target target =
     (if target = ''system'' \<or> target = ''android'' then Some rb_system
      else if target = ''recovery'' then Some rb_recovery
      else if target = ''bootloader'' then Some rb_bootloader
      else if target = ''fastbootd'' then Some rb_fastboot
      else if target = ''poweroff'' \<or> target = ''shutdown'' then Some rb_poweroff
      else if target = ''download'' then Some rb_download
      else if target = ''edl'' then Some rb_edl
      else None)"

definition Reboot :: "'j jsoncpp \<Rightarrow> 'j request \<Rightarrow> 'j prog" where
  "Reboot J request =
     (let target = Text J (rq_arguments request) ''target'' ''system'' in
      case reboot_target target of
        None \<Rightarrow> Fail ''invalid_reboot_target'' (''Unknown reboot target: '' @ target) 2
      | Some command \<Rightarrow>
          Emit (ELog (''Rebooting to '' @ target @ ''\<newline>'')) (Do Sync (Do (Tw_reboot command) (Return 0))))"

definition Transition :: "'j jsoncpp \<Rightarrow> 'j request \<Rightarrow> 'j prog" where
  "Transition J request =
     (let target = Text J (rq_arguments request) ''target'' [] in
      if target \<noteq> ''fastboot'' \<and> target \<noteq> ''recovery'' then
        Fail ''invalid_transition_target'' ''Transition target must be fastboot or recovery'' 2
      else AskTransition (target = ''fastboot'') (\<lambda>r. case r of
          kAccepted \<Rightarrow> Emit (ELog (''Transitioning to '' @ target @ ''\<newline>'')) (Return 0)
        | kAlreadyActive \<Rightarrow> Emit (ELog (''Already in '' @ target @ ''\<newline>'')) (Return 0)
        | kBusy \<Rightarrow> Fail ''transition_busy'' ''Another mode transition is already running'' 1
        | kUnavailable \<Rightarrow> Fail ''transition_unavailable'' ''The native AERA interface is not available'' 1))"

fun log_loop :: "string list \<Rightarrow> 'j prog" where
  "log_loop [] = Return 0"
| "log_loop (l # ls) = Emit (ELog (l @ ''\<newline>'')) (log_loop ls)"

definition Log :: "'j prog" where
  "Log = AskLog (\<lambda>ls. case ls of None \<Rightarrow> Fail ''log_unavailable'' ''The recovery log is not available'' 1 | Some ls \<Rightarrow> log_loop ls)"

definition mirror_state :: "'j jsoncpp \<Rightarrow> 'j prog" where
  "mirror_state J =
     AskBool RemoteRunning (\<lambda>running. AskInt RemotePort (\<lambda>port. AskString RemoteAddress (\<lambda>address.
     AskString RemoteAccessCode (\<lambda>code.
     let v = status_json J [(''running'', j_bool J running), (''port'', j_int J port), (''address'', j_str J address),
                            (''access_code'', j_str J code)] in
     AskBool RemoteRunning (\<lambda>still.
       if still then
         AskInt RemotePort (\<lambda>port. AskString RemoteAccessCode (\<lambda>code.
           Emit (EData ''mirror'' (j_set J v ''url'' (j_str J (''http://'' @ (if address = [] then ''127.0.0.1'' else address) @ '':'' @
             show_int port @ ''/?code='' @ code)))) (Return 0)))
       else Emit (EData ''mirror'' v) (Return 0))))))"

definition Mirror :: "'j jsoncpp \<Rightarrow> 'j request \<Rightarrow> 'j prog" where
  "Mirror J request =
     (let args = rq_arguments request; action = Text J args ''action'' ''status'' in
      if action = ''start'' then
        AskBool (RemoteStart (Number J args ''port'' 80)) (\<lambda>ok.
          if \<not> ok then Fail ''mirror_start_failed'' ''AERA Remote could not start'' 1 else mirror_state J)
      else if action = ''stop'' then Do RemoteStop (mirror_state J)
      else if action \<noteq> ''status'' then Fail ''invalid_mirror_action'' (''Unknown mirror action: '' @ action) 2
      else mirror_state J)"

definition Decrypt :: "'j jsoncpp \<Rightarrow> 'j request \<Rightarrow> 'j prog" where
  "Decrypt J request =
     (let args = rq_arguments request; password = Text J args ''password'' [] in
      if password = [] then Fail ''missing_password'' ''Decrypt requires a credential'' 2
      else zero_or (RecoveryDecrypt password (Number J args ''user'' 0))
        (Fail ''decrypt_failed'' ''The supplied credential did not unlock storage'' 1))"

definition Sideload :: "'j prog" where
  "Sideload = zero_or (RecoveryRunJob (JobRequest_empty\<lparr>jr_job := kSideload, jr_title := ''ADB sideload''\<rparr>))
     (Fail ''sideload_failed'' ''ADB sideload failed or was cancelled'' 1)"

definition Mtp :: "'j jsoncpp \<Rightarrow> 'j request \<Rightarrow> 'j prog" where
  "Mtp J request =
     (let action = Text J (rq_arguments request) ''action'' ''status'' in
      if action = ''status'' then
        AskBool RecoveryMtpEnabled (\<lambda>on. Emit (EData ''mtp'' (j_set J (j_object J) ''enabled'' (j_bool J on))) (Return 0))
      else let enabled = (action = ''enable'' \<or> action = ''start'') in
        if \<not> enabled \<and> action \<noteq> ''disable'' \<and> action \<noteq> ''stop'' then
          Fail ''invalid_mtp_action'' (''Unknown MTP action: '' @ action) 2
        else AskBool (RecoverySetMtp enabled) (\<lambda>ok.
          if ok then Return 0 else Fail ''mtp_failed'' ''Could not change MTP state'' 1))"

definition Execute :: "'j jsoncpp \<Rightarrow> 'j request \<Rightarrow> 'j prog" where
  "Execute J request =
     (let op = rq_operation request in
      if op = ''status'' then Status J
      else if op = ''storages'' then
        AskVolumes (RecoveryVolumes ''storage'') (\<lambda>vs. Emit (EData ''storages'' (Volumes J vs False)) (Return 0))
      else if op = ''mount'' then Mount J request False
      else if op = ''unmount'' \<or> op = ''umount'' then Mount J request True
      else if op = ''flash'' \<or> op = ''install'' then Install J request
      else if op = ''backup'' then Backup J request
      else if op = ''restore'' then Restore J request
      else if op = ''wipe'' then Wipe J request
      else if op = ''format_data'' then FormatData J request
      else if op = ''decrypt'' then Decrypt J request
      else if op = ''sideload'' then Sideload
      else if op = ''wlan'' \<or> op = ''wifi'' then Wifi J request
      else if op = ''partition'' then Partition J request
      else if op = ''mtp'' then Mtp J request
      else if op = ''reboot'' then Reboot J request
      else if op = ''transition'' then Transition J request
      else if op = ''log'' then Log
      else if op = ''mirror'' then Mirror J request
      else Fail ''unsupported_operation'' (''This AERA RPC build does not support operation: '' @ op) 2)"

section \<open>Runs\<close>

text \<open>What a run of a program does, for the answers it happens to get.\<close>

datatype 'j obs =
    Event "'j event" | UnitCall unit_call | IntCall int_call int | BoolCall bool_call bool | StringCall string_call string
  | VolumeCall volume_call "volume list" | WifiCall wifi_status | TransitionCall bool mode_transition | LogCall "string list option"

inductive runs :: "'j prog \<Rightarrow> 'j obs list \<Rightarrow> int \<Rightarrow> bool" where
  run_return: "runs (Return r) [] r"
| run_emit: "runs p tr r \<Longrightarrow> runs (Emit e p) (Event e # tr) r"
| run_do: "runs p tr r \<Longrightarrow> runs (Do c p) (UnitCall c # tr) r"
| run_int: "runs (f a) tr r \<Longrightarrow> runs (AskInt c f) (IntCall c a # tr) r"
| run_bool: "runs (f b) tr r \<Longrightarrow> runs (AskBool d f) (BoolCall d b # tr) r"
| run_string: "runs (f s) tr r \<Longrightarrow> runs (AskString q f) (StringCall q s # tr) r"
| run_volumes: "runs (f vs) tr r \<Longrightarrow> runs (AskVolumes v f) (VolumeCall v vs # tr) r"
| run_wifi: "runs (f w) tr r \<Longrightarrow> runs (AskWifi f) (WifiCall w # tr) r"
| run_transition: "runs (f m) tr r \<Longrightarrow> runs (AskTransition t f) (TransitionCall t m # tr) r"
| run_log: "runs (f ls) tr r \<Longrightarrow> runs (AskLog f) (LogCall ls # tr) r"

inductive_simps runs_simps [simp]:
  "runs (Return r) tr x" "runs (Emit e p) tr x" "runs (Do c p) tr x" "runs (AskInt i f) tr x" "runs (AskBool b g) tr x"
  "runs (AskString q h) tr x" "runs (AskVolumes v k) tr x" "runs (AskWifi l) tr x" "runs (AskTransition t m) tr x" "runs (AskLog n) tr x"

text \<open>A program that succeeds without an error event, or fails with one as its last act.\<close>

primrec reports :: "'j prog \<Rightarrow> bool" where
  "reports (Return r) = (r = 0)"
| "reports (Emit e p) = (case e of EError _ _ \<Rightarrow> (\<exists>r. p = Return r \<and> r \<noteq> 0) | _ \<Rightarrow> reports p)"
| "reports (Do c p) = reports p"
| "reports (AskInt c f) = (\<forall>a. reports (f a))"
| "reports (AskBool c f) = (\<forall>a. reports (f a))"
| "reports (AskString c f) = (\<forall>a. reports (f a))"
| "reports (AskVolumes c f) = (\<forall>a. reports (f a))"
| "reports (AskWifi f) = (\<forall>a. reports (f a))"
| "reports (AskTransition c f) = (\<forall>a. reports (f a))"
| "reports (AskLog f) = (\<forall>a. reports (f a))"

text \<open>All calls with an integer result that a program can make satisfy \<open>ok\<close>.\<close>

primrec guarded :: "(int_call \<Rightarrow> bool) \<Rightarrow> 'j prog \<Rightarrow> bool" where
  "guarded ok (Return r) = True"
| "guarded ok (Emit e p) = guarded ok p"
| "guarded ok (Do c p) = guarded ok p"
| "guarded ok (AskInt c f) = (ok c \<and> (\<forall>a. guarded ok (f a)))"
| "guarded ok (AskBool c f) = (\<forall>a. guarded ok (f a))"
| "guarded ok (AskString c f) = (\<forall>a. guarded ok (f a))"
| "guarded ok (AskVolumes c f) = (\<forall>a. guarded ok (f a))"
| "guarded ok (AskWifi f) = (\<forall>a. guarded ok (f a))"
| "guarded ok (AskTransition c f) = (\<forall>a. guarded ok (f a))"
| "guarded ok (AskLog f) = (\<forall>a. guarded ok (f a))"

definition is_error :: "'j obs \<Rightarrow> bool" where
  "is_error x = (case x of Event (EError _ _) \<Rightarrow> True | _ \<Rightarrow> False)"

lemma is_error_simps [simp]:
  "is_error (Event (EError c m))" "\<not> is_error (Event (ELog txt'))" "\<not> is_error (Event (EData n jv))"
  "\<not> is_error (UnitCall u)" "\<not> is_error (IntCall i a)" "\<not> is_error (BoolCall b x)" "\<not> is_error (StringCall q s)"
  "\<not> is_error (VolumeCall v vs)" "\<not> is_error (WifiCall w)" "\<not> is_error (TransitionCall t mt)" "\<not> is_error (LogCall ls)"
  by (simp_all add: is_error_def)

definition answered :: "'j obs list \<Rightarrow> int \<Rightarrow> bool" where
  "answered tr r \<longleftrightarrow> (if r = 0 then filter is_error tr = [] else \<exists>pre c m. tr = pre @ [Event (EError c m)] \<and> filter is_error pre = [])"

lemma answered_Cons: "answered tr r \<Longrightarrow> \<not> is_error x \<Longrightarrow> answered (x # tr) r"
  unfolding answered_def by (auto split: if_splits)

lemma runs_reports: "runs p tr r \<Longrightarrow> reports p \<Longrightarrow> answered tr r"
proof (induction rule: runs.induct)
  case (run_emit p tr r e)
  show ?case
  proof (cases e)
    case (EError c m)
    then show ?thesis using run_emit by (auto simp: answered_def)
  qed (use run_emit in \<open>auto intro: answered_Cons\<close>)
qed (auto simp: answered_def [of "[]"] intro: answered_Cons)

lemma runs_guarded: "runs p tr r \<Longrightarrow> guarded ok p \<Longrightarrow> IntCall c a \<in> set tr \<Longrightarrow> ok c"
  by (induction rule: runs.induct) auto

text \<open>Every program has a run: the operations come to an end whatever they are answered.\<close>

lemma runs_total: "\<exists>tr r. runs p tr r"
  by (induction p) (auto, (blast intro: runs.intros)+)

section \<open>Properties of the operations\<close>

lemma reports_Fail [simp]: "reports (Fail code message result) \<longleftrightarrow> result \<noteq> 0" "guarded ok (Fail code message result)"
  by (simp_all add: Fail_def)

lemma reports_zero_or [simp]: "reports (zero_or c p) \<longleftrightarrow> reports p" "guarded ok (zero_or c p) \<longleftrightarrow> ok c \<and> guarded ok p"
  by (auto simp: zero_or_def intro: exI [of _ 1])

lemma log_loop_ok [simp]: "reports (log_loop ls)" "guarded ok (log_loop ls)"
  by (induction ls) simp_all

lemma reports_loops [simp]: "reports (mount_loop unmount paths)" "reports (install_loop paths)"
  by (induction paths) auto

lemma guarded_loops [simp]:
  "guarded ok (mount_loop unmount paths) \<longleftrightarrow> (\<forall>p\<in>set paths. ok (RecoveryRunJob (JobRequest_empty\<lparr>jr_job := if unmount then kUnmount else kMount,
     jr_title := if unmount then ''Unmount'' else ''Mount'', jr_path := p\<rparr>)))"
  "guarded ok (install_loop paths) \<longleftrightarrow> (\<forall>p\<in>set paths. ok (RecoveryRunJob (JobRequest_empty\<lparr>jr_job := kInstall,
     jr_title := ''Install package'', jr_path := p\<rparr>)))"
  by (induction paths) (auto intro: exI [of _ 0])

lemma mirror_state_ok [simp]: "reports (mirror_state J)" "guarded ok (mirror_state J) \<longleftrightarrow> ok RemotePort"
  by (auto simp: mirror_state_def Let_def)

text \<open>The names of the operations with their handlers.\<close>

lemma reports_handlers:
  "reports (Status J)" "reports (Mount J rq u)" "reports (Install J rq)" "reports (Backup J rq)" "reports (Restore J rq)"
  "reports (Wipe J rq)" "reports (FormatData J rq)" "reports (Decrypt J rq)" "reports Sideload" "reports (Wifi J rq)"
  "reports (Partition J rq)" "reports (Mtp J rq)" "reports (Reboot J rq)" "reports (Transition J rq)" "reports Log" "reports (Mirror J rq)"
  by (auto simp: Status_def Mount_def Install_def Backup_def Restore_def restore_folder_def restore_from_def Wipe_def FormatData_def
      Decrypt_def Sideload_def Wifi_def Partition_def Mtp_def Reboot_def Transition_def Log_def Mirror_def Let_def
      split: option.split mode_transition.split)

text \<open>The request that a call needs: a destructive call is made only for the operation that names it, with the
  confirmation or the targets that the client gave.\<close>

definition consented :: "'j jsoncpp \<Rightarrow> 'j request \<Rightarrow> int_call \<Rightarrow> bool" where
  "consented J rq c =
     (let args = rq_arguments rq; op = rq_operation rq in
      case c of
        RecoveryRunJob j \<Rightarrow>
          (jr_job j = kFormatData \<longrightarrow> op = ''format_data'' \<and> j_isBool J (j_get J args ''confirm'') \<and> j_asBool J (j_get J args ''confirm'')) \<and>
          (jr_job j = kWipe \<longrightarrow> op = ''wipe'' \<and> jr_partitions j = Strings J args ''parts'' \<and> jr_partitions j \<noteq> []) \<and>
          (jr_job j = kRestore \<longrightarrow> op = ''restore'' \<and> jr_path j \<noteq> []) \<and>
          (jr_job j = kInstall \<longrightarrow> op \<in> {''flash'', ''install''} \<and> jr_path j \<in> set (Strings J args ''zips''))
      | Wipe_By_Path path \<Rightarrow> op = ''partition'' \<and> Text J args ''action'' ''list'' = ''wipe'' \<and> path = Text J args ''path'' [] \<and> path \<noteq> []
      | Wipe_By_Path_as path fs \<Rightarrow> op = ''partition'' \<and> Text J args ''action'' ''list'' = ''wipe'' \<and> path = Text J args ''path'' [] \<and>
          path \<noteq> [] \<and> fs = Text J args ''fs'' []
      | _ \<Rightarrow> True)"

lemma consented_simps:
  "consented J rq (RecoveryRunWifi x)" "consented J rq (RecoveryDecrypt p u)" "consented J rq RecoveryBrightness"
  "consented J rq (Repair_By_Path p)" "consented J rq (Resize_By_Path p)" "consented J rq RemotePort"
  by (simp_all add: consented_def Let_def)

lemma guarded_harmless:
  "guarded (consented J rq) (Status J)" "guarded (consented J rq) (Mount J rq u)" "guarded (consented J rq) (Backup J rq)"
  "guarded (consented J rq) (Decrypt J rq)" "guarded (consented J rq) Sideload" "guarded (consented J rq) (Wifi J rq)"
  "guarded (consented J rq) (Mtp J rq)" "guarded (consented J rq) (Reboot J rq)" "guarded (consented J rq) (Transition J rq)"
  "guarded (consented J rq) Log" "guarded (consented J rq) (Mirror J rq)"
  by (auto simp: Status_def Mount_def Backup_def Decrypt_def Sideload_def Wifi_def Mtp_def Reboot_def Transition_def Log_def Mirror_def
      consented_simps consented_def [of _ _ "RecoveryRunJob _"] JobRequest_empty_def Let_def split: option.split mode_transition.split)

lemma guarded_destructive:
  "rq_operation rq \<in> {''flash'', ''install''} \<Longrightarrow> guarded (consented J rq) (Install J rq)"
  "rq_operation rq = ''restore'' \<Longrightarrow> guarded (consented J rq) (Restore J rq)"
  "rq_operation rq = ''wipe'' \<Longrightarrow> guarded (consented J rq) (Wipe J rq)"
  "rq_operation rq = ''format_data'' \<Longrightarrow> guarded (consented J rq) (FormatData J rq)"
  "rq_operation rq = ''partition'' \<Longrightarrow> guarded (consented J rq) (Partition J rq)"
  by (auto simp: Install_def Restore_def restore_folder_def restore_from_def Wipe_def FormatData_def Partition_def Flag_def
      consented_def JobRequest_empty_def Let_def)

lemma reports_Execute: "reports (Execute J rq)"
  by (simp add: Execute_def Let_def reports_handlers)

lemma guarded_Execute: "guarded (consented J rq) (Execute J rq)"
  by (simp add: Execute_def Let_def guarded_harmless guarded_destructive)

text \<open>C26. Every operation answers its client properly, whatever the recovery does: it comes to an end, it returns 0 without
  an error event, or it returns a failure code and its last act is the one error event that says why.\<close>

theorem Execute_answers:
  assumes "runs (Execute J rq) tr r"
  shows "if r = 0 then filter is_error tr = []
     else \<exists>pre code message. tr = pre @ [Event (EError code message)] \<and> filter is_error pre = []"
  using runs_reports [OF assms reports_Execute] unfolding answered_def .

definition unconfirmed :: "json request" where
  "unconfirmed = (Request_empty small_json)\<lparr>rq_operation := ''format_data''\<rparr>"

theorem Execute_answers_witness:
  "\<exists>tr pre code message. runs (Execute small_json unconfirmed) tr 2 \<and> tr = pre @ [Event (EError code message)] \<and> filter is_error pre = []"
proof -
  have run: "runs (Execute small_json unconfirmed) [Event (EError ''confirmation_required'' ''Format Data requires explicit confirmation'')] 2"
    by (simp add: Execute_def unconfirmed_def Request_empty_def FormatData_def Flag_def small_json_def members_def Fail_def)
  show ?thesis using Execute_answers [OF run] run by auto
qed



end
