(* ===== verification/Rpc_Session.thy ===== *)
theory Rpc_Session
  imports Rpc_Engine "HOL-Library.Multiset"
begin

text \<open>
  The sessions of the AERA command interface: the channel that reads requests (\<open>aera_rpc/aera_channel.cpp\<close>), the
  dispatcher that owns the one active session (\<open>aera_rpc/aera_dispatcher.cpp\<close>), and the printing functions that feed
  its log (\<open>aeraui/platform/aera_log.cpp\<close>). The first section holds their functions on one state; the second the
  steps of the threads that run them; the rest the invariant and what follows from it.
\<close>

section \<open>Channel and dispatcher\<close>

datatype 'j worker = Starting | Executing "'j prog" | Rearming int

text \<open>
  Descriptors and files are only open or not; \<open>streams\<close> holds the text of the answers, \<open>opened\<close> counts them and \<open>closed\<close>
  lists those that were closed. \<open>workers\<close> are the detached threads with what they have still to do, \<open>cancelling\<close> is the
  place of the main thread between the two halves of \<open>Cancel\<close>.
\<close>

record 'j rpc =
  g_input :: bool
  g_cancel :: bool
  g_pending :: string
  g_output :: "nat option"
  g_log :: "log_stream option"
  g_request :: "'j request"
  g_active :: bool
  g_cancelled :: bool
  gCommandOutput :: bool
  streams :: files
  opened :: nat
  closed :: "nat list"
  workers :: "'j worker list"
  cancelling :: bool

text \<open>The outcomes of the system calls of one frame.\<close>

datatype read_result = Data string | Eof | Eintr | Eagain

record frame_env =
  fe_reads :: "read_result list"
  fe_busy :: bool
  fe_fopen :: bool
  fe_funopen :: bool
  fe_mkfifo :: bool
  fe_open :: bool

definition CloseInput :: "'j rpc \<Rightarrow> 'j rpc" where
  "CloseInput w = w\<lparr>g_input := False\<rparr>"

definition OpenInput :: "frame_env \<Rightarrow> 'j rpc \<Rightarrow> 'j rpc" where
  "OpenInput e w = (let w = CloseInput w in if \<not> fe_mkfifo e then w else w\<lparr>g_input := fe_open e\<rparr>)"

definition OpenCancel :: "frame_env \<Rightarrow> 'j rpc \<Rightarrow> 'j rpc" where
  "OpenCancel e w = (let w = w\<lparr>g_cancel := False\<rparr> in if \<not> fe_mkfifo e then w else w\<lparr>g_cancel := fe_open e\<rparr>)"

definition RespondFailure :: "'j jsoncpp \<Rightarrow> frame_env \<Rightarrow> 'j request \<Rightarrow> string \<Rightarrow> string \<Rightarrow> int \<Rightarrow> 'j rpc \<Rightarrow> 'j rpc" where
  "RespondFailure J e request code message result w =
     (if \<not> fe_fopen e then w
      else let s = opened w; w = w\<lparr>opened := s + 1\<rparr>;
               w = w\<lparr>streams := WriteError J (Some s) (rq_id request) code message (streams w)\<rparr>;
               w = w\<lparr>streams := WriteResult J (Some s) (rq_id request) result (streams w)\<rparr> in
           w\<lparr>closed := s # closed w\<rparr>)"

definition Setup :: "frame_env \<Rightarrow> frame_env \<Rightarrow> 'j rpc \<Rightarrow> 'j rpc" where
  "Setup e1 e2 w =
     (let w = (if \<not> g_input w then OpenInput e1 w else w) in if \<not> g_cancel w then OpenCancel e2 w else w)"

definition Shutdown :: "'j rpc \<Rightarrow> 'j rpc" where
  "Shutdown w = (CloseInput w)\<lparr>g_cancel := False, g_pending := []\<rparr>"

definition Rearm :: "frame_env \<Rightarrow> 'j rpc \<Rightarrow> 'j rpc" where
  "Rearm e w = OpenInput e (w\<lparr>g_pending := []\<rparr>)"

text \<open>The dispatcher. \<open>FlushLog\<close> does nothing: the log stream has no buffer.\<close>

definition SessionEvents :: "'j jsoncpp \<Rightarrow> 'j event \<Rightarrow> 'j rpc \<Rightarrow> 'j rpc" where
  "SessionEvents J ev w =
     (let out = g_output w; ident = rq_id (g_request w) in
      w\<lparr>streams := (case ev of
          ELog txt \<Rightarrow> WriteLog J out ident txt
        | EData name v \<Rightarrow> WriteData J out ident name v
        | EError code message \<Rightarrow> WriteError J out ident code message) (streams w)\<rparr>)"

definition CloseSession :: "'j jsoncpp \<Rightarrow> int \<Rightarrow> 'j rpc \<Rightarrow> 'j rpc" where
  "CloseSession J result w =
     (let w = w\<lparr>gCommandOutput := False\<rparr>;
          w = (case g_log w of None \<Rightarrow> w | Some l \<Rightarrow> w\<lparr>streams := LogClose J l (streams w), g_log := None\<rparr>);
          w = w\<lparr>streams := WriteResult J (g_output w) (rq_id (g_request w)) result (streams w)\<rparr>;
          w = (case g_output w of None \<Rightarrow> w | Some s \<Rightarrow> w\<lparr>closed := s # closed w, g_output := None\<rparr>) in
      w\<lparr>g_request := Request_empty J, g_cancelled := False, g_active := False\<rparr>)"

definition Start :: "'j jsoncpp \<Rightarrow> frame_env \<Rightarrow> nat option \<Rightarrow> 'j request \<Rightarrow> 'j rpc \<Rightarrow> bool \<times> 'j rpc" where
  "Start J e out request w =
     (if out = None \<or> \<not> valid request then (False, w)
      else if g_active w then (False, w)
      else let w = w\<lparr>g_output := out, g_request := request, g_log := OpenLogStream (fe_funopen e) out (rq_id request)\<rparr> in
        if g_log w = None then (False, w\<lparr>g_output := None, g_request := Request_empty J\<rparr>)
        else (True, w\<lparr>g_cancelled := False, g_active := True, gCommandOutput := True, workers := workers w @ [Starting]\<rparr>))"

text \<open>\<open>Cancel\<close> looks at \<open>Active\<close> first and takes the lock only for its message.\<close>

definition Cancel_begin :: "'j rpc \<Rightarrow> bool \<times> 'j rpc" where
  "Cancel_begin w = (if \<not> g_active w then (False, w) else (True, w\<lparr>g_cancelled := True\<rparr>))"

definition Cancel_end :: "'j jsoncpp \<Rightarrow> 'j rpc \<Rightarrow> 'j rpc" where
  "Cancel_end J w = w\<lparr>streams := WriteLog J (g_output w) (rq_id (g_request w)) ''Cancellation requested\<newline>'' (streams w)\<rparr>"

definition Cancel :: "'j jsoncpp \<Rightarrow> bool \<Rightarrow> int \<Rightarrow> 'j rpc \<Rightarrow> bool \<times> 'j rpc" where
  "Cancel J sideload backup w =
     (case Cancel_begin w of (False, w) \<Rightarrow> (False, w)
      | (True, w) \<Rightarrow> let w = Cancel_end J w in (sideload \<or> backup = 0 \<or> g_active w, w))"

definition Progress_locked :: "'j jsoncpp \<Rightarrow> string \<Rightarrow> int \<Rightarrow> 'j \<Rightarrow> 'j rpc \<Rightarrow> 'j rpc" where
  "Progress_locked J phase percent details w =
     w\<lparr>streams := WriteProgress J (g_output w) (rq_id (g_request w)) phase percent details (streams w)\<rparr>"

definition Progress :: "'j jsoncpp \<Rightarrow> string \<Rightarrow> int \<Rightarrow> 'j \<Rightarrow> 'j rpc \<Rightarrow> 'j rpc" where
  "Progress J phase percent details w = (if \<not> g_active w then w else Progress_locked J phase percent details w)"

text \<open>The channel reads until the writer closes or too much has come.\<close>

fun read_loop :: "read_result list \<Rightarrow> string \<Rightarrow> bool \<times> string" where
  "read_loop [] pending = (False, pending)"
| "read_loop (Data d # rs) pending =
     (if length (pending @ d) > kMaximumRequestBytes then (True, pending @ d) else read_loop rs (pending @ d))"
| "read_loop (Eof # rs) pending = (True, pending)"
| "read_loop (Eintr # rs) pending = read_loop rs pending"
| "read_loop (Eagain # rs) pending = (False, pending)"

definition HandleInput :: "'j jsoncpp \<Rightarrow> frame_env \<Rightarrow> 'j rpc \<Rightarrow> 'j rpc" where
  "HandleInput J e w =
     (if \<not> g_input w then w
      else let (complete, pending) = read_loop (fe_reads e) (g_pending w); w = w\<lparr>g_pending := pending\<rparr> in
      if \<not> complete then w
      else let w = CloseInput w; request = ParseRequest J (g_pending w); w = w\<lparr>g_pending := []\<rparr> in
      if \<not> valid request then
        Rearm e (RespondFailure J e request (rq_error request) ''Invalid AERA RPC request'' 2 w)
      else if g_active w \<or> fe_busy e then
        Rearm e (RespondFailure J e request ''busy'' ''Another recovery operation is active'' 1 w)
      else if \<not> fe_fopen e then Rearm e w
      else let s = opened w; w = w\<lparr>opened := s + 1\<rparr>; (started, w) = Start J e (Some s) request w in
      if started then w
      else let w = w\<lparr>streams := WriteError J (Some s) (rq_id request) ''dispatcher_unavailable''
                       ''The AERA command dispatcher could not start'' (streams w)\<rparr>;
               w = w\<lparr>streams := WriteResult J (Some s) (rq_id request) 1 (streams w)\<rparr> in
           Rearm e (w\<lparr>closed := s # closed w\<rparr>))"

text \<open>\<open>received\<close> is whether \<open>read\<close> gave a positive count.\<close>

definition HandleCancel :: "'j jsoncpp \<Rightarrow> bool \<Rightarrow> bool \<Rightarrow> int \<Rightarrow> frame_env \<Rightarrow> 'j rpc \<Rightarrow> bool \<times> 'j rpc" where
  "HandleCancel J received sideload backup e w =
     (if \<not> g_cancel w then (False, w)
      else if \<not> received then (False, OpenCancel e w)
      else let (cancelled, w) = Cancel J sideload backup w in (cancelled, OpenCancel e w))"

text \<open>The part of \<open>RunFrame\<close> that serves the channel: it asks \<open>poll\<close> for \<open>POLLIN\<close> and nothing else.\<close>

definition frame_input :: "'j jsoncpp \<Rightarrow> bool \<Rightarrow> frame_env \<Rightarrow> 'j rpc \<Rightarrow> 'j rpc" where
  "frame_input J pollin e w = (if g_input w \<and> pollin then HandleInput J e w else w)"

definition frame_cancel :: "'j jsoncpp \<Rightarrow> bool \<Rightarrow> bool \<Rightarrow> bool \<Rightarrow> int \<Rightarrow> frame_env \<Rightarrow> 'j rpc \<Rightarrow> 'j rpc" where
  "frame_cancel J pollin received sideload backup e w =
     (if g_cancel w \<and> pollin then snd (HandleCancel J received sideload backup e w) else w)"

text \<open>\<open>gui_print\<close> and \<open>gui_msg\<close>: the session's log is the command output. The first cuts the text at its buffer.\<close>

definition kLogBufferSize :: nat where
  "kLogBufferSize = 1024"

definition put_log :: "'j jsoncpp \<Rightarrow> string \<Rightarrow> 'j rpc \<Rightarrow> 'j rpc" where
  "put_log J txt w =
     (case g_log w of Some l \<Rightarrow> if gCommandOutput w then
        (case LogWrite J l txt (streams w) of (_, l, fs) \<Rightarrow> w\<lparr>g_log := Some l, streams := fs\<rparr>) else w
      | None \<Rightarrow> w)"

definition gui_print :: "'j jsoncpp \<Rightarrow> string \<Rightarrow> 'j rpc \<Rightarrow> 'j rpc" where
  "gui_print J formatted w = put_log J (take (kLogBufferSize - 1) formatted) w"

definition gui_msg :: "'j jsoncpp \<Rightarrow> string \<Rightarrow> 'j rpc \<Rightarrow> 'j rpc" where
  "gui_msg J message w = put_log J (message @ ''\<newline>'') w"

definition rpc_init :: "'j jsoncpp \<Rightarrow> 'j rpc" where
  "rpc_init J = \<lparr>g_input = False, g_cancel = False, g_pending = [], g_output = None, g_log = None,
     g_request = Request_empty J, g_active = False, g_cancelled = False, gCommandOutput = False, streams = \<lambda>_. [],
     opened = 0, closed = [], workers = [], cancelling = False\<rparr>"

section \<open>Threads\<close>

text \<open>The program that is left after one call, whatever the call returned.\<close>

inductive child :: "'j prog \<Rightarrow> 'j prog \<Rightarrow> bool" where
  "child p (Do c p)"
| "child (f a) (AskInt c f)"
| "child (f b) (AskBool d f)"
| "child (f s) (AskString q f)"
| "child (f vs) (AskVolumes v f)"
| "child (f x) (AskWifi f)"
| "child (f m) (AskTransition t f)"
| "child (f ls) (AskLog f)"

definition drop_worker :: "nat \<Rightarrow> 'j rpc \<Rightarrow> 'j rpc" where
  "drop_worker i w = w\<lparr>workers := take i (workers w) @ drop (Suc i) (workers w)\<rparr>"

text \<open>\<open>RunPending\<close>, one call or event at a time.\<close>

inductive wstep :: "'j jsoncpp \<Rightarrow> bool \<Rightarrow> 'j rpc \<Rightarrow> 'j rpc \<Rightarrow> bool" for J calm where
  w_begin: "i < length (workers w) \<Longrightarrow> workers w ! i = Starting \<Longrightarrow> g_active w \<Longrightarrow>
     wstep J calm w (w\<lparr>workers := (workers w)[i := Executing (Execute J (g_request w))]\<rparr>)"
| w_idle: "i < length (workers w) \<Longrightarrow> workers w ! i = Starting \<Longrightarrow> \<not> g_active w \<Longrightarrow> wstep J calm w (drop_worker i w)"
| w_emit: "i < length (workers w) \<Longrightarrow> workers w ! i = Executing (Emit ev p) \<Longrightarrow>
     wstep J calm w ((SessionEvents J ev w)\<lparr>workers := (workers w)[i := Executing p]\<rparr>)"
| w_call: "i < length (workers w) \<Longrightarrow> workers w ! i = Executing p \<Longrightarrow> child q p \<Longrightarrow>
     wstep J calm w (w\<lparr>workers := (workers w)[i := Executing q]\<rparr>)"
| w_close: "i < length (workers w) \<Longrightarrow> workers w ! i = Executing (Return r) \<Longrightarrow>
     wstep J calm w ((CloseSession J r w)\<lparr>workers := (workers w)[i := Rearming r]\<rparr>)"
| w_rearm: "i < length (workers w) \<Longrightarrow> workers w ! i = Rearming r \<Longrightarrow> (calm \<Longrightarrow> fe_mkfifo e \<and> fe_open e) \<Longrightarrow>
     wstep J calm w (drop_worker i (Rearm e w))"

text \<open>
  All threads. In a \<open>calm\<close> run the pipes can be created and opened and the page that allows commands stays. The
  main thread is busy between the halves of \<open>Cancel\<close>. \<open>Progress\<close> writes under the lock but tests \<open>Active\<close> before it, so
  its write may come in any state.
\<close>

inductive step :: "'j jsoncpp \<Rightarrow> bool \<Rightarrow> 'j rpc \<Rightarrow> 'j rpc \<Rightarrow> bool" for J calm where
  s_worker: "wstep J calm w w' \<Longrightarrow> step J calm w w'"
| s_input: "\<not> cancelling w \<Longrightarrow> (calm \<Longrightarrow> fe_mkfifo e \<and> fe_open e) \<Longrightarrow> step J calm w (frame_input J pollin e w)"
| s_cancel: "\<not> cancelling w \<Longrightarrow> g_cancel w \<Longrightarrow> Cancel_begin w = (True, w') \<Longrightarrow> step J calm w (w'\<lparr>cancelling := True\<rparr>)"
| s_cancelled: "cancelling w \<Longrightarrow> step J calm w ((OpenCancel e (Cancel_end J w))\<lparr>cancelling := False\<rparr>)"
| s_cancel_idle: "\<not> cancelling w \<Longrightarrow> g_cancel w \<Longrightarrow> step J calm w (OpenCancel e w)"
| s_progress: "step J calm w (Progress_locked J phase percent details w)"
| s_print: "step J calm w (gui_print J txt w)"
| s_msg: "step J calm w (gui_msg J txt w)"
| s_setup: "\<not> calm \<Longrightarrow> step J calm w (Setup e1 e2 w)"
| s_shutdown: "\<not> calm \<Longrightarrow> step J calm w (Shutdown w)"

inductive reachable :: "'j jsoncpp \<Rightarrow> bool \<Rightarrow> 'j rpc \<Rightarrow> bool" for J calm where
  r_init: "(calm \<Longrightarrow> fe_mkfifo e1 \<and> fe_open e1) \<Longrightarrow> reachable J calm (Setup e1 e2 (rpc_init J))"
| r_step: "reachable J calm w \<Longrightarrow> step J calm w w' \<Longrightarrow> reachable J calm w'"

section \<open>Answers\<close>

text \<open>An answer in the making has no result; a finished one has one result, at the end.\<close>

definition sent :: "'j jsoncpp \<Rightarrow> 'j list \<Rightarrow> string" where
  "sent J evs = concat (map (\<lambda>e. j_write J e @ ''\<newline>'') evs)"

definition ordinary :: "'j jsoncpp \<Rightarrow> 'j \<Rightarrow> bool" where
  "ordinary J e \<longleftrightarrow> j_get J e ''event'' \<noteq> j_str J ''result''"

definition running :: "'j jsoncpp \<Rightarrow> string \<Rightarrow> bool" where
  "running J t \<longleftrightarrow> (\<exists>evs. t = sent J evs \<and> list_all (ordinary J) evs)"

definition finished :: "'j jsoncpp \<Rightarrow> string \<Rightarrow> bool" where
  "finished J t \<longleftrightarrow> (\<exists>evs code ident. t = sent J (evs @ [with_id J (result_event J code) ident]) \<and> list_all (ordinary J) evs)"

lemma sent_append: "sent J (xs @ ys) = sent J xs @ sent J ys"
  by (simp add: sent_def)

lemma running_Nil [simp]: "running J []"
  unfolding running_def by (rule exI [of _ "[]"]) (simp add: sent_def)

context json_library
begin

lemma client_sent: "client_lines [] (sent J evs) = map (j_write J) evs"
proof -
  have "sent J evs = concat (map (\<lambda>l. l @ ''\<newline>'') (map (j_write J) evs))" by (simp add: sent_def comp_def)
  then show ?thesis using client_lines_lines [of "map (j_write J) evs"] one_line by (simp add: list_all_iff)
qed

lemma running_event:
  assumes "running J t" "j_isObject J ev" "ordinary J ev"
  shows "running J (t @ event_line J ev ident)"
proof -
  obtain evs where "t = sent J evs" "list_all (ordinary J) evs" using assms(1) by (auto simp: running_def)
  moreover have "ordinary J (with_id J ev ident)" using assms(2,3) by (simp add: ordinary_def with_id_def get_set)
  ultimately show ?thesis
    unfolding running_def by (intro exI [of _ "evs @ [with_id J ev ident]"]) (simp add: sent_def event_line_def)
qed

lemma ordinary_events [simp]:
  "ordinary J (log_event J txt)" "ordinary J (data_event J name v)" "ordinary J (progress_event J phase percent details)"
  "ordinary J (error_event J code message)"
  by (simp_all add: ordinary_def event_kinds str_inject)

lemma running_result: "running J t \<Longrightarrow> finished J (t @ event_line J (result_event J code) ident)"
  by (auto simp: running_def finished_def event_line_def sent_def)

lemma running_logs: "running J t \<Longrightarrow> running J (t @ log_lines J ident ts)"
proof (induction ts arbitrary: t)
  case (Cons a ts)
  then show ?case
    using Cons.IH [of "t @ event_line J (log_event J a) ident"] running_event [of t "log_event J a" ident] events_are_objects by simp
qed simp

end

section \<open>The invariant\<close>

definition serves :: "'j worker \<Rightarrow> bool" where
  "serves x = (case x of Rearming _ \<Rightarrow> False | _ \<Rightarrow> True)"

definition session_inv :: "'j rpc \<Rightarrow> bool" where
  "session_inv w \<longleftrightarrow> (g_active w \<longleftrightarrow> g_output w \<noteq> None) \<and> (g_log w = None \<longleftrightarrow> g_output w = None) \<and> gCommandOutput w = g_active w \<and>
     (\<forall>l. g_log w = Some l \<longrightarrow> ls_output l = g_output w) \<and>
     length (filter serves (workers w)) = (if g_active w then 1 else 0)"

definition stream_inv :: "'j jsoncpp \<Rightarrow> 'j rpc \<Rightarrow> bool" where
  "stream_inv J w \<longleftrightarrow>
     (\<forall>s. g_output w = Some s \<longrightarrow> s < opened w \<and> s \<notin> set (closed w) \<and> running J (streams w s)) \<and>
     (\<forall>s. s \<in> set (closed w) \<longrightarrow> s < opened w \<and> finished J (streams w s)) \<and>
     (\<forall>s. opened w \<le> s \<longrightarrow> streams w s = []) \<and>
     (\<forall>s. s < opened w \<longrightarrow> s \<in> set (closed w) \<or> g_output w = Some s)"

lemma stream_inv_write:
  assumes "stream_inv J w" "\<And>s. g_output w = Some s \<Longrightarrow> running J (fs s)" "\<And>s. g_output w \<noteq> Some s \<Longrightarrow> fs s = streams w s"
  shows "stream_inv J (w\<lparr>streams := fs\<rparr>)"
  using assms unfolding stream_inv_def by simp (metis leD)

lemma stream_inv_close:
  assumes "stream_inv J w" "g_output w = Some s" "finished J (fs s)" "\<And>s'. s' \<noteq> s \<Longrightarrow> fs s' = streams w s'"
  shows "stream_inv J (w\<lparr>streams := fs, closed := s # closed w, g_output := None\<rparr>)"
proof -
  have "fs s' = []" if "opened w \<le> s'" for s' using assms(1,2) assms(4) [of s'] that by (auto simp: stream_inv_def)
  moreover have "s' < opened w \<and> finished J (fs s')" if "s' \<in> set (s # closed w)" for s'
    using assms that by (cases "s' = s") (auto simp: stream_inv_def)
  ultimately show ?thesis using assms(1,2) by (auto simp: stream_inv_def)
qed

text \<open>A stream that is opened, written and closed at once, and one that becomes the session's.\<close>

lemma stream_inv_new:
  assumes "stream_inv J w" "finished J (fs (opened w))" "\<And>s'. s' \<noteq> opened w \<Longrightarrow> fs s' = streams w s'"
  shows "stream_inv J (w\<lparr>opened := Suc (opened w), streams := fs, closed := opened w # closed w\<rparr>)"
proof -
  have "fs s = streams w s" if "g_output w = Some s \<or> s \<in> set (closed w) \<or> Suc (opened w) \<le> s" for s
    using assms(1) that by (intro assms(3)) (auto simp: stream_inv_def)
  then show ?thesis using assms(1,2) by (auto simp: stream_inv_def less_Suc_eq)
qed

lemma stream_inv_start:
  "stream_inv J w \<Longrightarrow> g_output w = None \<Longrightarrow> stream_inv J (w\<lparr>opened := Suc (opened w), g_output := Some (opened w)\<rparr>)"
  by (auto simp: stream_inv_def less_Suc_eq)

lemma inv_other [simp]:
  "stream_inv J (w\<lparr>workers := x\<rparr>) = stream_inv J w" "stream_inv J (w\<lparr>g_input := b\<rparr>) = stream_inv J w"
  "stream_inv J (w\<lparr>g_cancel := b\<rparr>) = stream_inv J w" "stream_inv J (w\<lparr>g_pending := p\<rparr>) = stream_inv J w"
  "stream_inv J (w\<lparr>g_cancelled := b\<rparr>) = stream_inv J w" "stream_inv J (w\<lparr>cancelling := b\<rparr>) = stream_inv J w"
  "stream_inv J (w\<lparr>g_log := l\<rparr>) = stream_inv J w" "stream_inv J (w\<lparr>g_request := r\<rparr>) = stream_inv J w"
  "stream_inv J (w\<lparr>g_active := b\<rparr>) = stream_inv J w" "stream_inv J (w\<lparr>gCommandOutput := b\<rparr>) = stream_inv J w"
  by (simp_all add: stream_inv_def)

lemma session_other [simp]:
  "session_inv (w\<lparr>streams := fs\<rparr>) = session_inv w" "session_inv (w\<lparr>g_input := b\<rparr>) = session_inv w"
  "session_inv (w\<lparr>g_cancel := b\<rparr>) = session_inv w" "session_inv (w\<lparr>g_pending := p\<rparr>) = session_inv w"
  "session_inv (w\<lparr>g_cancelled := b\<rparr>) = session_inv w" "session_inv (w\<lparr>cancelling := b\<rparr>) = session_inv w"
  "session_inv (w\<lparr>g_request := r\<rparr>) = session_inv w" "session_inv (w\<lparr>opened := n\<rparr>) = session_inv w"
  "session_inv (w\<lparr>closed := c\<rparr>) = session_inv w"
  by (simp_all add: session_inv_def)

lemma count_split:
  assumes "i < length xs"
  shows "length (filter P xs) = length (filter P (take i xs)) + (if P (xs ! i) then 1 else 0) + length (filter P (drop (Suc i) xs))"
  using arg_cong [OF id_take_nth_drop [OF assms], of "\<lambda>ys. length (filter P ys)"] by simp

lemma count_update:
  "i < length xs \<Longrightarrow> length (filter P (xs[i := y])) = length (filter P (take i xs)) + (if P y then 1 else 0) + length (filter P (drop (Suc i) xs))"
  by (simp add: upd_conv_take_nth_drop)

lemma serving_active:
  assumes "session_inv w" "i < length (workers w)" "serves (workers w ! i)"
  shows "g_active w" "length (filter serves (take i (workers w))) = 0" "length (filter serves (drop (Suc i) (workers w))) = 0"
  using assms count_split [OF assms(2), of serves] by (simp_all add: session_inv_def split: if_splits)

lemma session_worker:
  "session_inv w \<Longrightarrow> i < length (workers w) \<Longrightarrow> serves (workers w ! i) = serves y \<Longrightarrow> session_inv (w\<lparr>workers := (workers w)[i := y]\<rparr>)"
  using count_split [of i "workers w" serves] by (simp add: session_inv_def count_update)

lemma session_drop:
  "session_inv w \<Longrightarrow> i < length (workers w) \<Longrightarrow> \<not> serves (workers w ! i) \<Longrightarrow> session_inv (drop_worker i w)"
  using count_split [of i "workers w" serves] by (simp add: session_inv_def drop_worker_def)

lemma serves_simps [simp]: "serves Starting" "serves (Executing p)" "\<not> serves (Rearming r)"
  by (simp_all add: serves_def)

context json_library
begin

lemma Send_inv: "stream_inv J w \<Longrightarrow> j_isObject J ev \<Longrightarrow> ordinary J ev \<Longrightarrow> stream_inv J (w\<lparr>streams := Send J (g_output w) ev ident (streams w)\<rparr>)"
  by (rule stream_inv_write) (auto simp: Send_def stream_inv_def running_event split: option.split)

lemma SessionEvents_inv: "stream_inv J w \<Longrightarrow> stream_inv J (SessionEvents J ev w)"
  using Send_inv [of w] by (cases ev) (simp_all add: SessionEvents_def WriteLog_def WriteData_def WriteError_def events_are_objects)

lemma SessionEvents_session [simp]: "session_inv (SessionEvents J ev w) = session_inv w" "workers (SessionEvents J ev w) = workers w"
  by (simp_all add: SessionEvents_def Let_def)

lemma Flush_running:
  assumes "ls_output l = Some s" "running J (fs s)" "FlushLines J flush_tail l fs = (l', fs')"
  shows "ls_output l' = Some s" "running J (fs' s)" "s' \<noteq> s \<Longrightarrow> fs' s' = fs s'"
proof -
  obtain ts rest where "FlushLines J flush_tail l fs = (l\<lparr>ls_pending := rest\<rparr>, fs(s := fs s @ log_lines J (ls_id l) ts))"
    using FlushLines_lines [OF assms(1), of J flush_tail fs] by blast
  then have "l' = l\<lparr>ls_pending := rest\<rparr>" "fs' = fs(s := fs s @ log_lines J (ls_id l) ts)" using assms(3) by simp_all
  then show "ls_output l' = Some s" "running J (fs' s)" "s' \<noteq> s \<Longrightarrow> fs' s' = fs s'"
    using assms(1,2) running_logs by simp_all
qed

lemma put_log_inv:
  assumes "session_inv w" "stream_inv J w"
  shows "session_inv (put_log J txt w)" "stream_inv J (put_log J txt w)"
proof -
  have "session_inv (put_log J txt w) \<and> stream_inv J (put_log J txt w)"
  proof (cases "g_log w")
    case (Some l)
    then obtain s where s: "g_output w = Some s" "ls_output l = Some s" using assms(1) by (auto simp: session_inv_def)
    obtain n l' fs' where lw: "LogWrite J l txt (streams w) = (n, l', fs')" by (cases "LogWrite J l txt (streams w)") auto
    have run: "running J (streams w s)" using assms(2) s(1) by (simp add: stream_inv_def)
    have "ls_output l' = Some s \<and> running J (fs' s) \<and> (\<forall>s'. s' \<noteq> s \<longrightarrow> fs' s' = streams w s')"
    proof (cases "txt = []")
      case True
      then show ?thesis using lw s(2) run by (simp add: LogWrite_def)
    next
      case False
      then have "FlushLines J False (l\<lparr>ls_pending := ls_pending l @ txt\<rparr>) (streams w) = (l', fs')" using lw by (simp add: LogWrite_def)
      from Flush_running [OF _ run this] show ?thesis using s(2) by simp
    qed
    then show ?thesis
      using assms Some s lw by (auto simp: put_log_def session_inv_def intro!: stream_inv_write)
  qed (use assms in \<open>simp add: put_log_def\<close>)
  then show "session_inv (put_log J txt w)" "stream_inv J (put_log J txt w)" by simp_all
qed

lemma CloseSession_inv:
  assumes "session_inv w" "stream_inv J w" "g_active w"
  shows "stream_inv J (CloseSession J r w)" "g_output (CloseSession J r w) = None" "g_log (CloseSession J r w) = None"
    "\<not> g_active (CloseSession J r w)" "\<not> gCommandOutput (CloseSession J r w)" "workers (CloseSession J r w) = workers w"
proof -
  obtain s l where s: "g_output w = Some s" "g_log w = Some l" "ls_output l = Some s"
    using assms(1,3) by (auto simp: session_inv_def) 
  define fs fs' where "fs = LogClose J l (streams w)" and "fs' = fs(s := fs s @ event_line J (result_event J r) (rq_id (g_request w)))"
  have "FlushLines J True l (streams w) = (fst (FlushLines J True l (streams w)), fs)" by (simp add: fs_def LogClose_def)
  from Flush_running [OF s(3) _ this] have run: "running J (fs s)" "\<And>s'. s' \<noteq> s \<Longrightarrow> fs s' = streams w s'"
    using assms(2) s(1) by (simp_all add: stream_inv_def)
  define w' where "w' = w\<lparr>streams := fs', closed := s # closed w, g_output := None\<rparr>"
  have w': "CloseSession J r w = w'\<lparr>gCommandOutput := False, g_log := None, g_request := Request_empty J, g_cancelled := False, g_active := False\<rparr>"
    using s by (simp add: CloseSession_def WriteResult_def Send_def w'_def fs_def fs'_def Let_def)
  have "stream_inv J w'" unfolding w'_def
    by (rule stream_inv_close [OF assms(2) s(1)]) (simp_all add: fs'_def running_result [OF run(1)] run(2))
  then show "stream_inv J (CloseSession J r w)" by (simp add: w')
  show "g_output (CloseSession J r w) = None" "g_log (CloseSession J r w) = None"
    "\<not> g_active (CloseSession J r w)" "\<not> gCommandOutput (CloseSession J r w)" "workers (CloseSession J r w) = workers w"
    by (simp_all add: w' w'_def)
qed

lemma failure_finished:
  "finished J (WriteResult J (Some s) ident r (WriteError J (Some s) ident code message fs) s)" if "fs s = []"
  using that running_result [OF running_event [OF running_Nil events_are_objects(4) ordinary_events(4)]]
  by (simp add: WriteResult_def WriteError_def Send_def)

lemma failure_frame: "s' \<noteq> s \<Longrightarrow> WriteResult J (Some s) ident r (WriteError J (Some s) ident code message fs) s' = fs s'"
  by (simp add: WriteResult_def WriteError_def Send_def)

lemma RespondFailure_inv:
  assumes "stream_inv J w"
  shows "stream_inv J (RespondFailure J e request code message r w)"
proof -
  have "streams w (opened w) = []" using assms by (simp add: stream_inv_def)
  then have "stream_inv J (w\<lparr>opened := Suc (opened w), streams := WriteResult J (Some (opened w)) (rq_id request) r
      (WriteError J (Some (opened w)) (rq_id request) code message (streams w)), closed := opened w # closed w\<rparr>)"
    by (intro stream_inv_new [OF assms]) (simp_all add: failure_finished failure_frame)
  then show ?thesis using assms by (simp add: RespondFailure_def Let_def)
qed

lemma RespondFailure_session [simp]: "session_inv (RespondFailure J e request code message r w) = session_inv w"
  by (simp add: RespondFailure_def Let_def)

lemma Rearm_inv [simp]: "session_inv (Rearm e w) = session_inv w" "stream_inv J (Rearm e w) = stream_inv J w" "workers (Rearm e w) = workers w"
  by (simp_all add: Rearm_def OpenInput_def CloseInput_def Let_def)

end

text \<open>What the channel does with a request, once it is complete.\<close>

lemma HandleInput_cases:
  fixes J :: "'j jsoncpp" and w :: "'j rpc"
  defines "w1 \<equiv> w\<lparr>g_input := False, g_pending := []\<rparr>"
  obtains (pending) p where "HandleInput J e w = w\<lparr>g_pending := p\<rparr>"
  | (refused) request code message r where "HandleInput J e w = Rearm e (RespondFailure J e request code message r w1)"
  | (unopened) "HandleInput J e w = Rearm e w1"
  | (unstarted) request :: "'j request" where "\<not> g_active w" "HandleInput J e w = Rearm e (w1\<lparr>opened := Suc (opened w), g_log := None, g_output := None,
      g_request := Request_empty J, streams := WriteResult J (Some (opened w)) (rq_id request) 1 (WriteError J (Some (opened w)) (rq_id request)
        ''dispatcher_unavailable'' ''The AERA command dispatcher could not start'' (streams w)), closed := opened w # closed w\<rparr>)"
  | (started) request l where "\<not> g_active w" "ls_output l = Some (opened w)" "HandleInput J e w = w1\<lparr>opened := Suc (opened w),
      g_output := Some (opened w), g_request := request, g_log := Some l, g_cancelled := False, g_active := True, gCommandOutput := True,
      workers := workers w @ [Starting]\<rparr>"
proof -
  obtain complete p where rl: "read_loop (fe_reads e) (g_pending w) = (complete, p)" by (cases "read_loop (fe_reads e) (g_pending w)") auto
  show ?thesis
  proof (cases "g_input w \<and> complete")
    case False
    then have "HandleInput J e w = w\<lparr>g_pending := if g_input w then p else g_pending w\<rparr>" using rl by (simp add: HandleInput_def)
    then show ?thesis by (rule pending)
  next
    case True
    define request where "request = ParseRequest J p"
    show ?thesis
    proof (cases "valid request \<and> \<not> g_active w \<and> \<not> fe_busy e \<and> fe_fopen e")
      case False
      then show ?thesis
        using True rl refused [of request "rq_error request" "''Invalid AERA RPC request''" 2]
          refused [of request "''busy''" "''Another recovery operation is active''" 1] unopened
        by (cases "valid request"; cases "g_active w"; cases "fe_busy e")
          (simp_all add: HandleInput_def CloseInput_def request_def [symmetric] w1_def)
    next
      case ok: True
      show ?thesis
      proof (cases "fe_funopen e")
        case True
        then show ?thesis
          using \<open>g_input w \<and> complete\<close> rl ok
          by (intro started [of "\<lparr>ls_output = Some (opened w), ls_id = rq_id request, ls_pending = []\<rparr>"])
            (simp_all add: HandleInput_def CloseInput_def Start_def OpenLogStream_def request_def [symmetric] w1_def Let_def)
      next
        case False
        then show ?thesis
          using \<open>g_input w \<and> complete\<close> rl ok
          by (intro unstarted [of request])
            (simp_all add: HandleInput_def CloseInput_def Start_def OpenLogStream_def request_def [symmetric] w1_def Let_def)
      qed
    qed
  qed
qed

section \<open>Every step keeps the invariant\<close>

context json_library
begin

lemma HandleInput_inv:
  assumes "session_inv w" "stream_inv J w"
  shows "session_inv (HandleInput J e w) \<and> stream_inv J (HandleInput J e w)"
proof (cases rule: HandleInput_cases [of J e w])
  case (unstarted request)
  let ?fs = "WriteResult J (Some (opened w)) (rq_id request) 1 (WriteError J (Some (opened w)) (rq_id request)
    ''dispatcher_unavailable'' ''The AERA command dispatcher could not start'' (streams w))"
  have "streams w (opened w) = []" using assms(2) by (simp add: stream_inv_def)
  then have "stream_inv J (w\<lparr>opened := Suc (opened w), streams := ?fs, closed := opened w # closed w\<rparr>)"
    by (intro stream_inv_new [OF assms(2)]) (simp_all add: failure_finished failure_frame)
  moreover have "g_output w = None" "g_log w = None" using assms(1) unstarted(1) by (simp_all add: session_inv_def)
  ultimately show ?thesis using assms(1) unfolding unstarted(2) Rearm_inv by (simp add: stream_inv_def session_inv_def)
next
  case (started request l)
  then have "g_output w = None" using assms(1) by (simp add: session_inv_def)
  then show ?thesis
    using stream_inv_start [OF assms(2)] assms(1) started(1,2) unfolding started(3) by (simp add: stream_inv_def session_inv_def)
qed (use assms RespondFailure_inv in simp_all)

lemma wstep_inv:
  assumes "wstep J calm w w'" "session_inv w" "stream_inv J w"
  shows "session_inv w' \<and> stream_inv J w'"
  using assms
proof (induction rule: wstep.induct)
  case (w_idle i w)
  then show ?case using serving_active(1) [of w i] by simp
next
  case (w_close i w r)
  have act: "g_active w" "length (filter serves (take i (workers w))) = 0" "length (filter serves (drop (Suc i) (workers w))) = 0"
    using serving_active [OF w_close.prems(1) w_close.hyps(1)] w_close.hyps(2) by simp_all
  then show ?case
    using CloseSession_inv [OF w_close.prems act(1), of r] w_close.hyps by (simp add: session_inv_def count_update)
next
  case (w_emit i w ev p)
  then show ?case using session_worker [of "SessionEvents J ev w" i "Executing p"] SessionEvents_inv by simp
next
  case (w_rearm i w r e)
  then show ?case using session_drop [of "Rearm e w" i] by (simp add: drop_worker_def)
qed (simp_all add: session_worker)

lemma step_inv:
  assumes "step J calm w w'" "session_inv w" "stream_inv J w"
  shows "session_inv w' \<and> stream_inv J w'"
  using assms
proof (induction rule: step.induct)
  case (s_worker w w')
  then show ?case using wstep_inv by blast
next
  case (s_input w e pollin)
  then show ?case using HandleInput_inv by (simp add: frame_input_def)
next
  case (s_cancelled w e)
  then show ?case using Send_inv [of w "log_event J ''Cancellation requested\<newline>''" "rq_id (g_request w)"]
    by (simp add: OpenCancel_def Cancel_end_def WriteLog_def Let_def events_are_objects)
next
  case (s_progress w phase percent details)
  then show ?case using Send_inv [of w "progress_event J phase percent details" "rq_id (g_request w)"]
    by (simp add: Progress_locked_def WriteProgress_def events_are_objects)
qed (auto simp: Cancel_begin_def OpenCancel_def OpenInput_def CloseInput_def Setup_def Shutdown_def gui_print_def gui_msg_def put_log_inv Let_def split: if_splits)

lemma reachable_inv: "reachable J calm w \<Longrightarrow> session_inv w \<and> stream_inv J w"
proof (induction rule: reachable.induct)
  case (r_init e1 e2)
  then show ?case by (simp add: Setup_def rpc_init_def OpenInput_def CloseInput_def OpenCancel_def session_inv_def stream_inv_def Let_def)
next
  case (r_step w w')
  then show ?case using step_inv by blast
qed

end

section \<open>The channel opens again\<close>

definition armed :: "'j rpc \<Rightarrow> bool" where
  "armed w \<longleftrightarrow> g_input w \<or> workers w \<noteq> []"

lemma armed_other [simp]: "armed (w\<lparr>streams := fs\<rparr>) = armed w" "armed (w\<lparr>g_cancel := b\<rparr>) = armed w" "armed (w\<lparr>g_cancelled := b\<rparr>) = armed w"
  "armed (w\<lparr>cancelling := b\<rparr>) = armed w" "armed (w\<lparr>g_log := l\<rparr>) = armed w"
  by (simp_all add: armed_def)

lemma wstep_armed: "wstep J calm w w' \<Longrightarrow> calm \<Longrightarrow> session_inv w \<Longrightarrow> armed w \<Longrightarrow> armed w'"
proof (induction rule: wstep.induct)
  case (w_idle i w)
  then show ?case using serving_active(1) [of w i] by simp
next
  case (w_rearm i w r e)
  then show ?case by (simp add: armed_def drop_worker_def Rearm_def OpenInput_def Let_def)
qed (auto simp: armed_def)

lemma step_armed:
  assumes "step J calm w w'" "calm" "session_inv w" "armed w"
  shows "armed w'"
  using assms
proof (induction rule: step.induct)
  case (s_worker w w')
  then show ?case using wstep_armed by blast
next
  case (s_input w e pollin)
  then have ok: "fe_mkfifo e" "fe_open e" by simp_all
  have "armed (HandleInput J e w)"
    using s_input.prems(3) ok
    by (cases rule: HandleInput_cases [of J e w]) (simp_all add: armed_def Rearm_def OpenInput_def CloseInput_def Let_def)
  then show ?case using s_input.prems(3) by (simp add: frame_input_def)
qed (auto simp: Cancel_begin_def Cancel_end_def OpenCancel_def Progress_locked_def gui_print_def gui_msg_def put_log_def Let_def
    split: if_splits option.split prod.split)

context json_library
begin

lemma reachable_armed: "reachable J True w \<Longrightarrow> armed w"
proof (induction rule: reachable.induct)
  case (r_init e1 e2)
  then show ?case by (simp add: Setup_def rpc_init_def OpenInput_def CloseInput_def OpenCancel_def armed_def Let_def)
next
  case (r_step w w')
  then show ?case using step_armed reachable_inv by blast
qed

end

section \<open>The worker comes to an end\<close>

inductive worker_less :: "'j worker \<Rightarrow> 'j worker \<Rightarrow> bool" where
  "worker_less (Rearming r) (Executing p)"
| "child q p \<Longrightarrow> worker_less (Executing q) (Executing p)"
| "worker_less (Executing p) (Executing (Emit ev p))"
| "worker_less (Executing p) Starting"

inductive_cases worker_lessE: "worker_less x (Rearming r)" "worker_less x (Executing p)" "worker_less x Starting"

inductive_cases childE: "child q (Return r)" "child q (Emit e p)" "child q (Do c p)" "child q (AskInt c f)" "child q (AskBool d f)"
  "child q (AskString qq f)" "child q (AskVolumes v f)" "child q (AskWifi f)" "child q (AskTransition t f)" "child q (AskLog f)"

lemma accp_rearming: "Wellfounded.accp worker_less (Rearming r)"
  by (rule accp.accI) (auto elim: worker_lessE)

lemma accp_executing: "Wellfounded.accp worker_less (Executing p)"
  by (induction p) (rule accp.accI, auto elim!: worker_lessE childE intro: accp_rearming)+

lemma worker_less_wf: "wfp worker_less"
proof (rule accp_wfpI, rule allI)
  fix x :: "'j worker"
  show "Wellfounded.accp worker_less x"
    by (cases x) (auto intro: accp_rearming accp_executing accp.accI elim: worker_lessE)
qed

lemma wstep_workers:
  assumes "wstep J calm w w'"
  obtains i where "i < length (workers w)" "workers w' = take i (workers w) @ drop (Suc i) (workers w)"
  | i y where "i < length (workers w)" "worker_less y (workers w ! i)" "workers w' = (workers w)[i := y]"
  using assms
proof (cases rule: wstep.cases)
  case (w_begin i)
  then show ?thesis by (intro that(2) [of i]) (simp_all add: worker_less.intros)
next
  case (w_idle i)
  then show ?thesis by (intro that(1) [of i]) (simp_all add: drop_worker_def)
next
  case (w_emit i ev p)
  then show ?thesis by (intro that(2) [of i]) (simp_all add: worker_less.intros)
next
  case (w_call i p q)
  then show ?thesis by (intro that(2) [of i]) (simp_all add: worker_less.intros)
next
  case (w_close i r)
  then show ?thesis by (intro that(2) [of i]) (simp_all add: worker_less.intros)
next
  case (w_rearm i r e)
  then show ?thesis by (intro that(1) [of i]) (simp_all add: drop_worker_def Rearm_def OpenInput_def CloseInput_def Let_def)
qed

lemma wstep_mult1:
  assumes "wstep J calm w w'"
  shows "(mset (workers w'), mset (workers w)) \<in> mult1 {(x, y). worker_less x y}"
proof -
  have split: "mset (workers w) = add_mset (workers w ! i) (mset (take i (workers w) @ drop (Suc i) (workers w)))" if "i < length (workers w)" for i
    using arg_cong [OF id_take_nth_drop [OF that], of mset] by simp
  show ?thesis
  proof (cases rule: wstep_workers [OF assms])
    case (1 i)
    show ?thesis by (rule mult1I [OF split [OF 1(1)], of _ "{#}"]) (simp_all add: 1(2))
  next
    case (2 i y)
    show ?thesis by (rule mult1I [OF split [OF 2(1)], of _ "{#y#}"]) (use 2 in \<open>simp_all add: upd_conv_take_nth_drop\<close>)
  qed
qed

lemma wstep_wf: "wf {(w', w). wstep J calm w w'}"
proof (rule wf_subset)
  show "wf (inv_image (mult1 {(x, y). worker_less x y}) (\<lambda>w. mset (workers w)))"
    using worker_less_wf by (intro wf_inv_image wf_mult1) (simp add: wfp_def)
  show "{(w', w). wstep J calm w w'} \<subseteq> inv_image (mult1 {(x, y). worker_less x y}) (\<lambda>w. mset (workers w))"
    by (auto simp: wstep_mult1)
qed

lemma wstep_possible: "workers w \<noteq> [] \<Longrightarrow> \<exists>w'. wstep J calm w w'"
proof -
  assume "workers w \<noteq> []"
  then have i: "0 < length (workers w)" by simp
  define e where "e = \<lparr>fe_reads = [], fe_busy = False, fe_fopen = True, fe_funopen = True, fe_mkfifo = True, fe_open = True\<rparr>"
  show ?thesis
  proof (cases "workers w ! 0")
    case Starting
    then show ?thesis using w_begin [OF i] w_idle [OF i] by (cases "g_active w") blast+
  next
    case (Executing p)
    then show ?thesis
      using w_emit [OF i] w_close [OF i] w_call [OF i Executing] by (cases p) (blast intro: child.intros)+
  next
    case (Rearming r)
    then show ?thesis using w_rearm [OF i Rearming, of calm e] by (auto simp: e_def)
  qed
qed

section \<open>Properties of the command interface\<close>

definition sample_frame :: frame_env where
  "sample_frame = \<lparr>fe_reads = [Data ''{}'', Eof], fe_busy = False, fe_fopen = True, fe_funopen = True, fe_mkfifo = True, fe_open = True\<rparr>"

definition sample_served :: "json rpc" where
  "sample_served = frame_input small_json True sample_frame (Setup sample_frame sample_frame (rpc_init small_json))"

lemma sample_reachable: "reachable small_json True sample_served"
  unfolding sample_served_def
  by (rule r_step [OF r_init s_input])
     (simp_all add: sample_frame_def Setup_def rpc_init_def OpenInput_def OpenCancel_def CloseInput_def Let_def)

lemma small_json_write: "j_write small_json = show_json"
  by (simp add: small_json_def)

lemma sample_served_eval: "opened sample_served = 1" "closed sample_served = [0]" "workers sample_served = []"
  by (simp_all add: sample_served_def frame_input_def HandleInput_def sample_frame_def Setup_def rpc_init_def OpenInput_def OpenCancel_def
      CloseInput_def ParseRequest_def small_json_def members_def valid_def Request_empty_def RespondFailure_def Rearm_def
      kMaximumRequestBytes_def Let_def)



text \<open>C7. The channel never stays closed. While the pipes can be created and opened and the page that allows commands stays, the
  worker of a session makes only finitely many steps whatever the recovery answers it, and where it stops the
  input is open for the next request, no session is active and every answer that was opened is closed.\<close>

theorem rpc_rearms:
  assumes "json_library J" "reachable J True w"
  shows "wf {(w', w). wstep J True w w'} \<and>
    (\<not> (\<exists>w'. wstep J True w w') \<longrightarrow> g_input w \<and> \<not> g_active w \<and> (\<forall>s<opened w. s \<in> set (closed w)))"
proof -
  have inv: "session_inv w" "stream_inv J w" "armed w"
    using json_library.reachable_inv [OF assms] json_library.reachable_armed [OF assms] by simp_all
  have "g_input w \<and> \<not> g_active w \<and> (\<forall>s<opened w. s \<in> set (closed w))" if "workers w = []"
    using inv that by (auto simp: armed_def session_inv_def stream_inv_def split: if_splits)
  moreover have "\<not> (\<exists>w'. wstep J True w w') \<Longrightarrow> workers w = []" using wstep_possible [of w J True] by argo
  ultimately show ?thesis by (intro conjI impI wstep_wf) simp_all
qed

theorem rpc_rearms_witness:
  "g_input sample_served \<and> \<not> g_active sample_served \<and> 0 < opened sample_served \<and> 0 \<in> set (closed sample_served)"
proof -
  have "\<not> (\<exists>w'. wstep small_json True sample_served w')" by (auto simp: sample_served_eval elim!: wstep.cases)
  then show ?thesis using rpc_rearms [OF small.json_library_axioms sample_reachable] by (simp add: sample_served_eval)
qed

lemma reads_unused [simp]:
  "Rearm (e\<lparr>fe_reads := rs\<rparr>) w = Rearm e w" "RespondFailure J (e\<lparr>fe_reads := rs\<rparr>) r c m k w = RespondFailure J e r c m k w"
  "Start J (e\<lparr>fe_reads := rs\<rparr>) out r w = Start J e out r w"
  by (simp_all add: Rearm_def OpenInput_def RespondFailure_def Start_def Let_def)



end
