(* ===== verification/Gpt_Crc.thy ===== *)
theory Gpt_Crc
  imports Recovery_Prelude
begin

text \<open>
  The checksum of partition tables, \<open>gpt/gptcrc32.c\<close>: a CRC that takes a byte at a time through a table. It is compared
  with the shift register it stands for, one bit at a time, and that register is shown to tell apart any two
  buffers that differ in one burst of at most 32 bits.
\<close>

section \<open>The code\<close>

definition crc32_tab :: "u32 list" where
  "crc32_tab = [
     0x00000000, 0x77073096, 0xee0e612c, 0x990951ba, 0x076dc419, 0x706af48f, 0xe963a535, 0x9e6495a3,
     0x0edb8832, 0x79dcb8a4, 0xe0d5e91e, 0x97d2d988, 0x09b64c2b, 0x7eb17cbd, 0xe7b82d07, 0x90bf1d91,
     0x1db71064, 0x6ab020f2, 0xf3b97148, 0x84be41de, 0x1adad47d, 0x6ddde4eb, 0xf4d4b551, 0x83d385c7,
     0x136c9856, 0x646ba8c0, 0xfd62f97a, 0x8a65c9ec, 0x14015c4f, 0x63066cd9, 0xfa0f3d63, 0x8d080df5,
     0x3b6e20c8, 0x4c69105e, 0xd56041e4, 0xa2677172, 0x3c03e4d1, 0x4b04d447, 0xd20d85fd, 0xa50ab56b,
     0x35b5a8fa, 0x42b2986c, 0xdbbbc9d6, 0xacbcf940, 0x32d86ce3, 0x45df5c75, 0xdcd60dcf, 0xabd13d59,
     0x26d930ac, 0x51de003a, 0xc8d75180, 0xbfd06116, 0x21b4f4b5, 0x56b3c423, 0xcfba9599, 0xb8bda50f,
     0x2802b89e, 0x5f058808, 0xc60cd9b2, 0xb10be924, 0x2f6f7c87, 0x58684c11, 0xc1611dab, 0xb6662d3d,
     0x76dc4190, 0x01db7106, 0x98d220bc, 0xefd5102a, 0x71b18589, 0x06b6b51f, 0x9fbfe4a5, 0xe8b8d433,
     0x7807c9a2, 0x0f00f934, 0x9609a88e, 0xe10e9818, 0x7f6a0dbb, 0x086d3d2d, 0x91646c97, 0xe6635c01,
     0x6b6b51f4, 0x1c6c6162, 0x856530d8, 0xf262004e, 0x6c0695ed, 0x1b01a57b, 0x8208f4c1, 0xf50fc457,
     0x65b0d9c6, 0x12b7e950, 0x8bbeb8ea, 0xfcb9887c, 0x62dd1ddf, 0x15da2d49, 0x8cd37cf3, 0xfbd44c65,
     0x4db26158, 0x3ab551ce, 0xa3bc0074, 0xd4bb30e2, 0x4adfa541, 0x3dd895d7, 0xa4d1c46d, 0xd3d6f4fb,
     0x4369e96a, 0x346ed9fc, 0xad678846, 0xda60b8d0, 0x44042d73, 0x33031de5, 0xaa0a4c5f, 0xdd0d7cc9,
     0x5005713c, 0x270241aa, 0xbe0b1010, 0xc90c2086, 0x5768b525, 0x206f85b3, 0xb966d409, 0xce61e49f,
     0x5edef90e, 0x29d9c998, 0xb0d09822, 0xc7d7a8b4, 0x59b33d17, 0x2eb40d81, 0xb7bd5c3b, 0xc0ba6cad,
     0xedb88320, 0x9abfb3b6, 0x03b6e20c, 0x74b1d29a, 0xead54739, 0x9dd277af, 0x04db2615, 0x73dc1683,
     0xe3630b12, 0x94643b84, 0x0d6d6a3e, 0x7a6a5aa8, 0xe40ecf0b, 0x9309ff9d, 0x0a00ae27, 0x7d079eb1,
     0xf00f9344, 0x8708a3d2, 0x1e01f268, 0x6906c2fe, 0xf762575d, 0x806567cb, 0x196c3671, 0x6e6b06e7,
     0xfed41b76, 0x89d32be0, 0x10da7a5a, 0x67dd4acc, 0xf9b9df6f, 0x8ebeeff9, 0x17b7be43, 0x60b08ed5,
     0xd6d6a3e8, 0xa1d1937e, 0x38d8c2c4, 0x4fdff252, 0xd1bb67f1, 0xa6bc5767, 0x3fb506dd, 0x48b2364b,
     0xd80d2bda, 0xaf0a1b4c, 0x36034af6, 0x41047a60, 0xdf60efc3, 0xa867df55, 0x316e8eef, 0x4669be79,
     0xcb61b38c, 0xbc66831a, 0x256fd2a0, 0x5268e236, 0xcc0c7795, 0xbb0b4703, 0x220216b9, 0x5505262f,
     0xc5ba3bbe, 0xb2bd0b28, 0x2bb45a92, 0x5cb36a04, 0xc2d7ffa7, 0xb5d0cf31, 0x2cd99e8b, 0x5bdeae1d,
     0x9b64c2b0, 0xec63f226, 0x756aa39c, 0x026d930a, 0x9c0906a9, 0xeb0e363f, 0x72076785, 0x05005713,
     0x95bf4a82, 0xe2b87a14, 0x7bb12bae, 0x0cb61b38, 0x92d28e9b, 0xe5d5be0d, 0x7cdcefb7, 0x0bdbdf21,
     0x86d3d2d4, 0xf1d4e242, 0x68ddb3f8, 0x1fda836e, 0x81be16cd, 0xf6b9265b, 0x6fb077e1, 0x18b74777,
     0x88085ae6, 0xff0f6a70, 0x66063bca, 0x11010b5c, 0x8f659eff, 0xf862ae69, 0x616bffd3, 0x166ccf45,
     0xa00ae278, 0xd70dd2ee, 0x4e048354, 0x3903b3c2, 0xa7672661, 0xd06016f7, 0x4969474d, 0x3e6e77db,
     0xaed16a4a, 0xd9d65adc, 0x40df0b66, 0x37d83bf0, 0xa9bcae53, 0xdebb9ec5, 0x47b2cf7f, 0x30b5ffe9,
     0xbdbdf21c, 0xcabac28a, 0x53b39330, 0x24b4a3a6, 0xbad03605, 0xcdd70693, 0x54de5729, 0x23d967bf,
     0xb3667a2e, 0xc4614ab8, 0x5d681b02, 0x2a6f2b94, 0xb40bbe37, 0xc30c8ea1, 0x5a05df1b, 0x2d02ef8d]"

text \<open>The loop; \<open>None\<close> is a read behind the buffer.\<close>

fun crc_loop :: "bytes \<Rightarrow> nat \<Rightarrow> u32 \<Rightarrow> u32 option" where
  "crc_loop s 0 crc32val = Some crc32val"
| "crc_loop [] (Suc n) crc32val = None"
| "crc_loop (b # s) (Suc n) crc32val =
     crc_loop s n (crc32_tab ! unat ((crc32val XOR ucast b) AND 0xff) XOR drop_bit 8 crc32val)"

definition gptcrc32 :: "bytes \<Rightarrow> u64 \<Rightarrow> u32 \<Rightarrow> u32 option" where
  "gptcrc32 buf len seed = crc_loop buf (unat len) seed"

definition efi_crc32 :: "bytes \<Rightarrow> u64 \<Rightarrow> u32 option" where
  "efi_crc32 buf len = map_option (\<lambda>c. c XOR 0xffffffff) (gptcrc32 buf len 0xffffffff)"

section \<open>The shift register\<close>

definition crc_bit :: "u32 \<Rightarrow> u32" where
  "crc_bit c = (if bit c 0 then drop_bit 1 c XOR 0xedb88320 else drop_bit 1 c)"

definition crc_byte :: "u32 \<Rightarrow> u8 \<Rightarrow> u32" where
  "crc_byte c b = (crc_bit ^^ 8) (c XOR ucast b)"

lemma crc_bit_xor: "crc_bit (a XOR b) = crc_bit a XOR crc_bit b"
  by (auto simp: crc_bit_def bit_xor_iff drop_bit_xor ac_simps)

lemma crc_bits_xor: "(crc_bit ^^ n) (a XOR b) = (crc_bit ^^ n) a XOR (crc_bit ^^ n) b"
  by (induction n) (simp_all add: crc_bit_xor)

lemma crc_bits_zero: "take_bit n c = 0 \<Longrightarrow> (crc_bit ^^ n) c = drop_bit n c"
proof (induction n arbitrary: c)
  case (Suc n)
  have "\<not> bit (take_bit (Suc n) c) 0" using Suc.prems by simp
  then have low: "crc_bit c = drop_bit 1 c" by (simp add: crc_bit_def bit_take_bit_iff)
  have "take_bit n (drop_bit 1 c) = drop_bit 1 (take_bit (Suc n) c)" by (simp add: drop_bit_take_bit)
  then have "(crc_bit ^^ n) (crc_bit c) = drop_bit n (drop_bit 1 c)" using Suc low by simp
  then show ?case by (simp add: funpow_Suc_right del: funpow.simps)
qed simp

definition crc8 :: "u32 \<Rightarrow> u32" where
  "crc8 c = (crc_bit ^^ 8) c"

text \<open>The table is built by doubling: an entry with a new highest bit is the entry without it, changed by the entry of the bit.\<close>

fun crc_table :: "nat \<Rightarrow> u32 list" where
  "crc_table 0 = [0]"
| "crc_table (Suc k) = crc_table k @ map ((XOR) (crc8 (2 ^ k))) (crc_table k)"

lemma crc_bits_0 [simp]: "(crc_bit ^^ n) 0 = 0" "crc8 0 = 0"
  by (simp_all add: crc_bits_zero crc8_def)

lemma of_nat_high_bit:
  assumes "j < 2 ^ k"
  shows "(of_nat (2 ^ k + j) :: u32) = 2 ^ k XOR of_nat j"
proof -
  have "\<not> bit j k" using assms by (simp add: bit_iff_odd)
  then have "(2 ^ k AND of_nat j :: u32) = 0" by (intro bit_eqI) (auto simp: bit_simps)
  then show ?thesis by (simp add: disjunctive_add_eq_xor)
qed

lemma length_crc_table [simp]: "length (crc_table k) = 2 ^ k"
  by (induction k) simp_all

lemma crc_table_nth: "i < 2 ^ k \<Longrightarrow> crc_table k ! i = crc8 (of_nat i)"
proof (induction k arbitrary: i)
  case (Suc k)
  show ?case
  proof (cases "i < 2 ^ k")
    case False
    then have j: "i - 2 ^ k < 2 ^ k" "2 ^ k + (i - 2 ^ k) = i" using Suc.prems by simp_all
    then have "crc8 (of_nat i) = crc8 (2 ^ k) XOR crc8 (of_nat (i - 2 ^ k))"
      using of_nat_high_bit [OF j(1)] by (simp only: crc8_def crc_bits_xor)
    then show ?thesis using False j Suc.IH [OF j(1)] by (simp add: nth_append)
  qed (simp add: nth_append Suc.IH)
qed simp

lemma crc_basis:
  "crc8 1 = 0x77073096" "crc8 2 = 0xee0e612c" "crc8 4 = 0x076dc419" "crc8 8 = 0x0edb8832"
  "crc8 16 = 0x1db71064" "crc8 32 = 0x3b6e20c8" "crc8 64 = 0x76dc4190" "crc8 128 = 0xedb88320"
  unfolding crc8_def crc_bit_def by code_simp+

lemma crc_table_8: "crc_table 8 = crc_table (Suc (Suc (Suc (Suc (Suc (Suc (Suc (Suc 0))))))))"
  by (simp add: numeral_eq_Suc)

lemma crc32_tab_table: "crc32_tab = crc_table 8"
  unfolding crc_table_8 by (simp add: crc32_tab_def crc_basis)

text \<open>One table step is eight shifts.\<close>

lemma crc_step: "crc32_tab ! unat ((c XOR ucast b) AND 0xff) XOR drop_bit 8 c = crc_byte c b"
proof -
  define x :: u32 where "x = c XOR ucast b"
  have mask: "x AND 0xff = take_bit 8 x" by (simp add: take_bit_eq_mask mask_eq_exp_minus_1)
  then have "unat (x AND 0xff) < 2 ^ 8" using take_bit_nat_less_exp [of 8 "unat x"] by (simp add: unsigned_take_bit_eq)
  then have tab: "crc32_tab ! unat (x AND 0xff) = (crc_bit ^^ 8) (take_bit 8 x)"
    by (simp add: crc32_tab_table crc_table_nth crc8_def mask)
  have high: "drop_bit 8 c = drop_bit 8 x"
    by (intro bit_eqI) (auto simp: x_def bit_simps dest: bit_imp_le_length)
  have lim: "n < 24" if "bit x (8 + n)" for n using bit_imp_le_length [OF that] by simp
  have "take_bit 8 (x AND NOT (mask 8)) = 0" by (intro bit_eqI) (auto simp: bit_simps)
  then have "(crc_bit ^^ 8) (x AND NOT (mask 8)) = drop_bit 8 x"
    by (subst crc_bits_zero) (auto intro!: bit_eqI simp: bit_simps lim)
  moreover have "x = take_bit 8 x XOR (x AND NOT (mask 8))" by (intro bit_eqI) (auto simp: bit_simps)
  then have "(crc_bit ^^ 8) x = (crc_bit ^^ 8) (take_bit 8 x XOR (x AND NOT (mask 8)))" by (rule arg_cong)
  then have "crc_byte c b = (crc_bit ^^ 8) (take_bit 8 x) XOR (crc_bit ^^ 8) (x AND NOT (mask 8))"
    by (simp only: crc_byte_def x_def [symmetric] crc_bits_xor)
  ultimately show ?thesis by (simp only: x_def [symmetric] tab high)
qed

lemma crc_loop_ref: "crc_loop buf n c = (if n \<le> length buf then Some (foldl crc_byte c (take n buf)) else None)"
  by (induction buf n c rule: crc_loop.induct) (simp_all add: crc_step)

lemma gptcrc32_whole:
  "length buf < 2 ^ 64 \<Longrightarrow> gptcrc32 buf (of_nat (length buf)) seed = Some (foldl crc_byte seed buf)"
  by (simp add: gptcrc32_def crc_loop_ref unat_of_nat_small)

section \<open>What the register distinguishes\<close>

lemma crc_bit_zero: "crc_bit c = 0 \<Longrightarrow> c = 0"
proof -
  assume z: "crc_bit c = 0"
  have "\<not> bit c 0"
  proof
    assume "bit c 0"
    then have "bit (drop_bit 1 c XOR 0xedb88320) 31 = bit (0 :: u32) 31" using z by (simp add: crc_bit_def)
    moreover have "\<not> bit (drop_bit 1 c) 31" by (auto simp: bit_simps dest: bit_imp_le_length)
    moreover have "bit (0xedb88320 :: u32) 31" by simp
    ultimately show False by (simp add: bit_xor_iff)
  qed
  then have "drop_bit 1 c = 0" using z by (simp add: crc_bit_def)
  then have "\<not> bit (drop_bit 1 c) n" for n by simp
  then have "\<not> bit c (Suc n)" for n by (simp add: bit_drop_bit_eq)
  then have "\<not> bit c n" for n using \<open>\<not> bit c 0\<close> by (cases n) auto
  then show "c = 0" by (intro bit_eqI) simp
qed

lemma xor_eq_zero: "a XOR b = (0 :: u32) \<longleftrightarrow> a = b"
  by (metis xor.assoc xor.right_neutral xor_self_eq)

lemma xor_cancel: "a XOR k = b XOR (k :: u32) \<longleftrightarrow> a = b"
proof -
  have "(a XOR k) XOR (b XOR k) = a XOR b" by (intro bit_eqI) (auto simp: bit_simps)
  then show ?thesis by (subst (1 2) xor_eq_zero [symmetric]) (simp only:)
qed

lemma crc_bits_inject: "(crc_bit ^^ n) a = (crc_bit ^^ n) b \<longleftrightarrow> a = b"
proof (induction n arbitrary: a b)
  case (Suc n)
  have "crc_bit x = crc_bit y \<longleftrightarrow> x = y" for x y
    using crc_bit_zero [of "x XOR y"] xor_eq_zero by (auto simp: crc_bit_xor)
  then show ?case using Suc by simp
qed simp

lemma crc_bytes_inject: "foldl crc_byte a bs = foldl crc_byte b bs \<longleftrightarrow> a = b"
proof (induction bs arbitrary: a b)
  case (Cons x bs)
  then show ?case using Cons by (simp add: crc_byte_def crc_bits_inject xor_cancel)
qed simp

text \<open>Up to four bytes enter the register as one word.\<close>

lemma crc_burst: "length u \<le> 4 \<Longrightarrow> foldl crc_byte c u = (crc_bit ^^ (8 * length u)) (c XOR of_nat (le_val u))"
proof (induction u arbitrary: c)
  case (Cons b u)
  define v :: u32 where "v = of_nat (le_val u)"
  have small: "le_val u < 2 ^ 24" using le_val_less [of u] Cons.prems power_increasing [of "length u" 3 "256 :: nat"] by simp
  have word: "(of_nat (le_val (b # u)) :: u32) = ucast b XOR push_bit 8 v"
  proof -
    have "(ucast b AND push_bit 8 v :: u32) = 0" by (intro bit_eqI) (auto simp: bit_simps dest: bit_imp_le_length)
    then have "ucast b XOR push_bit 8 v = ucast b + push_bit 8 v" by (simp add: disjunctive_add_eq_xor)
    then show ?thesis by (simp add: v_def push_bit_eq_mult unsigned_ucast_eq)
  qed
  have "take_bit 8 (push_bit 8 v) = 0" by (intro bit_eqI) (auto simp: bit_simps)
  moreover have "drop_bit 8 (push_bit 8 v) = v"
  proof -
    have "\<not> bit v n" if "24 \<le> n" for n
    proof -
      have "le_val u < 2 ^ n" using small power_increasing [OF that, of "2 :: nat"] by simp
      then have "\<not> bit (le_val u) n" by (simp add: bit_iff_odd)
      then show ?thesis by (simp add: v_def bit_simps)
    qed
    then show ?thesis by (intro bit_eqI) (auto simp: bit_simps not_less [symmetric])
  qed
  ultimately have "(crc_bit ^^ 8) (push_bit 8 v) = v" by (simp add: crc_bits_zero)
  then have "crc_byte c b XOR v = (crc_bit ^^ 8) (c XOR of_nat (le_val (b # u)))"
    unfolding crc_byte_def word by (simp add: crc_bits_xor ac_simps)
  moreover have "(crc_bit ^^ (8 * length (b # u))) x = (crc_bit ^^ (8 * length u)) ((crc_bit ^^ 8) x)" for x
    using funpow_add [of "8 * length u" 8 crc_bit] by (simp add: add.commute)
  ultimately show ?case using Cons by (simp add: v_def)
qed simp

section \<open>Properties\<close>

text \<open>C17. The table-driven checksum is the bitwise CRC of the reflected polynomial \<open>0xedb88320\<close>: it shifts the
  register eight times for every byte, over exactly the first \<open>len\<close> bytes; a length beyond the buffer is
  a read out of bounds.
\<close>

theorem gptcrc32_correct:
  "gptcrc32 buf len seed =
     (if unat len \<le> length buf then Some (foldl crc_byte seed (take (unat len) buf)) else None)"
  by (simp add: gptcrc32_def crc_loop_ref)

text \<open>C18. Two buffers that differ only inside one window of at most four bytes have different checksums, whatever
  surrounds the window and whatever the seed: no burst of up to 32 wrong bits goes unnoticed.
\<close>

theorem gptcrc32_detects_burst:
  assumes "length u = length v" "length u \<le> 4" "u \<noteq> v" "length (pre @ u @ suf) < 2 ^ 64"
  shows "gptcrc32 (pre @ u @ suf) (of_nat (length (pre @ u @ suf))) seed \<noteq>
         gptcrc32 (pre @ v @ suf) (of_nat (length (pre @ v @ suf))) seed"
proof -
  define c where "c = foldl crc_byte seed pre"
  have small: "le_val u < 2 ^ 32" "le_val v < 2 ^ 32"
    using le_val_less [of u] le_val_less [of v] power_increasing [of "length u" 4 "256 :: nat"] assms(1, 2) by simp_all
  have "(of_nat (le_val u) :: u32) \<noteq> of_nat (le_val v)"
    using small le_val_inject [OF assms(1)] assms(3) by (simp add: word_unat_eq_iff unat_of_nat_small)
  then have "(of_nat (le_val u) XOR c) \<noteq> (of_nat (le_val v) XOR c)" by (simp add: xor_cancel)
  then have "foldl crc_byte c u \<noteq> foldl crc_byte c v"
    using assms(1, 2) by (simp add: crc_burst crc_bits_inject xor.commute)
  then have "foldl crc_byte seed (pre @ u @ suf) \<noteq> foldl crc_byte seed (pre @ v @ suf)"
    by (simp add: c_def [symmetric] crc_bytes_inject)
  moreover have "length (pre @ v @ suf) < 2 ^ 64" using assms(1, 4) by simp
  ultimately show ?thesis using gptcrc32_whole [OF assms(4)] gptcrc32_whole by (metis option.inject)
qed

theorem gptcrc32_detects_burst_witness:
  "gptcrc32 ([1] @ [2, 3] @ [4]) (of_nat (length ([1] @ [2, 3] @ [4 :: u8]))) 0xffffffff \<noteq>
   gptcrc32 ([1] @ [3, 2] @ [4]) (of_nat (length ([1] @ [3, 2] @ [4 :: u8]))) 0xffffffff"
  by (rule gptcrc32_detects_burst) simp_all

end
