(* ===== verification/Gpt.thy ===== *)
theory Gpt
  imports Gpt_Crc Block_Map
begin

text \<open>
  The reader of GUID partition tables, \<open>gpt/gpt.c\<close> and \<open>gpt/gpt.h\<close>. The packed structures are records with
  the functions that read them from memory and lay them out again; the calls of the kernel and of the
  allocator are the fields of a record, and the position of the file descriptor is passed along, because
  \<open>read_lba\<close> ignores a seek that failed. \<open>None\<close> is undefined behaviour: a division by zero, an access outside
  a buffer, or a copy of \<open>(size_t)-1\<close> bytes. The lemmas compare the search for a table with a specification
  over the bytes of the disk.
\<close>

section \<open>The structures of gpt.h\<close>

definition le_at :: "nat \<Rightarrow> nat \<Rightarrow> bytes \<Rightarrow> nat" where
  "le_at off n bs = le_val (take n (drop off bs))"

record gpt_header =
  signature :: u64
  revision :: u32
  header_size :: u32
  header_crc32 :: u32
  reserved1 :: u32
  my_lba :: u64
  alternate_lba :: u64
  first_usable_lba :: u64
  last_usable_lba :: u64
  disk_guid :: bytes
  partition_entry_lba :: u64
  num_partition_entries :: u32
  sizeof_partition_entry :: u32
  partition_entry_array_crc32 :: u32
  reserved2 :: bytes

definition gpt_header_of :: "bytes \<Rightarrow> gpt_header" where
  "gpt_header_of bs = \<lparr>signature = of_nat (le_at 0 8 bs), revision = of_nat (le_at 8 4 bs),
     header_size = of_nat (le_at 12 4 bs), header_crc32 = of_nat (le_at 16 4 bs), reserved1 = of_nat (le_at 20 4 bs),
     my_lba = of_nat (le_at 24 8 bs), alternate_lba = of_nat (le_at 32 8 bs),
     first_usable_lba = of_nat (le_at 40 8 bs), last_usable_lba = of_nat (le_at 48 8 bs),
     disk_guid = take 16 (drop 56 bs), partition_entry_lba = of_nat (le_at 72 8 bs),
     num_partition_entries = of_nat (le_at 80 4 bs), sizeof_partition_entry = of_nat (le_at 84 4 bs),
     partition_entry_array_crc32 = of_nat (le_at 88 4 bs), reserved2 = take 420 (drop 92 bs)\<rparr>"

definition gpt_header_bytes :: "gpt_header \<Rightarrow> bytes" where
  "gpt_header_bytes h =
     le_bytes 8 (unat (signature h)) @ le_bytes 4 (unat (revision h)) @ le_bytes 4 (unat (header_size h)) @
     le_bytes 4 (unat (header_crc32 h)) @ le_bytes 4 (unat (reserved1 h)) @ le_bytes 8 (unat (my_lba h)) @
     le_bytes 8 (unat (alternate_lba h)) @ le_bytes 8 (unat (first_usable_lba h)) @
     le_bytes 8 (unat (last_usable_lba h)) @ disk_guid h @ le_bytes 8 (unat (partition_entry_lba h)) @
     le_bytes 4 (unat (num_partition_entries h)) @ le_bytes 4 (unat (sizeof_partition_entry h)) @
     le_bytes 4 (unat (partition_entry_array_crc32 h)) @ reserved2 h"

text \<open>The two identifiers of an entry, at the start of the 128 bytes of a \<open>gpt_entry\<close>.\<close>

record gpt_entry =
  partition_type_guid :: bytes
  unique_partition_guid :: bytes

definition gpt_entry_of :: "bytes \<Rightarrow> gpt_entry" where
  "gpt_entry_of bs = \<lparr>partition_type_guid = take 16 bs, unique_partition_guid = take 16 (drop 16 bs)\<rparr>"

record partition_record =
  boot_indicator :: u8
  start_head :: u8
  start_sector :: u8
  start_track :: u8
  os_type :: u8
  end_head :: u8
  end_sector :: u8
  end_track :: u8
  starting_lba :: u32
  size_in_lba :: u32

definition partition_record_of :: "bytes \<Rightarrow> partition_record" where
  "partition_record_of bs = \<lparr>boot_indicator = bs ! 0, start_head = bs ! 1, start_sector = bs ! 2, start_track = bs ! 3,
     os_type = bs ! 4, end_head = bs ! 5, end_sector = bs ! 6, end_track = bs ! 7,
     starting_lba = of_nat (le_at 8 4 bs), size_in_lba = of_nat (le_at 12 4 bs)\<rparr>"

record legacy_mbr =
  bootcode :: bytes
  unique_mbr_signature :: u32
  mbr_unknown :: u16
  mbr_partition :: "partition_record list"
  mbr_signature :: u16

definition legacy_mbr_of :: "bytes \<Rightarrow> legacy_mbr" where
  "legacy_mbr_of bs = \<lparr>bootcode = take 440 bs, unique_mbr_signature = of_nat (le_at 440 4 bs),
     mbr_unknown = of_nat (le_at 444 2 bs),
     mbr_partition = map (\<lambda>i. partition_record_of (drop (446 + 16 * i) bs)) [0, 1, 2, 3],
     mbr_signature = of_nat (le_at 510 2 bs)\<rparr>"

definition GPT_HEADER_SIGNATURE :: u64 where
  "GPT_HEADER_SIGNATURE = 0x5452415020494645"

definition MSDOS_MBR_SIGNATURE :: u16 where
  "MSDOS_MBR_SIGNATURE = 0xaa55"

definition EFI_PMBR_OSTYPE_EFI_GPT :: u8 where
  "EFI_PMBR_OSTYPE_EFI_GPT = 0xEE"

section \<open>The kernel and the allocator\<close>

text \<open>
  What the calls of the code deliver for one descriptor: the ioctls (\<open>None\<close> when they fail), the release
  string of \<open>uname\<close>, \<open>S_ISBLK\<close> of \<open>fstat\<close>, whether \<open>lseek\<close> accepts an offset, the bytes \<open>read\<close> delivers at a
  position (\<open>None\<close> for -1), and the address \<open>malloc\<close> returns, 0 for \<open>NULL\<close>.
\<close>

record gpt_os =
  os_blksszget :: "u32 option"
  os_uname :: "string option"
  os_blkgetsize64 :: "u64 option"
  os_blkgetsize :: "u64 option"
  os_isblk :: "bool option"
  os_lseek :: "u64 \<Rightarrow> bool"
  os_read :: "u64 \<Rightarrow> u64 \<Rightarrow> bytes option"
  os_blkgetlastsect :: "u64 \<Rightarrow> bytes option"
  os_malloc :: "u64 \<Rightarrow> u64"

section \<open>Sizes and sectors\<close>

text \<open>\<open>memcmp\<close> of two identifiers; only whether it is zero is used.\<close>

definition efi_guidcmp :: "bytes \<Rightarrow> bytes \<Rightarrow> bool" where
  "efi_guidcmp left right = (left \<noteq> right)"

definition get_sector_size :: "gpt_os \<Rightarrow> u32" where
  "get_sector_size os = (case os_blksszget os of Some sector_size \<Rightarrow> sector_size | None \<Rightarrow> 512)"

definition is_pmbr_valid :: "legacy_mbr \<Rightarrow> bool" where
  "is_pmbr_valid mbr =
     (mbr_signature mbr = MSDOS_MBR_SIGNATURE \<and>
      list_ex (\<lambda>p. os_type p = EFI_PMBR_OSTYPE_EFI_GPT) (mbr_partition mbr))"

text \<open>The conversion \<open>%d\<close>: \<open>strtoimax\<close>, of which the low 32 bits are stored.\<close>

definition scan_int :: "string \<Rightarrow> (int \<times> string) option" where
  "scan_int s =
     (let (neg, t) = scan_sign (dropWhile is_space s); ds = takeWhile is_digit t;
          v = (if neg then max (- (2 ^ 63)) (- int (dec_val ds)) else min (2 ^ 63 - 1) (int (dec_val ds))) in
      if ds = [] then None else Some (sint (word_of_int v :: u32), dropWhile is_digit t))"

definition scan_dot :: "string \<Rightarrow> string option" where
  "scan_dot s = (case s of c # t \<Rightarrow> if c = CHR ''.'' then Some t else None | [] \<Rightarrow> None)"

text \<open>All three numbers of \<open>%d.%d.%d\<close>; \<open>None\<close> is \<open>parsed < 3\<close>.\<close>

definition scan_release :: "string \<Rightarrow> (int \<times> int \<times> int) option" where
  "scan_release s =
     do { (major, s) \<leftarrow> scan_int s; s \<leftarrow> scan_dot s;
          (minor, s) \<leftarrow> scan_int s; s \<leftarrow> scan_dot s;
          (patch, s) \<leftarrow> scan_int s; Some (major, minor, patch) }"

definition kernel_has_blkgetsize64 :: "gpt_os \<Rightarrow> bool" where
  "kernel_has_blkgetsize64 os =
     (case os_uname os of None \<Rightarrow> False
      | Some release \<Rightarrow>
         (case scan_release release of None \<Rightarrow> False
          | Some (major, minor, patch) \<Rightarrow>
              if major > 2 then True
              else if major = 2 \<and> minor > 5 then True
              else if major = 2 \<and> minor = 5 \<and> patch \<ge> 4 then True
              else if major = 2 \<and> minor = 4 \<and> patch \<ge> 18 then True
              else False))"

definition get_num_sectors :: "gpt_os \<Rightarrow> u64 option" where
  "get_num_sectors os =
     (let old = Some (case os_blkgetsize os of None \<Rightarrow> 0 | Some sectors \<Rightarrow> sectors) in
      if kernel_has_blkgetsize64 os then
        (case os_blkgetsize64 os of
           Some n \<Rightarrow> if get_sector_size os = 0 then None else Some (n div scast (get_sector_size os))
         | None \<Rightarrow> old)
      else old)"

definition last_lba :: "gpt_os \<Rightarrow> u64 option" where
  "last_lba os =
     (case os_isblk os of None \<Rightarrow> Some 0
      | Some True \<Rightarrow> map_option (\<lambda>sectors. sectors - 1) (get_num_sectors os)
      | Some False \<Rightarrow> Some (1 - 1))"

definition read_lastoddsector :: "gpt_os \<Rightarrow> bytes \<Rightarrow> u64 \<Rightarrow> u64 \<times> bytes" where
  "read_lastoddsector os buffer count =
     (case os_blkgetlastsect os count of
        None \<Rightarrow> (0, buffer)
      | Some contents \<Rightarrow> (1, contents @ drop (length contents) buffer))"

definition EINVAL :: u64 where
  "EINVAL = 22"

text \<open>
  The bounce buffer: where the aligned part of it starts, and that \<open>bytes\<close> bytes from there lie inside the
  allocation.
\<close>

definition bounce_start :: "u64 \<Rightarrow> u64 \<Rightarrow> u64" where
  "bounce_start unaligned sector_size = (unaligned + sector_size - 1) AND NOT (sector_size - 1)"

definition bounce_ok :: "u64 \<Rightarrow> u64 \<Rightarrow> u64 \<Rightarrow> bool" where
  "bounce_ok unaligned sector_size bytes =
     (unaligned \<noteq> 0 \<and> unaligned \<le> bounce_start unaligned sector_size \<and>
      unat (bounce_start unaligned sector_size) + unat bytes \<le> unat unaligned + unat (bytes + sector_size - 1))"

text \<open>The result, the buffer and the new position of the descriptor.\<close>

definition read_lba :: "gpt_os \<Rightarrow> u64 \<Rightarrow> bytes \<Rightarrow> u64 \<Rightarrow> u64 \<Rightarrow> (u64 \<times> bytes \<times> u64) option" where
  "read_lba os lba buffer bytes pos =
     (let sector_size = scast (get_sector_size os); offset = lba * sector_size in
      if sector_size = 0 then None
      else if bytes mod sector_size \<noteq> 0 then Some (EINVAL, buffer, pos)
      else if \<not> bounce_ok (os_malloc os (bytes + sector_size - 1)) sector_size bytes then None
      else
        (let pos = (if os_lseek os offset then offset else pos) in
         case os_read os pos bytes of None \<Rightarrow> None
         | Some data \<Rightarrow>
             (let buffer = data @ drop (length data) buffer; pos = pos + of_nat (length data) in
              if data \<noteq> [] then Some (of_nat (length data), buffer, pos)
              else do { lastlba \<leftarrow> last_lba os;
                        if \<not> bit lastlba 0 \<and> lba = lastlba
                        then (let (ret, buffer) = read_lastoddsector os buffer bytes in Some (ret, buffer, pos))
                        else Some (0, buffer, pos) })))"

section \<open>Headers and entries\<close>

text \<open>The number of bytes of the entry array: a product of 32-bit integers, widened afterwards.\<close>

definition entries_count :: "gpt_header \<Rightarrow> u64" where
  "entries_count gpt = ucast (num_partition_entries gpt * sizeof_partition_entry gpt)"

definition alloc_read_gpt_entries :: "gpt_os \<Rightarrow> gpt_header \<Rightarrow> u64 \<Rightarrow> (bytes option \<times> u64) option" where
  "alloc_read_gpt_entries os gpt pos =
     (let count = entries_count gpt in
      if count = 0 then Some (None, pos)
      else if os_malloc os count = 0 then Some (None, pos)
      else do { (ret, pte, pos) \<leftarrow> read_lba os (partition_entry_lba gpt) (replicate (unat count) 0) count pos;
                Some (if ret = 0 then None else Some pte, pos) })"

definition alloc_read_gpt_header :: "gpt_os \<Rightarrow> u64 \<Rightarrow> u64 \<Rightarrow> (gpt_header option \<times> u64) option" where
  "alloc_read_gpt_header os lba pos =
     (if os_malloc os 512 = 0 then Some (None, pos)
      else do { (ret, gpt, pos) \<leftarrow> read_lba os lba (replicate 512 0) 512 pos;
                Some (if ret = 0 then None else Some (gpt_header_of gpt), pos) })"

definition is_gpt_valid :: "gpt_os \<Rightarrow> u64 \<Rightarrow> u64 \<Rightarrow> ((gpt_header \<times> bytes) option \<times> u64) option" where
  "is_gpt_valid os lba pos =
     do { (gpt, pos) \<leftarrow> alloc_read_gpt_header os lba pos;
          case gpt of None \<Rightarrow> Some (None, pos)
          | Some gpt \<Rightarrow>
              if signature gpt \<noteq> GPT_HEADER_SIGNATURE then Some (None, pos)
              else do {
                crc \<leftarrow> efi_crc32 (gpt_header_bytes (gpt\<lparr>header_crc32 := 0\<rparr>)) (ucast (header_size gpt));
                if crc \<noteq> header_crc32 gpt then Some (None, pos)
                else if my_lba gpt \<noteq> lba then Some (None, pos)
                else do {
                  (ptes, pos) \<leftarrow> alloc_read_gpt_entries os gpt pos;
                  case ptes of None \<Rightarrow> Some (None, pos)
                  | Some ptes \<Rightarrow> do {
                      crc \<leftarrow> efi_crc32 ptes (entries_count gpt);
                      if crc \<noteq> partition_entry_array_crc32 gpt then Some (None, pos)
                      else Some (Some (gpt, ptes), pos) } } } }"

section \<open>The search\<close>

datatype gpt_message =
    Primary_lba_is_not_alternate_of_alternate u64 u64
  | Alternate_lba_is_not_alternate_of_primary u64 u64
  | First_usable_lbas_differ u64 u64
  | Last_usable_lbas_differ u64 u64
  | Disk_guids_differ
  | Num_partition_entries_differ u32 u32
  | Sizeof_partition_entry_differ u32 u32
  | Partition_entry_array_crc32_differ u32 u32
  | Alternate_not_at_end_for_primary u64 u64
  | Alternate_not_at_end u64 u64
  | Use_GNU_Parted
  | Invalid_PMBR
  | Alternate_invalid_using_primary
  | Primary_invalid_using_alternate
  | Partition_not_valid u32

definition gpt_discrepancies :: "gpt_header \<Rightarrow> gpt_header \<Rightarrow> u64 \<Rightarrow> gpt_message list" where
  "gpt_discrepancies pgpt agpt lastlba =
     (if my_lba pgpt \<noteq> alternate_lba agpt
      then [Primary_lba_is_not_alternate_of_alternate (my_lba pgpt) (alternate_lba agpt)] else []) @
     (if alternate_lba pgpt \<noteq> my_lba agpt
      then [Alternate_lba_is_not_alternate_of_primary (alternate_lba pgpt) (my_lba agpt)] else []) @
     (if first_usable_lba pgpt \<noteq> first_usable_lba agpt
      then [First_usable_lbas_differ (first_usable_lba pgpt) (first_usable_lba agpt)] else []) @
     (if last_usable_lba pgpt \<noteq> last_usable_lba agpt
      then [Last_usable_lbas_differ (last_usable_lba pgpt) (last_usable_lba agpt)] else []) @
     (if efi_guidcmp (disk_guid pgpt) (disk_guid agpt) then [Disk_guids_differ] else []) @
     (if num_partition_entries pgpt \<noteq> num_partition_entries agpt
      then [Num_partition_entries_differ (num_partition_entries pgpt) (num_partition_entries agpt)] else []) @
     (if sizeof_partition_entry pgpt \<noteq> sizeof_partition_entry agpt
      then [Sizeof_partition_entry_differ (sizeof_partition_entry pgpt) (sizeof_partition_entry agpt)] else []) @
     (if partition_entry_array_crc32 pgpt \<noteq> partition_entry_array_crc32 agpt
      then [Partition_entry_array_crc32_differ (partition_entry_array_crc32 pgpt) (partition_entry_array_crc32 agpt)]
      else []) @
     (if alternate_lba pgpt \<noteq> lastlba then [Alternate_not_at_end_for_primary (alternate_lba pgpt) lastlba] else []) @
     (if my_lba agpt \<noteq> lastlba then [Alternate_not_at_end (my_lba agpt) lastlba] else [])"

definition compare_gpts :: "gpt_header option \<Rightarrow> gpt_header option \<Rightarrow> u64 \<Rightarrow> gpt_message list" where
  "compare_gpts pgpt agpt lastlba =
     (case (pgpt, agpt) of
        (Some pgpt, Some agpt) \<Rightarrow>
          (let found = gpt_discrepancies pgpt agpt lastlba in
           if found \<noteq> [] then found @ [Use_GNU_Parted] else [])
      | _ \<Rightarrow> [])"

text \<open>The search for the alternate table.\<close>

definition find_alternate ::
  "gpt_os \<Rightarrow> (gpt_header \<times> bytes) option \<Rightarrow> u64 \<Rightarrow> u64 \<Rightarrow> ((gpt_header \<times> bytes) option \<times> u64) option" where
  "find_alternate os primary lastlba pos =
     (case primary of
        Some (pgpt, _) \<Rightarrow>
          do { (alternate, pos) \<leftarrow> is_gpt_valid os (alternate_lba pgpt) pos;
               if alternate = None then is_gpt_valid os lastlba pos else Some (alternate, pos) }
      | None \<Rightarrow> is_gpt_valid os lastlba pos)"

definition read_pmbr :: "gpt_os \<Rightarrow> u64 \<Rightarrow> (bool \<times> u64) option" where
  "read_pmbr os pos =
     (if os_malloc os 512 = 0 then Some (False, pos)
      else do { (ret, legacymbr, pos) \<leftarrow> read_lba os 0 (replicate 512 0) 512 pos;
                Some (is_pmbr_valid (legacy_mbr_of legacymbr), pos) })"

definition find_valid_gpt :: "gpt_os \<Rightarrow> u64 \<Rightarrow> ((gpt_header \<times> bytes) option \<times> gpt_message list \<times> u64) option" where
  "find_valid_gpt os pos =
     do { lastlba \<leftarrow> last_lba os;
          (primary, pos) \<leftarrow> is_gpt_valid os 1 pos;
          (alternate, pos) \<leftarrow> find_alternate os primary lastlba pos;
          if primary = None \<and> alternate = None then Some (None, [], pos)
          else do {
            (good_pmbr, pos) \<leftarrow> read_pmbr os pos;
            if \<not> good_pmbr then Some (None, [Invalid_PMBR], pos)
            else
              (let found = compare_gpts (map_option fst primary) (map_option fst alternate) lastlba in
               if primary \<noteq> None
               then Some (primary, found @ (if alternate = None then [Alternate_invalid_using_primary] else []), pos)
               else Some (alternate, found @ [Primary_invalid_using_alternate], pos)) } }"

section \<open>Partition information\<close>

definition hex_digit :: "nat \<Rightarrow> char" where
  "hex_digit d = ''0123456789abcdef'' ! d"

fun show_hex :: "nat \<Rightarrow> nat \<Rightarrow> string" where
  "show_hex 0 n = []"
| "show_hex (Suc k) n = show_hex k (n div 16) @ [hex_digit (n mod 16)]"

definition guid_to_ascii :: "bytes \<Rightarrow> string" where
  "guid_to_ascii guid =
     show_hex 8 (le_at 0 4 guid) @ show_hex 4 (le_at 4 2 guid) @ show_hex 4 (le_at 6 2 guid) @
     concat (map (\<lambda>b. show_hex 2 (unat b)) (take 8 (drop 8 guid)))"

text \<open>
  The outer \<open>None\<close> is a read outside the entries; the inner one is the result 1. \<open>ptes[num - 1]\<close> is a
  \<open>gpt_entry\<close> of 128 bytes, whatever the header says.
\<close>

definition gpt_disk_get_partition_info :: "gpt_os \<Rightarrow> u32 \<Rightarrow> u64 \<Rightarrow> (string \<times> string) option option" where
  "gpt_disk_get_partition_info os num pos =
     do { (found, messages, pos) \<leftarrow> find_valid_gpt os pos;
          case found of None \<Rightarrow> Some None
          | Some (gpt, ptes) \<Rightarrow>
              if num > 0 \<and> num \<le> num_partition_entries gpt then
                (let at = 128 * unat (num - 1); p = gpt_entry_of (take 32 (drop at ptes)) in
                 if length ptes < at + 32 then None
                 else Some (Some (guid_to_ascii (partition_type_guid p), guid_to_ascii (unique_partition_guid p))))
              else Some None }"

section \<open>A disk with 512-byte sectors\<close>

text \<open>
  The bytes of a disk that the kernel reports as a block device with 512-byte sectors: seeks up to its end
  succeed, reads deliver what there is, and allocations of moderate size succeed.
\<close>

definition stable_disk :: "gpt_os \<Rightarrow> bytes \<Rightarrow> bool" where
  "stable_disk os img \<longleftrightarrow>
     os_blksszget os = Some 512 \<and> os_isblk os = Some True \<and> kernel_has_blkgetsize64 os \<and>
     os_blkgetsize64 os = Some (of_nat (length img)) \<and> 512 dvd length img \<and> length img < 2 ^ 63 \<and>
     (\<forall>off. os_lseek os off \<longleftrightarrow> unat off \<le> length img) \<and>
     (\<forall>p n. unat p \<le> length img \<longrightarrow> os_read os p n = Some (take (unat n) (drop (unat p) img))) \<and>
     (\<forall>n. unat n < 2 ^ 40 \<longrightarrow> os_malloc os n \<noteq> 0 \<and> unat (os_malloc os n) + unat n < 2 ^ 64)"

definition seek_pos :: "bytes \<Rightarrow> u64 \<Rightarrow> nat \<Rightarrow> nat" where
  "seek_pos img lba p = (if unat (lba * 512) \<le> length img then unat (lba * 512) else p)"

definition pad_to :: "nat \<Rightarrow> bytes \<Rightarrow> bytes" where
  "pad_to n bs = take n bs @ replicate (n - length bs) 0"

lemma and_split: "(x AND y) + (x AND NOT y) = (x :: u64)"
proof -
  have "(x AND y) AND (x AND NOT y) = 0" by (intro bit_eqI) (simp add: bit_simps)
  then have "(x AND y) + (x AND NOT y) = (x AND y) OR (x AND NOT y)" by (rule disjunctive_add_eq_or)
  also have "\<dots> = x" by (intro bit_eqI) (auto simp: bit_simps)
  finally show ?thesis .
qed

lemma unat_high_part: "unat ((x :: u64) AND - 512) = unat x - unat x mod 512"
proof -
  have low: "unat (x AND 511) = unat x mod 512"
    using take_bit_eq_mod [of 9 "unat x"] unsigned_take_bit_eq [of 9 x, where ?'a = nat]
    by (simp add: take_bit_eq_mask [of 9 x] mask_eq_exp_minus_1)
  have "(x AND 511) + (x AND NOT 511) = x" by (rule and_split)
  then have "x AND - 512 = x - (x AND 511)" by (simp add: eq_diff_eq add.commute)
  moreover have "x AND 511 \<le> x" by (rule word_and_le2)
  ultimately show ?thesis by (simp add: unat_sub low)
qed

lemma bounce_512:
  assumes "u \<noteq> 0" "unat u + unat (n + 511) < 2 ^ 64" "unat n < 2 ^ 40"
  shows "bounce_ok u 512 n"
proof -
  have n: "unat (n + 511) = unat n + 511" using assms(3) by (simp add: word_nat)
  then have x: "unat (u + 511) = unat u + 511" using assms(2) by (simp add: word_nat)
  have "unat (u + 511) mod 512 \<le> 511" by simp
  then have "unat u \<le> unat (u + 511) - unat (u + 511) mod 512"
    "unat (u + 511) - unat (u + 511) mod 512 + unat n \<le> unat u + (unat n + 511)"
    using x by linarith+
  then show ?thesis using assms(1) n
    by (simp add: bounce_ok_def bounce_start_def word_le_nat_alt unat_high_part add_diff_eq [symmetric])
qed

lemma stable_diskD:
  assumes "stable_disk os img"
  shows "get_sector_size os = 512" "last_lba os = Some (of_nat (length img) div 512 - 1)"
    "os_lseek os off \<longleftrightarrow> unat off \<le> length img"
    "unat p \<le> length img \<Longrightarrow> os_read os p n = Some (take (unat n) (drop (unat p) img))"
    "unat n < 2 ^ 40 \<Longrightarrow> os_malloc os n \<noteq> 0"
    "512 dvd length img" "length img < 2 ^ 63"
  using assms by (simp_all add: stable_disk_def get_sector_size_def last_lba_def get_num_sectors_def)

lemma stable_bounce: "stable_disk os img \<Longrightarrow> unat n < 2 ^ 39 \<Longrightarrow> bounce_ok (os_malloc os (n + 511)) 512 n"
proof -
  assume os: "stable_disk os img" and n: "unat n < 2 ^ 39"
  have "unat (n + 511) < 2 ^ 40" using n by (simp add: word_nat)
  then have "os_malloc os (n + 511) \<noteq> 0 \<and> unat (os_malloc os (n + 511)) + unat (n + 511) < 2 ^ 64"
    using os unfolding stable_disk_def by blast
  then show ?thesis using n by (intro bounce_512) simp_all
qed

lemma last_sector:
  assumes "512 dvd m" "m < 2 ^ 63" "m \<noteq> 0"
  shows "unat ((of_nat m div 512 - 1) * 512 :: u64) = m - 512" "unat (of_nat m div 512 - 1 :: u64) = m div 512 - 1"
proof -
  obtain k where k: "m = 512 * k" using assms(1) by (elim dvdE)
  then have *: "unat (of_nat m div 512 :: u64) = k" "0 < k" using assms by (simp_all add: word_nat)
  then show **: "unat (of_nat m div 512 - 1 :: u64) = m div 512 - 1"
    using k by (simp add: word_nat)
  show "unat ((of_nat m div 512 - 1) * 512 :: u64) = m - 512"
    using assms k * ** by (subst unat_mult_nowrap) simp_all
qed

lemma read_lba_stable:
  assumes os: "stable_disk os img" and n: "unat n < 2 ^ 39" "unat n mod 512 = 0" "n \<noteq> 0"
    and pos: "unat pos \<le> length img"
    and q: "q = seek_pos img lba (unat pos)" and d: "d = take (unat n) (drop q img)"
  shows "read_lba os lba buf n pos = Some (of_nat (length d), d @ drop (length d) buf, of_nat (q + length d))"
proof -
  note D = stable_diskD [OF os]
  define at where "at = (if os_lseek os (lba * 512) then lba * 512 else pos)"
  have at: "unat at = q" "q \<le> length img" using q pos by (auto simp: at_def seek_pos_def D(3))
  have rd: "os_read os at n = Some d" using D(4) at d by simp
  have kludge: "\<not> (\<not> bit e 0 \<and> lba = e)" if "d = []" "last_lba os = Some e" for e
  proof
    assume e: "\<not> bit e 0 \<and> lba = e"
    have fin: "q = length img" using that(1) d n(3) at(2) by (simp add: unat_eq_zero)
    show False
    proof (cases "length img = 0")
      case True
      then have "e = - 1" using that(2) D(2) by simp
      then show False using e by simp
    next
      case False
      then have "unat (lba * 512) = length img - 512" using last_sector(1) D that(2) e by simp
      then have "q = length img - 512" using q by (simp add: seek_pos_def)
      then show False using fin False D(6) by (auto dest: dvd_imp_le)
    qed
  qed
  have "n mod 512 = 0" using n(2) by (simp add: word_unat_eq_iff unat_mod)
  then have "read_lba os lba buf n pos =
      (let buffer = d @ drop (length d) buf; pos = at + of_nat (length d) in
       if d \<noteq> [] then Some (of_nat (length d), buffer, pos)
       else do { lastlba \<leftarrow> last_lba os;
                 if \<not> bit lastlba 0 \<and> lba = lastlba
                 then (let (ret, buffer) = read_lastoddsector os buffer n in Some (ret, buffer, pos))
                 else Some (0, buffer, pos) })"
    using rd stable_bounce [OF os n(1)]
    by (simp add: read_lba_def D(1) at_def [symmetric] Let_def add_diff_eq [symmetric])
  moreover have "at + of_nat (length d) = of_nat (q + length d)" unfolding at(1) [symmetric] by simp
  ultimately show ?thesis using kludge [OF _ D(2)] by (cases "d = []") (auto simp: Let_def D(2))
qed

section \<open>The layout of a header\<close>

lemma le_bytes_le_val [simp]: "length xs = n \<Longrightarrow> le_bytes n (le_val xs) = xs"
proof (induction xs arbitrary: n)
  case (Cons x xs)
  have "unat x < 256" by (rule unat_less_8)
  then have "(unat x + 256 * le_val xs) mod 256 = unat x" "(unat x + 256 * le_val xs) div 256 = le_val xs" by simp_all
  then show ?case using Cons by auto
qed simp

lemma le_at_small: "le_at off n bs < 256 ^ n"
  unfolding le_at_def by (rule less_le_trans [OF le_val_less]) (rule power_increasing, simp_all)

lemma unat_le_at [simp]:
  "unat (of_nat (le_at off 8 bs) :: u64) = le_at off 8 bs" "unat (of_nat (le_at off 4 bs) :: u32) = le_at off 4 bs"
  using le_at_small [of off 8 bs] le_at_small [of off 4 bs] by (simp_all add: unat_of_nat_small)

lemma le_bytes_le_at: "off + n \<le> length bs \<Longrightarrow> le_bytes n (le_at off n bs) = take n (drop off bs)"
  by (simp add: le_at_def)

lemma take_drop_join: "take n (drop i s) @ drop (i + n) s = drop i s"
  by (metis add.commute append_take_drop_id drop_drop)

lemmas header_join =
  take_drop_join [of 420 92, simplified] take_drop_join [of 4 88, simplified] take_drop_join [of 4 84, simplified]
  take_drop_join [of 4 80, simplified] take_drop_join [of 8 72, simplified] take_drop_join [of 16 56, simplified]
  take_drop_join [of 8 48, simplified] take_drop_join [of 8 40, simplified] take_drop_join [of 8 32, simplified]
  take_drop_join [of 8 24, simplified] take_drop_join [of 4 20, simplified] take_drop_join [of 4 16, simplified]
  take_drop_join [of 4 12, simplified] take_drop_join [of 4 8, simplified] take_drop_join [of 8 0, simplified]

lemma gpt_header_bytes_of: "length s = 512 \<Longrightarrow> gpt_header_bytes (gpt_header_of s) = s"
  by (simp add: gpt_header_bytes_def gpt_header_of_def le_bytes_le_at header_join)

lemma gpt_header_bytes_cleared:
  "length s = 512 \<Longrightarrow> gpt_header_bytes ((gpt_header_of s)\<lparr>header_crc32 := 0\<rparr>) = take 16 s @ le_bytes 4 0 @ drop 20 s"
proof -
  have "gpt_header_bytes (h\<lparr>header_crc32 := 0\<rparr>) = take 16 (gpt_header_bytes h) @ le_bytes 4 0 @ drop 20 (gpt_header_bytes h)" for h
    by (simp add: gpt_header_bytes_def)
  moreover assume "length s = 512"
  ultimately show ?thesis by (simp add: gpt_header_bytes_of)
qed

lemma le_bytes_4_0 [simp]: "le_bytes 4 0 = [0, 0, 0, 0]"
proof -
  have "le_bytes (Suc (Suc (Suc (Suc 0)))) 0 = [0, 0, 0, 0]" by simp
  moreover have "Suc (Suc (Suc (Suc 0))) = 4" by simp
  ultimately show ?thesis by (simp only:)
qed

section \<open>What is on the disk\<close>

definition crc32 :: "bytes \<Rightarrow> u32" where
  "crc32 bs = foldl crc_byte 0xffffffff bs XOR 0xffffffff"

lemma efi_crc32_ref: "efi_crc32 buf len = (if unat len \<le> length buf then Some (crc32 (take (unat len) buf)) else None)"
  by (simp add: efi_crc32_def gptcrc32_def crc_loop_ref crc32_def)

definition disk_entries :: "bytes \<Rightarrow> gpt_header \<Rightarrow> nat \<Rightarrow> bytes option" where
  "disk_entries img h p =
     (let n = unat (entries_count h); d = take n (drop (seek_pos img (partition_entry_lba h) p) img) in
      if n = 0 then None
      else if n mod 512 \<noteq> 0 then Some (replicate n 0)
      else if d = [] then None else Some (d @ replicate (n - length d) 0))"

definition header_ok :: "bytes \<Rightarrow> u64 \<Rightarrow> bool" where
  "header_ok s lba =
     (let h = gpt_header_of s in
      signature h = GPT_HEADER_SIGNATURE \<and>
      crc32 (take (unat (header_size h)) (take 16 s @ [0, 0, 0, 0] @ drop 20 s)) = header_crc32 h \<and>
      my_lba h = lba)"

text \<open>The table whose header lies at byte \<open>q\<close> and names \<open>lba\<close> as its place.\<close>

definition table_at :: "bytes \<Rightarrow> nat \<Rightarrow> u64 \<Rightarrow> (gpt_header \<times> bytes) option" where
  "table_at img q lba =
     (let s = take 512 (drop q img); h = gpt_header_of s in
      if s \<noteq> [] \<and> header_ok s lba then
        (case disk_entries img h (q + 512) of
           None \<Rightarrow> None
         | Some e \<Rightarrow> if crc32 e = partition_entry_array_crc32 h then Some (h, e) else None)
      else None)"

definition header_sane :: "bytes \<Rightarrow> bool" where
  "header_sane s = (signature (gpt_header_of s) = GPT_HEADER_SIGNATURE \<longrightarrow> header_size (gpt_header_of s) \<le> 512)"

definition sector_pos :: "bytes \<Rightarrow> u64 \<Rightarrow> bool" where
  "sector_pos img pos = (512 dvd unat pos \<and> unat pos \<le> length img)"

lemma seek_pos_sector:
  assumes "sector_pos img pos"
  shows "512 dvd seek_pos img lba (unat pos)" "seek_pos img lba (unat pos) \<le> length img"
proof -
  have "512 dvd unat (lba * 512)" by (simp add: unat_word_ariths dvd_mod)
  then show "512 dvd seek_pos img lba (unat pos)" "seek_pos img lba (unat pos) \<le> length img"
    using assms by (auto simp: seek_pos_def sector_pos_def)
qed

lemma alloc_read_gpt_header_stable:
  assumes os: "stable_disk os img" and pos: "sector_pos img pos"
    and q: "q = seek_pos img lba (unat pos)" and s: "s = take 512 (drop q img)"
  shows "\<exists>pos'. alloc_read_gpt_header os lba pos = Some (if s = [] then None else Some (gpt_header_of s), pos') \<and>
           unat pos' = q + length s \<and> (s = [] \<or> length s = 512)"
proof -
  note D = stable_diskD [OF os] and Q = seek_pos_sector [OF pos, of lba, folded q]
  obtain k l where kl: "q = 512 * k" "length img = 512 * l" using Q(1) D(6) by (elim dvdE)
  have full: "s = [] \<or> length s = 512"
  proof (cases "k < l")
    case True
    then have "512 * k + 512 \<le> 512 * l" by simp
    then show ?thesis using kl by (simp add: s)
  qed (use kl in \<open>simp add: s\<close>)
  have "q + length s \<le> length img" using Q(2) by (simp add: s)
  then have "unat (of_nat (q + length s) :: u64) = q + length s" using D(7) by (simp add: unat_of_nat_small del: of_nat_add)
  moreover have "read_lba os lba (replicate 512 0) 512 pos = Some (of_nat (length s), s @ drop (length s) (replicate 512 0), of_nat (q + length s))"
    using pos by (intro read_lba_stable [OF os]) (simp_all add: q s sector_pos_def)
  moreover have "os_malloc os 512 \<noteq> 0" by (rule D(5)) simp
  ultimately show ?thesis using full by (auto simp: alloc_read_gpt_header_def simp del: of_nat_add)
qed

lemma alloc_read_gpt_entries_stable:
  assumes os: "stable_disk os img" and pos: "sector_pos img pos"
  shows "\<exists>pos'. alloc_read_gpt_entries os h pos = Some (disk_entries img h (unat pos), pos') \<and> sector_pos img pos'"
proof -
  note D = stable_diskD [OF os] and Q = seek_pos_sector [OF pos, of "partition_entry_lba h"]
  define n where "n = entries_count h"
  define q where "q = seek_pos img (partition_entry_lba h) (unat pos)"
  define d where "d = take (unat n) (drop q img)"
  have n: "unat n < 2 ^ 32" using unat_less_32 [of "num_partition_entries h * sizeof_partition_entry h"]
    by (simp add: n_def entries_count_def)
  then have m: "os_malloc os n \<noteq> 0" by (intro D(5)) simp
  consider "n = 0" | "n \<noteq> 0" "unat n mod 512 \<noteq> 0" | "n \<noteq> 0" "unat n mod 512 = 0" by blast
  then show ?thesis
  proof cases
    case 1
    then show ?thesis using pos by (simp add: alloc_read_gpt_entries_def disk_entries_def n_def Let_def)
  next
    case 2
    then have "n mod 512 \<noteq> 0" by (simp add: word_unat_eq_iff unat_mod)
    then show ?thesis using 2 pos m
      by (simp add: alloc_read_gpt_entries_def disk_entries_def n_def [symmetric] Let_def read_lba_def D(1) EINVAL_def unat_eq_zero)
  next
    case 3
    have len: "q + length d \<le> length img" using Q(2) by (simp add: d_def q_def)
    then have u: "unat (of_nat (q + length d) :: u64) = q + length d" using D(7) by (simp add: unat_of_nat_small del: of_nat_add)
    have "512 dvd length d" using 3(2) Q(1) D(6) by (simp add: d_def q_def min_def mod_eq_0_iff_dvd dvd_diff_nat)
    then have "sector_pos img (of_nat (q + length d))" using u len Q(1) by (simp add: sector_pos_def q_def del: of_nat_add)
    moreover have "(of_nat (length d) :: u64) = 0 \<longleftrightarrow> d = []"
      using len D(7) by (auto simp: word_unat_eq_iff unat_of_nat_small)
    moreover have "read_lba os (partition_entry_lba h) (replicate (unat n) 0) n pos =
        Some (of_nat (length d), d @ drop (length d) (replicate (unat n) 0), of_nat (q + length d))"
      using 3 n pos by (intro read_lba_stable [OF os]) (simp_all add: q_def d_def sector_pos_def)
    ultimately show ?thesis using 3 m
      by (simp add: alloc_read_gpt_entries_def disk_entries_def n_def [symmetric] q_def [symmetric] d_def [symmetric] Let_def
          unat_eq_zero del: of_nat_add)
  qed
qed

lemma length_disk_entries: "disk_entries img h p = Some e \<Longrightarrow> length e = unat (entries_count h)"
  by (auto simp: disk_entries_def Let_def split: if_splits)

lemma is_gpt_valid_stable:
  assumes os: "stable_disk os img" and pos: "sector_pos img pos"
    and q: "q = seek_pos img lba (unat pos)" and sane: "header_sane (take 512 (drop q img))"
  shows "\<exists>pos'. is_gpt_valid os lba pos = Some (table_at img q lba, pos') \<and> sector_pos img pos'"
proof -
  define s where "s = take 512 (drop q img)"
  obtain pos1 where rd: "alloc_read_gpt_header os lba pos = Some (if s = [] then None else Some (gpt_header_of s), pos1)"
    and p1: "unat pos1 = q + length s" and full: "s = [] \<or> length s = 512"
    using alloc_read_gpt_header_stable [OF os pos q s_def] by blast
  have sec: "sector_pos img pos1"
    using p1 full seek_pos_sector [OF pos, of lba] q by (auto simp: sector_pos_def s_def)
  show ?thesis
  proof (cases "s \<noteq> [] \<and> signature (gpt_header_of s) = GPT_HEADER_SIGNATURE")
    case False
    then show ?thesis using rd sec
      by (auto simp: is_gpt_valid_def table_at_def header_ok_def s_def [symmetric] Let_def)
  next
    case True
    let ?h = "gpt_header_of s"
    have len: "length s = 512" "unat pos1 = q + 512" using True full p1 by auto
    have "unat (header_size ?h) \<le> 512" using sane True by (simp add: header_sane_def s_def word_le_nat_alt)
    then have crc: "efi_crc32 (gpt_header_bytes (?h\<lparr>header_crc32 := 0\<rparr>)) (ucast (header_size ?h)) =
        Some (crc32 (take (unat (header_size ?h)) (take 16 s @ [0, 0, 0, 0] @ drop 20 s)))"
      using len by (simp only: efi_crc32_ref gpt_header_bytes_cleared le_bytes_4_0 unat_ucast_up) simp
    obtain pos2 where ent: "alloc_read_gpt_entries os ?h pos1 = Some (disk_entries img ?h (q + 512), pos2)"
      and sec2: "sector_pos img pos2" using alloc_read_gpt_entries_stable [OF os sec, of ?h] len by auto
    have "efi_crc32 e (entries_count ?h) = Some (crc32 e)" if "disk_entries img ?h (q + 512) = Some e" for e
      using length_disk_entries [OF that] by (simp add: efi_crc32_ref)
    then show ?thesis using True rd crc ent sec sec2
      by (auto simp: is_gpt_valid_def table_at_def header_ok_def s_def [symmetric] Let_def simp del: take_append split: option.splits)
  qed
qed

definition disk_sane :: "bytes \<Rightarrow> bool" where
  "disk_sane img = (\<forall>k. header_sane (take 512 (drop (512 * k) img)))"

definition find_table :: "bytes \<Rightarrow> (gpt_header \<times> bytes) option" where
  "find_table img =
     (if is_pmbr_valid (legacy_mbr_of (take 512 img)) then
        (case table_at img 512 1 of
           Some t \<Rightarrow> Some t
         | None \<Rightarrow> table_at img (length img - 512) (of_nat (length img div 512 - 1)))
      else None)"

lemma disk_saneD: "disk_sane img \<Longrightarrow> 512 dvd q \<Longrightarrow> header_sane (take 512 (drop q img))"
  by (auto simp: disk_sane_def elim!: dvdE)

lemmas is_gpt_valid_sane =
  is_gpt_valid_stable [OF _ _ refl disk_saneD [OF _ seek_pos_sector(1)]]

lemma find_valid_gpt_stable:
  assumes os: "stable_disk os img" and sane: "disk_sane img" and big: "1024 \<le> length img" and pos: "sector_pos img pos"
  shows "\<exists>messages pos'. find_valid_gpt os pos = Some (find_table img, messages, pos')"
proof -
  note D = stable_diskD [OF os]
  define e :: u64 where "e = of_nat (length img) div 512 - 1"
  have "length img \<noteq> 0" using big by auto
  note last = last_sector [OF D(6, 7) this, folded e_def]
  have "of_nat (unat e) = e" by simp
  then have e: "unat (e * 512) = length img - 512" "of_nat (length img div 512 - 1) = e"
    using last(1) unfolding last(2) by simp_all
  obtain pos1 where v1: "is_gpt_valid os 1 pos = Some (table_at img 512 1, pos1)" "sector_pos img pos1"
    using is_gpt_valid_sane [OF os pos sane pos, of 1] big by (auto simp: seek_pos_def)
  have vl: "\<exists>pos'. is_gpt_valid os e p = Some (table_at img (length img - 512) e, pos') \<and> sector_pos img pos'"
    if "sector_pos img p" for p
    using is_gpt_valid_sane [OF os that sane that, of e] e by (simp add: seek_pos_def)
  have va: "\<exists>r pos'. is_gpt_valid os l p = Some (r, pos') \<and> sector_pos img pos'"
    if "sector_pos img p" for p l
    using is_gpt_valid_sane [OF os that sane that, of l] by auto
  obtain alternate pos2 where alt: "find_alternate os (table_at img 512 1) e pos1 = Some (alternate, pos2)"
      "sector_pos img pos2" "table_at img 512 1 = None \<Longrightarrow> alternate = table_at img (length img - 512) e"
  proof (cases "table_at img 512 1")
    case None
    then show thesis using that vl [OF v1(2)] by (auto simp: find_alternate_def)
  next
    case (Some t)
    obtain r p where r: "is_gpt_valid os (alternate_lba (fst t)) pos1 = Some (r, p)" "sector_pos img p"
      using va [OF v1(2)] by blast
    show thesis
    proof (cases r)
      case None
      then show ?thesis using that r Some vl [OF r(2)] by (cases t) (auto simp: find_alternate_def)
    next
      case (Some t')
      then show ?thesis using that r \<open>table_at img 512 1 = Some t\<close> by (cases t) (auto simp: find_alternate_def)
    qed
  qed
  have "read_lba os 0 (replicate 512 0) 512 pos2 =
      Some (of_nat (length (take 512 img)), take 512 img @ drop (length (take 512 img)) (replicate 512 0),
            of_nat (0 + length (take 512 img)))"
    using alt(2) by (intro read_lba_stable [OF os]) (simp_all add: seek_pos_def sector_pos_def)
  moreover have "os_malloc os 512 \<noteq> 0" by (rule D(5)) simp
  ultimately obtain pos3 where pmbr: "read_pmbr os pos2 = Some (is_pmbr_valid (legacy_mbr_of (take 512 img)), pos3)"
    using big by (simp add: read_pmbr_def)
  show ?thesis using D(2) v1 alt pmbr e(2)
    by (auto simp: find_valid_gpt_def find_table_def e_def [symmetric] Let_def split: option.splits)
qed

section \<open>A concrete disk\<close>

text \<open>The kernel's view of any image of whole sectors.\<close>

definition os_of_disk :: "bytes \<Rightarrow> gpt_os" where
  "os_of_disk img = \<lparr>os_blksszget = Some 512, os_uname = Some ''5.15.41'', os_blkgetsize64 = Some (of_nat (length img)),
     os_blkgetsize = None, os_isblk = Some True, os_lseek = (\<lambda>off. unat off \<le> length img),
     os_read = (\<lambda>p n. Some (take (unat n) (drop (unat p) img))), os_blkgetlastsect = (\<lambda>_. None), os_malloc = (\<lambda>_. 4096)\<rparr>"

lemma release_5_15: "scan_release ''5.15.41'' = Some (5, 15, 41)"
  by code_simp

lemma os_of_disk_stable: "512 dvd length img \<Longrightarrow> length img < 2 ^ 63 \<Longrightarrow> stable_disk (os_of_disk img) img"
  by (simp add: stable_disk_def os_of_disk_def kernel_has_blkgetsize64_def release_5_15)

definition demo_header :: gpt_header where
  "demo_header = \<lparr>signature = GPT_HEADER_SIGNATURE, revision = 0x00010000, header_size = 0, header_crc32 = 0,
     reserved1 = 0, my_lba = 1, alternate_lba = 2, first_usable_lba = 3, last_usable_lba = 3,
     disk_guid = replicate 16 7, partition_entry_lba = 2, num_partition_entries = 4, sizeof_partition_entry = 128,
     partition_entry_array_crc32 = 0xffffffff, reserved2 = replicate 420 0\<rparr>"

definition demo_entries :: bytes where
  "demo_entries = [0xff, 0xff, 0xff, 0xff] @ replicate 508 0"

definition demo_disk :: "gpt_header \<Rightarrow> bytes" where
  "demo_disk h = replicate 450 0 @ [0xEE] @ replicate 59 0 @ [0x55, 0xAA] @ gpt_header_bytes h @ demo_entries"

lemma gpt_header_of_bytes:
  "length (disk_guid h) = 16 \<Longrightarrow> length (reserved2 h) = 420 \<Longrightarrow> gpt_header_of (gpt_header_bytes h) = h"
  by (simp add: gpt_header_of_def gpt_header_bytes_def le_at_def)

lemma length_gpt_header_bytes:
  "length (disk_guid h) = 16 \<Longrightarrow> length (reserved2 h) = 420 \<Longrightarrow> length (gpt_header_bytes h) = 512"
  by (simp add: gpt_header_bytes_def)

lemma demo_sectors:
  assumes "length (gpt_header_bytes h) = 512"
  shows "length (demo_disk h) = 1536"
    "take 512 (demo_disk h) = replicate 450 0 @ [0xEE] @ replicate 59 0 @ [0x55, 0xAA]"
    "take 512 (drop 512 (demo_disk h)) = gpt_header_bytes h" "drop 1024 (demo_disk h) = demo_entries"
  using assms by (simp_all add: demo_disk_def demo_entries_def)

lemma crc_byte_zeros: "foldl crc_byte 0 (replicate n 0) = 0"
  by (induction n) (simp_all add: crc_byte_def)

lemma crc32_demo: "crc32 [] = 0" "crc32 demo_entries = 0xffffffff"
proof -
  have "foldl crc_byte 0xffffffff [255, 255, 255, 255] = 0"
    by (subst crc_burst) simp_all
  then show "crc32 demo_entries = 0xffffffff"
    by (simp only: crc32_def demo_entries_def crc_byte_zeros foldl_append) simp
qed (simp add: crc32_def)

lemma demo_pmbr: "is_pmbr_valid (legacy_mbr_of (replicate 450 0 @ [0xEE] @ replicate 59 0 @ [0x55, 0xAA]))"
  by (simp add: is_pmbr_valid_def legacy_mbr_of_def partition_record_of_def le_at_def MSDOS_MBR_SIGNATURE_def
      EFI_PMBR_OSTYPE_EFI_GPT_def nth_append)

lemma demo_stable: "length (gpt_header_bytes h) = 512 \<Longrightarrow> stable_disk (os_of_disk (demo_disk h)) (demo_disk h)"
  by (rule os_of_disk_stable) (simp_all add: demo_sectors)

lemma le_val_zeros [simp]: "le_val (replicate n 0) = 0"
  by (induction n) simp_all

lemma demo_sane:
  assumes "length (gpt_header_bytes h) = 512" "header_sane (gpt_header_bytes h)"
  shows "disk_sane (demo_disk h)"
  unfolding disk_sane_def
proof
  fix k :: nat
  consider "k = 0" | "k = 1" | "k = 2" | "3 \<le> k" by linarith
  then show "header_sane (take 512 (drop (512 * k) (demo_disk h)))"
  proof cases
    case 1
    then show ?thesis using demo_sectors(2) [OF assms(1)]
      by (simp add: header_sane_def gpt_header_of_def le_at_def GPT_HEADER_SIGNATURE_def)
  next
    case 2
    then show ?thesis using demo_sectors(3) [OF assms(1)] assms(2) by simp
  next
    case 3
    then show ?thesis using demo_sectors(4) [OF assms(1)]
      by (simp add: header_sane_def gpt_header_of_def le_at_def GPT_HEADER_SIGNATURE_def demo_entries_def)
  next
    case 4
    then show ?thesis using demo_sectors(1) [OF assms(1)]
      by (simp add: header_sane_def gpt_header_of_def le_at_def GPT_HEADER_SIGNATURE_def)
  qed
qed

lemma demo_table:
  assumes "length (disk_guid h) = 16" "length (reserved2 h) = 420" "signature h = GPT_HEADER_SIGNATURE"
    "header_size h = 0" "header_crc32 h = 0" "my_lba h = 1" "partition_entry_lba h = 2"
    "num_partition_entries h * sizeof_partition_entry h = 512" "partition_entry_array_crc32 h = 0xffffffff"
  shows "find_table (demo_disk h) = Some (h, demo_entries)"
proof -
  note len = length_gpt_header_bytes [OF assms(1, 2)]
  note S = demo_sectors [OF len]
  have "drop (seek_pos (demo_disk h) 2 1024) (demo_disk h) = demo_entries" using S by (simp add: seek_pos_def)
  then have "disk_entries (demo_disk h) h 1024 = Some demo_entries"
    using assms by (simp add: disk_entries_def entries_count_def) (simp add: demo_entries_def)
  then have "table_at (demo_disk h) 512 1 = Some (h, demo_entries)"
    using assms S len by (auto simp: table_at_def header_ok_def gpt_header_of_bytes crc32_demo Let_def)
  then show ?thesis using S demo_pmbr by (simp add: find_table_def)
qed

section \<open>Identifiers as text\<close>

lemma hex_digit_inject: "a < 16 \<Longrightarrow> b < 16 \<Longrightarrow> hex_digit a = hex_digit b \<longleftrightarrow> a = b"
  unfolding hex_digit_def by (rule nth_eq_iff_index_eq) simp_all

lemma length_show_hex [simp]: "length (show_hex k n) = k"
  by (induction k arbitrary: n) simp_all

lemma show_hex_inject: "a < 16 ^ k \<Longrightarrow> b < 16 ^ k \<Longrightarrow> show_hex k a = show_hex k b \<longleftrightarrow> a = b"
proof (induction k arbitrary: a b)
  case (Suc k)
  have "a div 16 < 16 ^ k" "b div 16 < 16 ^ k" using Suc.prems by (simp_all add: div_less_iff_less_mult mult.commute)
  then have "show_hex (Suc k) a = show_hex (Suc k) b \<longleftrightarrow> a div 16 = b div 16 \<and> a mod 16 = b mod 16"
    using Suc.IH by (simp add: hex_digit_inject)
  then show ?case by (metis div_mult_mod_eq)
qed simp

lemma show_hex_bytes_inject:
  "length xs = length ys \<Longrightarrow>
   concat (map (\<lambda>b. show_hex 2 (unat b)) xs) = concat (map (\<lambda>b. show_hex 2 (unat b)) ys) \<longleftrightarrow> xs = (ys :: bytes)"
proof (induction xs ys rule: list_induct2)
  case (Cons x xs y ys)
  have "show_hex 2 (unat x) = show_hex 2 (unat y) \<longleftrightarrow> x = y"
    using unat_less_8 [of x] unat_less_8 [of y] by (simp add: show_hex_inject word_unat_eq_iff)
  then show ?case using Cons by (simp add: append_eq_append_conv)
qed simp

section \<open>Properties\<close>

text \<open>Widening an \<open>int\<close> that is not negative.\<close>

lemma unat_scast_small: "unat (w :: u32) < 2 ^ 31 \<Longrightarrow> unat (scast w :: u64) = unat w"
proof -
  assume "unat w < 2 ^ 31"
  then have "int (unat w) < int (2 ^ 31)" by (simp only: of_nat_less_iff)
  then have small: "uint w < 2 ^ 31" "- (2 ^ 31) \<le> uint w"
    using order_trans [of "- (2 ^ 31)" 0 "uint w"] by simp_all
  have "sint w = signed_take_bit 31 (uint w)" by (simp add: sint_uint)
  also have "\<dots> = uint w" by (rule signed_take_bit_int_eq_self [OF small(2, 1)])
  finally have "(scast w :: u64) = ucast w" by (simp only: scast_eq ucast_eq)
  then show ?thesis by simp
qed

lemma table_at_entries:
  assumes "table_at img q lba = Some (h, e)"
  shows "length e = unat (entries_count h) \<and> entries_count h \<noteq> 0"
proof -
  have "disk_entries img h (q + 512) = Some e"
    using assms unfolding table_at_def Let_def by (auto split: if_splits option.splits)
  then show ?thesis by (auto simp: disk_entries_def Let_def split: if_splits)
qed

lemma find_table_entries:
  "find_table img = Some (h, e) \<Longrightarrow> length e = unat (entries_count h) \<and> entries_count h \<noteq> 0"
  by (auto simp: find_table_def dest: table_at_entries split: if_splits option.splits)

text \<open>C13. On a disk with 512-byte sectors whose headers keep within one sector, the search finds exactly the table the
  bytes of the disk contain: nothing without a protective MBR, else the primary table behind the first
  sector if its signature, its checksum, its own address and the checksum of its entries are right, else
  the table in the last sector under the same conditions.
\<close>

theorem find_valid_gpt_refines:
  assumes "stable_disk os img" "disk_sane img" "1024 \<le> length img"
  shows "\<exists>messages pos'. find_valid_gpt os 0 = Some (find_table img, messages, pos')"
  using find_valid_gpt_stable [OF assms, of 0] by (simp add: sector_pos_def)

theorem find_valid_gpt_refines_witness:
  "\<exists>messages pos'. find_valid_gpt (os_of_disk (demo_disk demo_header)) 0 = Some (Some (demo_header, demo_entries), messages, pos')"
proof -
  have len: "length (gpt_header_bytes demo_header) = 512" by (simp add: gpt_header_bytes_def demo_header_def)
  have "header_sane (gpt_header_bytes demo_header)"
    using gpt_header_of_bytes [of demo_header] by (simp add: header_sane_def demo_header_def)
  note sane = demo_sane [OF len this]
  have "find_table (demo_disk demo_header) = Some (demo_header, demo_entries)"
    by (rule demo_table) (simp_all add: demo_header_def)
  then show ?thesis using find_valid_gpt_refines [OF demo_stable [OF len] sane] demo_sectors(1) [OF len] by simp
qed

text \<open>C40. No table is found on a disk whose sectors are larger than 512 bytes: \<open>read_lba\<close> refuses to read the 512 bytes
  of a header with the positive value \<open>EINVAL\<close>, the callers take every non-zero result for success, and
  the header they look at is the cleared buffer.
\<close>

theorem find_valid_gpt_large_sectors:
  assumes "get_sector_size os = of_nat s" "512 < s" "s < 2 ^ 31"
  shows "find_valid_gpt os pos = Some (None, [], pos)"
proof -
  have u: "unat (scast (get_sector_size os) :: u64) = s" using assms by (simp add: unat_scast_small unat_of_nat_small)
  then have "scast (get_sector_size os) \<noteq> (0 :: u64)" "512 mod scast (get_sector_size os) \<noteq> (0 :: u64)"
    using assms(2) by (auto simp: word_unat_eq_iff unat_mod)
  then have "read_lba os lba buf 512 p = Some (EINVAL, buf, p)" for lba buf p by (simp add: read_lba_def)
  moreover have "signature (gpt_header_of (replicate 512 0)) \<noteq> GPT_HEADER_SIGNATURE"
    by (simp add: gpt_header_of_def le_at_def GPT_HEADER_SIGNATURE_def)
  ultimately have "is_gpt_valid os lba p = Some (None, p)" for lba p
    by (simp add: is_gpt_valid_def alloc_read_gpt_header_def EINVAL_def)
  moreover have "get_sector_size os \<noteq> 0" using u assms(2) by auto
  then have "\<exists>l. last_lba os = Some l"
    by (auto simp: last_lba_def get_num_sectors_def Let_def split: option.split bool.split)
  ultimately show ?thesis by (auto simp: find_valid_gpt_def find_alternate_def)
qed

theorem find_valid_gpt_large_sectors_witness:
  "find_valid_gpt ((os_of_disk (demo_disk demo_header))\<lparr>os_blksszget := Some 4096\<rparr>) 0 = Some (None, [], 0)"
  by (rule find_valid_gpt_large_sectors [where s = 4096]) (simp_all add: get_sector_size_def)

text \<open>The size of a header is not checked before its checksum is computed: a header that carries the signature and
  a size above 512 makes the search read behind the buffer of the header.
\<close>

theorem find_valid_gpt_oversized_header:
  assumes "stable_disk os img" "1024 \<le> length img"
    and "signature (gpt_header_of (take 512 (drop 512 img))) = GPT_HEADER_SIGNATURE"
    and "512 < header_size (gpt_header_of (take 512 (drop 512 img)))"
  shows "find_valid_gpt os 0 = None"
proof -
  define s where "s = take 512 (drop 512 img)"
  have len: "length s = 512" using assms(2) by (simp add: s_def)
  have "unat (ucast (header_size (gpt_header_of s)) :: u64) > 512" using assms(4) by (simp add: s_def word_less_nat_alt)
  then have "efi_crc32 (gpt_header_bytes ((gpt_header_of s)\<lparr>header_crc32 := 0\<rparr>)) (ucast (header_size (gpt_header_of s))) = None"
    using len by (simp add: efi_crc32_ref gpt_header_bytes_cleared)
  moreover have "512 = seek_pos img 1 (unat 0)" "sector_pos img 0" using assms(2) by (simp_all add: seek_pos_def sector_pos_def)
  from alloc_read_gpt_header_stable [OF assms(1) this(2, 1) s_def]
  obtain pos' where "alloc_read_gpt_header os 1 0 = Some (if s = [] then None else Some (gpt_header_of s), pos')" by blast
  moreover have "s \<noteq> []" using len by auto
  ultimately have "is_gpt_valid os 1 0 = None" using assms(3) by (simp add: is_gpt_valid_def s_def)
  then show ?thesis using stable_diskD(2) [OF assms(1)] by (simp add: find_valid_gpt_def)
qed

theorem find_valid_gpt_oversized_header_witness:
  "find_valid_gpt (os_of_disk (demo_disk (demo_header\<lparr>header_size := 513\<rparr>))) 0 = None"
proof -
  let ?h = "demo_header\<lparr>header_size := 513\<rparr>"
  have len: "length (gpt_header_bytes ?h) = 512" by (simp add: gpt_header_bytes_def demo_header_def)
  have "gpt_header_of (gpt_header_bytes ?h) = ?h" by (rule gpt_header_of_bytes) (simp_all add: demo_header_def)
  then show ?thesis
    by (intro find_valid_gpt_oversized_header [OF demo_stable [OF len]]) (simp_all add: demo_sectors [OF len], simp_all add: demo_header_def)
qed



text \<open>The text form of an identifier determines its 16 bytes.\<close>

theorem guid_to_ascii_inject:
  assumes "length g = 16" "length g' = 16"
  shows "guid_to_ascii g = guid_to_ascii g' \<longleftrightarrow> g = g'"
proof
  assume eq: "guid_to_ascii g = guid_to_ascii g'"
  have hex: "show_hex 8 (le_at 0 4 g) = show_hex 8 (le_at 0 4 g') \<longleftrightarrow> take 4 g = take 4 g'"
    "show_hex 4 (le_at 4 2 g) = show_hex 4 (le_at 4 2 g') \<longleftrightarrow> take 2 (drop 4 g) = take 2 (drop 4 g')"
    "show_hex 4 (le_at 6 2 g) = show_hex 4 (le_at 6 2 g') \<longleftrightarrow> take 2 (drop 6 g) = take 2 (drop 6 g')"
    using le_at_small [of 0 4] le_at_small [of 4 2] le_at_small [of 6 2] assms
    by (simp_all add: show_hex_inject le_val_inject le_at_def)
  have "take 4 g = take 4 g' \<and> take 2 (drop 4 g) = take 2 (drop 4 g') \<and> take 2 (drop 6 g) = take 2 (drop 6 g') \<and>
        take 8 (drop 8 g) = take 8 (drop 8 g')"
    using eq assms by (simp add: guid_to_ascii_def append_eq_append_conv hex show_hex_bytes_inject del: take_all)
  moreover have "x = take 4 x @ take 2 (drop 4 x) @ take 2 (drop 6 x) @ take 8 (drop 8 x)" if "length x = 16" for x :: bytes
    using that take_drop_join [of 4 0 x] take_drop_join [of 2 4 x] take_drop_join [of 2 6 x] by simp
  ultimately show "g = g'" using assms by metis
qed simp

theorem guid_to_ascii_inject_witness:
  "guid_to_ascii (replicate 16 1) \<noteq> guid_to_ascii (replicate 15 1 @ [2])"
  using guid_to_ascii_inject [of "replicate 16 1" "replicate 15 1 @ [2]"] by (simp add: numeral_eq_Suc)

end
