(* ===== verification/Update_Verifier.thy ===== *)
theory Update_Verifier
  imports Range_Set "HOL-Library.List_Lexorder" "HOL-Library.Char_ord"
begin

text \<open>
  The check of a freshly updated slot, \<open>update_verifier/update_verifier.cpp\<close>: the care map names the partitions and
  the blocks whose reading makes dm-verity check them, and the slot is marked as booted successfully
  only afterwards. Properties, files, devices, the boot control service, vold and the snapshot daemon are fields
  of a record; the protobuf parser and the text functions of libbase are parameters. The result of a run comes
  with the list of what it did: the device reads that succeeded, then the calls that mark the slot. The threads of
  \<open>ReadBlocks\<close> only read, each through a descriptor of its own, so their reads are listed group by group.
\<close>

section \<open>The environment\<close>

record uv_env =
  uv_prop :: "string \<Rightarrow> string"
  uv_bool_prop :: "string \<Rightarrow> bool"
  uv_scandir :: "string list option"
  uv_file :: "string \<Rightarrow> string option"
  uv_open :: "string \<Rightarrow> bool"
  uv_lseek :: "string \<Rightarrow> u64 \<Rightarrow> bool"
  uv_ReadFully :: "string \<Rightarrow> u64 \<Rightarrow> u64 \<Rightarrow> bool"
  uv_concurrency :: u64
  uv_snapuserd :: "bool option"
  uv_module :: bool
  uv_slot_successful :: "bool option"
  uv_vold :: "bool option"
  uv_mark :: bool
  uv_reboot :: bool

text \<open>\<open>std::map::emplace\<close>: a key that is present keeps its value.\<close>

fun map_emplace :: "(string \<times> 'v) list \<Rightarrow> string \<Rightarrow> 'v \<Rightarrow> (string \<times> 'v) list" where
  "map_emplace [] k v = [(k, v)]"
| "map_emplace ((k', v') # m) k v =
     (if k = k' then (k', v') # m
      else if k < k' then (k, v) # (k', v') # m
      else (k', v') # map_emplace m k v)"

section \<open>Devices\<close>

definition dm_name_filter :: "string \<Rightarrow> bool" where
  "dm_name_filter d_name = (take 3 d_name = ''dm-'')"

definition EndsWith :: "string \<Rightarrow> string \<Rightarrow> bool" where
  "EndsWith s suffix = (length suffix \<le> length s \<and> drop (length s - length suffix) s = suffix)"

text \<open>The name under which a device is entered; \<open>None\<close> is the \<open>continue\<close>.\<close>

definition dm_block_name :: "uv_env \<Rightarrow> (string \<Rightarrow> string) \<Rightarrow> string \<Rightarrow> string option" where
  "dm_block_name env Trim content =
     (let name = Trim content in
      if name = ''vroot'' then Some ''system''
      else if EndsWith name ''-verity'' then Some (take (length name - 7) name)
      else if uv_prop env ''ro.boot.avb_version'' \<noteq> [] then None
      else Some name)"

fun find_dm_loop :: "uv_env \<Rightarrow> (string \<Rightarrow> string) \<Rightarrow> string list \<Rightarrow> (string \<times> string) list \<Rightarrow> (string \<times> string) list" where
  "find_dm_loop env Trim [] dm_block_devices = dm_block_devices"
| "find_dm_loop env Trim (d_name # namelist) dm_block_devices =
     (case uv_file env (''/sys/block/'' @ d_name @ ''/dm/name'') of
        None \<Rightarrow> find_dm_loop env Trim namelist dm_block_devices
      | Some content \<Rightarrow>
          (case dm_block_name env Trim content of
             None \<Rightarrow> find_dm_loop env Trim namelist dm_block_devices
           | Some name \<Rightarrow>
               find_dm_loop env Trim namelist (map_emplace dm_block_devices name (''/dev/block/'' @ d_name))))"

text \<open>The directory is read in the order of \<open>alphasort\<close> and worked off from its end.\<close>

definition FindDmPartitions :: "uv_env \<Rightarrow> (string \<Rightarrow> string) \<Rightarrow> (string \<times> string) list" where
  "FindDmPartitions env Trim =
     (case uv_scandir env of None \<Rightarrow> []
      | Some names \<Rightarrow> find_dm_loop env Trim (rev (filter dm_name_filter names)) [])"

section \<open>Reading the cared blocks\<close>

text \<open>Reads of one descriptor: device, position and length of those that succeeded.\<close>

type_synonym dm_read = "string \<times> u64 \<times> u64"

lemma chunk_less: "0 < remain \<Longrightarrow> unat (remain - min remain 4194304) < unat (remain :: u64)"
  by (auto simp: min_def unat_sub word_less_nat_alt word_le_nat_alt)

function read_chunks :: "uv_env \<Rightarrow> string \<Rightarrow> u64 \<Rightarrow> u64 \<Rightarrow> bool \<times> dm_read list" where
  "read_chunks env dev pos remain =
     (if remain > 0 then
        (let to_read = min remain (1024 * 4096) in
         if uv_ReadFully env dev pos to_read then
           (let (ok, reads) = read_chunks env dev (pos + to_read) (remain - to_read) in (ok, (dev, pos, to_read) # reads))
         else (False, []))
      else (True, []))"
  by pat_completeness auto
termination
  by (relation "measure (\<lambda>(env, dev, pos, remain). unat remain)") (simp_all add: chunk_less)

declare read_chunks.simps [simp del]

fun read_ranges :: "uv_env \<Rightarrow> string \<Rightarrow> range list \<Rightarrow> bool \<times> dm_read list" where
  "read_ranges env dev [] = (True, [])"
| "read_ranges env dev ((range_start, range_end) # rest) =
     (if \<not> uv_lseek env dev (range_start * 4096) then (False, [])
      else
        (let (ok, reads) = read_chunks env dev (range_start * 4096) ((range_end - range_start) * 4096) in
         if \<not> ok then (False, reads)
         else (let (ok', reads') = read_ranges env dev rest in (ok', reads @ reads'))))"

definition read_group :: "uv_env \<Rightarrow> string \<Rightarrow> range_set \<Rightarrow> bool \<times> dm_read list" where
  "read_group env dev grp = (if \<not> uv_open env dev then (False, []) else read_ranges env dev (rs_ranges grp))"

definition ReadBlocks :: "uv_env \<Rightarrow> string \<Rightarrow> range_set \<Rightarrow> (bool \<times> dm_read list) option" where
  "ReadBlocks env dm_block_device ranges =
     (let thread_num = (if uv_concurrency env = 0 then 4 else uv_concurrency env) in
      do { groups \<leftarrow> RangeSet_Split ranges thread_num;
           Some (list_all fst (map (read_group env dm_block_device) groups),
                 concat (map (snd \<circ> read_group env dm_block_device) groups)) })"

definition CheckVerificationStatus :: "uv_env \<Rightarrow> bool" where
  "CheckVerificationStatus env = (case uv_snapuserd env of None \<Rightarrow> False | Some verified \<Rightarrow> verified)"

fun verify_loop ::
  "uv_env \<Rightarrow> (string \<times> string) list \<Rightarrow> (string \<times> range_set) list \<Rightarrow> (bool \<times> dm_read list) option" where
  "verify_loop env dm_block_devices [] = Some (True, [])"
| "verify_loop env dm_block_devices ((partition_name, ranges) # partition_map) =
     (case map_of dm_block_devices partition_name of
        None \<Rightarrow> Some (False, [])
      | Some dm_block_device \<Rightarrow>
          do { (ok, reads) \<leftarrow> ReadBlocks env dm_block_device ranges;
               if \<not> ok then Some (False, reads)
               else do { (ok', reads') \<leftarrow> verify_loop env dm_block_devices partition_map; Some (ok', reads @ reads') } })"

definition VerifyPartitions ::
  "uv_env \<Rightarrow> (string \<Rightarrow> string) \<Rightarrow> (string \<times> range_set) list \<Rightarrow> (bool \<times> dm_read list) option" where
  "VerifyPartitions env Trim partition_map =
     (if uv_bool_prop env ''ro.virtual_ab.userspace.snapshots.enabled'' \<and> CheckVerificationStatus env then Some (True, [])
      else
        (let dm_block_devices = FindDmPartitions env Trim in
         if dm_block_devices = [] then Some (False, []) else verify_loop env dm_block_devices partition_map))"

section \<open>The care map\<close>

record care_partition =
  cp_name :: string
  cp_ranges :: string
  cp_id :: string
  cp_fingerprint :: string

text \<open>A parser's interface: \<open>Trim\<close>, \<open>Split\<close>, \<open>ParseUint\<close> of libbase and \<open>ParseFromString\<close> of the generated class.\<close>

record uv_lib =
  lib_Trim :: "string \<Rightarrow> string"
  lib_Split :: "string \<Rightarrow> char \<Rightarrow> string list"
  lib_ParseUint :: "string \<Rightarrow> u64 \<Rightarrow> u64 option"
  lib_ParseFromString :: "string \<Rightarrow> care_partition list option"

fun care_loop ::
  "uv_env \<Rightarrow> uv_lib \<Rightarrow> care_partition list \<Rightarrow> (string \<times> range_set) list \<Rightarrow> (string \<times> range_set) list option" where
  "care_loop env lib [] partition_map = Some partition_map"
| "care_loop env lib (part # partitions) partition_map =
     (if cp_name part = [] then None
      else if cp_ranges part = [] then None
      else
        (let ranges = RangeSet_Parse (lib_Split lib) (lib_ParseUint lib) (cp_ranges part) in
         if rs_ranges ranges = [] then None
         else if cp_id part = [] \<or> cp_id part = ''unknown'' then care_loop env lib partitions partition_map
         else if uv_prop env (cp_id part) \<noteq> cp_fingerprint part then care_loop env lib partitions partition_map
         else care_loop env lib partitions (map_emplace partition_map (cp_name part) ranges)))"

text \<open>\<open>None\<close> is the result false. The file is \<open>None\<close> when it cannot be accessed, opened or read.\<close>

definition ParseCareMap :: "uv_env \<Rightarrow> uv_lib \<Rightarrow> (string \<times> range_set) list option" where
  "ParseCareMap env lib =
     (case uv_file env ''/data/ota_package/care_map.pb'' of None \<Rightarrow> None
      | Some file_content \<Rightarrow>
          if file_content = [] then None
          else
            (case lib_ParseFromString lib file_content of None \<Rightarrow> None
             | Some partitions \<Rightarrow>
                 (case care_loop env lib partitions [] of None \<Rightarrow> None
                  | Some partition_map \<Rightarrow> if partition_map = [] then None else Some partition_map)))"

section \<open>The program\<close>

datatype uv_exit = Returned int | Rebooting

datatype uv_event = DmRead dm_read | MarkBootSuccessful bool | ClearWarmReset

definition reboot_device :: "uv_env \<Rightarrow> uv_exit" where
  "reboot_device env = (if \<not> uv_reboot env then Returned (- 1) else Rebooting)"

definition ascii_lower :: "char \<Rightarrow> char" where
  "ascii_lower c = (let n = (of_char c :: nat) in if 65 \<le> n \<and> n \<le> 90 then char_of (n + 32) else c)"

definition EqualsIgnoreCase :: "string \<Rightarrow> string \<Rightarrow> bool" where
  "EqualsIgnoreCase a b = (map ascii_lower a = map ascii_lower b)"

text \<open>What the verity mode asks for: \<open>None\<close> is a mode the program does not know.\<close>

definition skip_verification :: "string \<Rightarrow> bool option" where
  "skip_verification verity_mode =
     (if verity_mode = [] then Some True
      else if EqualsIgnoreCase verity_mode ''eio'' then Some False
      else if EqualsIgnoreCase verity_mode ''disabled'' then Some True
      else if verity_mode \<noteq> ''enforcing'' then None
      else Some False)"

definition verify_slot :: "uv_env \<Rightarrow> uv_lib \<Rightarrow> bool \<Rightarrow> (bool \<times> dm_read list) option" where
  "verify_slot env lib skip =
     (if skip then Some (True, [])
      else
        (case ParseCareMap env lib of None \<Rightarrow> Some (True, [])
         | Some partition_map \<Rightarrow> VerifyPartitions env (lib_Trim lib) partition_map))"

definition mark_slot :: "uv_env \<Rightarrow> uv_exit \<times> uv_event list" where
  "mark_slot env =
     (let supports_checkpoint = (case uv_vold env of None \<Rightarrow> False | Some supported \<Rightarrow> supported) in
      if \<not> supports_checkpoint then
        (if \<not> uv_mark env then (reboot_device env, [MarkBootSuccessful False])
         else (Returned 0, [MarkBootSuccessful True, ClearWarmReset]))
      else (Returned 0, []))"

definition update_verifier :: "uv_env \<Rightarrow> uv_lib \<Rightarrow> (uv_exit \<times> uv_event list) option" where
  "update_verifier env lib =
     (if \<not> uv_module env then Some (reboot_device env, [])
      else if uv_slot_successful env \<noteq> Some False then Some (Returned 0, [])
      else
        (case skip_verification (uv_prop env ''ro.boot.veritymode'') of
           None \<Rightarrow> Some (reboot_device env, [])
         | Some skip \<Rightarrow>
             do { (ok, reads) \<leftarrow> verify_slot env lib skip;
                  if \<not> ok then Some (reboot_device env, map DmRead reads)
                  else (let (exit, events) = mark_slot env in Some (exit, map DmRead reads @ events)) }))"

definition update_verifier_main :: "uv_env \<Rightarrow> uv_lib \<Rightarrow> (uv_exit \<times> uv_event list) option" where
  "update_verifier_main env lib =
     (if uv_prop env ''ro.boot.slot_suffix'' = [] then Some (Returned 0, []) else update_verifier env lib)"

section \<open>What a successful read shows\<close>

definition covered :: "dm_read list \<Rightarrow> string \<Rightarrow> nat \<Rightarrow> bool" where
  "covered reads dev k =
     list_ex (\<lambda>(d, off, n). d = dev \<and> unat off \<le> 4096 * k \<and> 4096 * k + 4096 \<le> unat off + unat n) reads"

lemma covered_append [simp]: "covered (xs @ ys) dev k \<longleftrightarrow> covered xs dev k \<or> covered ys dev k"
  by (simp add: covered_def)

lemma covered_concat: "covered reads dev k \<Longrightarrow> reads \<in> set rss \<Longrightarrow> covered (concat rss) dev k"
  by (auto simp: covered_def list_ex_iff)

lemma read_chunks_covered:
  assumes "unat pos = 4096 * p" "unat remain = 4096 * n" "4096 * (p + n) < 2 ^ 64"
    and "read_chunks env dev pos remain = (True, reads)" "p \<le> k" "k < p + n"
  shows "covered reads dev k"
  using assms
proof (induction n arbitrary: p pos remain reads rule: less_induct)
  case (less n)
  define to_read where "to_read = min remain 4194304"
  define m where "m = min n 1024"
  have m: "unat to_read = 4096 * m" "0 < m" "m \<le> n"
    using less.prems(2, 5, 6) by (auto simp: to_read_def m_def min_def word_le_nat_alt)
  have "0 < remain" using less.prems(2, 5, 6) by (simp add: word_less_nat_alt)
  then obtain reads' where r: "read_chunks env dev (pos + to_read) (remain - to_read) = (True, reads')"
      "reads = (dev, pos, to_read) # reads'"
    using less.prems(4) by (subst (asm) read_chunks.simps) (auto simp: to_read_def Let_def split: if_splits prod.splits)
  show ?case
  proof (cases "k < p + m")
    case True
    then show ?thesis using m less.prems(1, 5) r(2) by (simp add: covered_def)
  next
    case False
    have "unat (pos + to_read) = 4096 * (p + m)" using less.prems(1, 3) m by (simp add: unat_add_nowrap)
    moreover have "unat (remain - to_read) = 4096 * (n - m)"
      using less.prems(2) m by (simp add: unat_sub word_le_nat_alt diff_mult_distrib2)
    ultimately have "covered reads' dev k"
      using less.IH [of "n - m" "pos + to_read" "p + m" "remain - to_read" reads'] m r(1) less.prems False by simp
    then show ?thesis using r(2) by (simp add: covered_def)
  qed
qed

lemma read_ranges_covered:
  assumes "list_all (\<lambda>(a, b). a < b \<and> unat b \<le> 2 ^ 31) rr" "read_ranges env dev rr = (True, reads)" "k \<in> set (blocks_of rr)"
  shows "covered reads dev k"
  using assms
proof (induction rr arbitrary: reads)
  case (Cons r rr)
  obtain a b where ab: "r = (a, b)" "a < b" "unat b \<le> 2 ^ 31" using Cons.prems(1) by (cases r) auto
  obtain xs ys where r: "read_chunks env dev (a * 4096) ((b - a) * 4096) = (True, xs)" "read_ranges env dev rr = (True, ys)"
      "reads = xs @ ys"
    using Cons.prems(2) ab(1) by (auto split: if_splits prod.splits)
  have lt: "unat a < unat b" using ab(2) by (simp add: word_less_nat_alt)
  have "unat ((b - a) * 4096) = unat (b - a) * unat (4096 :: u64)"
    using ab(2, 3) by (intro unat_mult_nowrap) (simp add: unat_sub_less)
  then have u: "unat (a * 4096) = 4096 * unat a" "unat ((b - a) * 4096) = 4096 * (unat b - unat a)"
    using lt ab(2, 3) by (simp_all add: unat_mult_nowrap unat_sub_less del: left_diff_distrib_numeral right_diff_distrib_numeral)
  show ?case
  proof (cases "k \<in> set (blocks_of rr)")
    case True
    then show ?thesis using Cons r(2, 3) by simp
  next
    case False
    then have "unat a \<le> k" "k < unat a + (unat b - unat a)" using Cons.prems(3) ab(1) by auto
    then show ?thesis using read_chunks_covered [OF u _ r(1)] lt ab(3) r(3) by simp
  qed
qed simp

text \<open>What parsing guarantees of the ranges of a partition.\<close>

definition care_ok :: "range_set \<Rightarrow> bool" where
  "care_ok rs = (rs_inv rs \<and> rs_ranges rs \<noteq> [] \<and> (\<forall>k \<in> set (block_list rs). k < 2 ^ 31))"

lemma read_group_covered:
  assumes "rs_inv g" "\<forall>k \<in> set (block_list g). k < 2 ^ 31" "read_group env dev g = (True, reads)" "k \<in> set (block_list g)"
  shows "covered reads dev k"
proof -
  have "a < b \<and> unat b \<le> 2 ^ 31" if "(a, b) \<in> set (rs_ranges g)" for a b
  proof -
    have "a < b" using assms(1) that by (auto simp: rs_inv_def list_all_iff)
    then have "unat b - 1 \<in> set (block_list g)"
      using that by (force simp: block_list_def blocks_of_def word_less_nat_alt)
    then show ?thesis using assms(2) \<open>a < b\<close> by fastforce
  qed
  then have "list_all (\<lambda>(a, b). a < b \<and> unat b \<le> 2 ^ 31) (rs_ranges g)" by (auto simp: list_all_iff)
  moreover have "read_ranges env dev (rs_ranges g) = (True, reads)" using assms(3) by (simp add: read_group_def split: if_splits)
  ultimately show ?thesis using read_ranges_covered assms(4) by (simp add: block_list_def)
qed

lemma ReadBlocks_covered:
  assumes "care_ok rs"
  shows "\<exists>ok reads. ReadBlocks env dev rs = Some (ok, reads) \<and> (ok \<longrightarrow> (\<forall>k \<in> set (block_list rs). covered reads dev k))"
proof -
  define t where "t = (if uv_concurrency env = 0 then 4 else uv_concurrency env)"
  have "t \<noteq> 0" by (simp add: t_def)
  then obtain gs where gs: "RangeSet_Split rs t = Some gs" "concat (map block_list gs) = block_list rs" "list_all rs_inv gs"
    using Split_partition [of rs t] assms by (auto simp: care_ok_def)
  let ?rs = "concat (map (snd \<circ> read_group env dev) gs)"
  have "covered ?rs dev k" if ok: "list_all fst (map (read_group env dev) gs)" and k: "k \<in> set (block_list rs)" for k
  proof -
    obtain g where g: "g \<in> set gs" "k \<in> set (block_list g)" using k by (auto simp flip: gs(2))
    have "set (block_list g) \<subseteq> set (block_list rs)" using g(1) by (auto simp flip: gs(2))
    then have "\<forall>k \<in> set (block_list g). k < 2 ^ 31" using assms by (auto simp: care_ok_def)
    moreover have "read_group env dev g = (True, snd (read_group env dev g))"
      using ok g(1) by (auto simp: list_all_iff prod_eq_iff)
    ultimately have "covered (snd (read_group env dev g)) dev k"
      using read_group_covered g gs(3) by (auto simp: list_all_iff)
    then show ?thesis by (rule covered_concat) (use g(1) in auto)
  qed
  then show ?thesis using gs(1) by (auto simp: ReadBlocks_def t_def [symmetric] Let_def)
qed

text \<open>Every cared block of the partitions has been read from the device of its partition.\<close>

definition partitions_read :: "(string \<times> string) list \<Rightarrow> (string \<times> range_set) list \<Rightarrow> dm_read list \<Rightarrow> bool" where
  "partitions_read dms pm reads =
     list_all (\<lambda>(name, ranges). case map_of dms name of None \<Rightarrow> False
                               | Some dev \<Rightarrow> list_all (covered reads dev) (block_list ranges)) pm"

lemma partitions_read_append: "partitions_read dms pm ys \<Longrightarrow> partitions_read dms pm (xs @ ys)"
  "partitions_read dms pm xs \<Longrightarrow> partitions_read dms pm (xs @ ys)"
  by (fastforce simp: partitions_read_def list_all_iff split: option.splits)+

lemma verify_loop_covered:
  assumes "list_all (\<lambda>x. care_ok (snd x)) pm"
  shows "\<exists>ok reads. verify_loop env dms pm = Some (ok, reads) \<and> (ok \<longrightarrow> partitions_read dms pm reads)"
  using assms
proof (induction pm)
  case (Cons x pm)
  obtain name ranges where x: "x = (name, ranges)" by (cases x)
  show ?case
  proof (cases "map_of dms name")
    case None
    then show ?thesis by (auto simp: x)
  next
    case (Some dev)
    obtain ok reads where r: "ReadBlocks env dev ranges = Some (ok, reads)"
        "ok \<longrightarrow> (\<forall>k \<in> set (block_list ranges). covered reads dev k)"
      using ReadBlocks_covered [of ranges env dev] Cons.prems by (auto simp: x)
    obtain ok' reads' where r': "verify_loop env dms pm = Some (ok', reads')" "ok' \<longrightarrow> partitions_read dms pm reads'"
      using Cons by auto
    show ?thesis
    proof (cases ok)
      case True
      have "ok' \<longrightarrow> partitions_read dms (x # pm) (reads @ reads')"
        using True Some r(2) r'(2) partitions_read_append(1) [of dms pm reads' reads]
        by (auto simp: x partitions_read_def list_all_iff)
      then show ?thesis using True Some r(1) r'(1) by (simp add: x)
    qed (use Some r in \<open>auto simp: x\<close>)
  qed
qed (auto simp: partitions_read_def)

section \<open>What the care map holds\<close>

lemma push_all_subset: "set (rs_ranges (push_all rs pairs)) \<subseteq> set (rs_ranges rs) \<union> set pairs"
proof (induction pairs arbitrary: rs)
  case (Cons r pairs)
  obtain ok rs' where p: "PushBack rs r = (ok, rs')" by (cases "PushBack rs r")
  then have "set (rs_ranges rs') \<subseteq> insert r (set (rs_ranges rs))" by (auto simp: PushBack_def Let_def split: if_splits)
  then show ?case using Cons [of rs'] p by (cases ok) (auto simp: Clear_def)
qed simp

lemma RangeSet_Parse_inv: "rs_inv (RangeSet_Parse Split ParseUint t)"
  by (auto simp: RangeSet_Parse_def RangeSet_of_inv split: list.split option.split)

context libbase_text
begin

lemma parse_pairs_bound: "parse_pairs ParseUint ps = Some pairs \<Longrightarrow> (a, b) \<in> set pairs \<Longrightarrow> b \<le> INT_MAX"
  by (induction ps arbitrary: pairs rule: induct_list012) (auto split: option.splits dest: ParseUint_max)

lemma RangeSet_of_bound: "parse_pairs ParseUint ps = Some pairs \<Longrightarrow> (a, b) \<in> set (rs_ranges (RangeSet_of pairs)) \<Longrightarrow> b \<le> INT_MAX"
  using push_all_subset [of RangeSet_empty pairs] parse_pairs_bound [of ps pairs a b]
  by (auto simp: RangeSet_of_def RangeSet_empty_def split: if_splits)

lemma RangeSet_Parse_bound: "(a, b) \<in> set (rs_ranges (RangeSet_Parse Split ParseUint t)) \<Longrightarrow> b \<le> INT_MAX"
  by (auto simp: RangeSet_Parse_def RangeSet_empty_def simp del: parse_pairs.simps dest: RangeSet_of_bound
      split: list.splits option.splits if_splits)

lemma RangeSet_Parse_care_ok:
  "rs_ranges (RangeSet_Parse Split ParseUint t) \<noteq> [] \<Longrightarrow> care_ok (RangeSet_Parse Split ParseUint t)"
  using RangeSet_Parse_inv RangeSet_Parse_bound
  by (fastforce simp: care_ok_def block_list_def blocks_of_def word_le_nat_alt)

end

lemma set_map_emplace: "set (map_emplace m k v) \<subseteq> insert (k, v) (set m)"
  by (induction m k v rule: map_emplace.induct) auto

lemma care_loop_ok:
  assumes "libbase_text (lib_Split lib) (lib_ParseUint lib)" "list_all (\<lambda>x. care_ok (snd x)) m" "care_loop env lib ps m = Some m'"
  shows "list_all (\<lambda>x. care_ok (snd x)) m'"
  using assms(2, 3)
proof (induction ps arbitrary: m)
  case (Cons p ps)
  have "list_all (\<lambda>x. care_ok (snd x)) (map_emplace m k r)" if "care_ok r" for k r
    using that Cons.prems(1) set_map_emplace [of m k r] by (fastforce simp: list_all_iff)
  then show ?case using Cons libbase_text.RangeSet_Parse_care_ok [OF assms(1)]
    by (auto simp: Let_def split: if_splits)
qed simp

lemma ParseCareMap_ok:
  "libbase_text (lib_Split lib) (lib_ParseUint lib) \<Longrightarrow> ParseCareMap env lib = Some m \<Longrightarrow> list_all (\<lambda>x. care_ok (snd x)) m"
  by (auto simp: ParseCareMap_def intro: care_loop_ok [of lib "[]"] split: option.splits if_splits)

section \<open>When every call succeeds\<close>

lemma read_chunks_ok: "(\<And>p n. uv_ReadFully env dev p n) \<Longrightarrow> fst (read_chunks env dev pos remain)"
proof (induction env dev pos remain rule: read_chunks.induct)
  case (1 env dev pos remain)
  then show ?case by (subst read_chunks.simps) (auto simp: Let_def split: prod.split)
qed

definition device_answers :: "uv_env \<Rightarrow> string \<Rightarrow> bool" where
  "device_answers env dev = (uv_open env dev \<and> (\<forall>off. uv_lseek env dev off) \<and> (\<forall>off n. uv_ReadFully env dev off n))"

lemma read_group_ok: "device_answers env dev \<Longrightarrow> fst (read_group env dev g)"
proof -
  assume ok: "device_answers env dev"
  have chunks: "fst (read_chunks env dev p n)" for p n using read_chunks_ok ok by (simp add: device_answers_def)
  have "fst (read_ranges env dev rr)" for rr
  proof (induction rr)
    case (Cons r rr)
    then show ?case using ok by (cases r) (simp add: device_answers_def case_prod_beta chunks)
  qed simp
  then show ?thesis using ok by (simp add: read_group_def device_answers_def)
qed

lemma ReadBlocks_ok: "care_ok rs \<Longrightarrow> device_answers env dev \<Longrightarrow> \<exists>reads. ReadBlocks env dev rs = Some (True, reads)"
proof -
  assume "care_ok rs" "device_answers env dev"
  then obtain ok reads where r: "ReadBlocks env dev rs = Some (ok, reads)" "\<And>g. fst (read_group env dev g)"
    using ReadBlocks_covered [of rs env dev] read_group_ok [of env dev] by blast
  then have ok by (auto simp: ReadBlocks_def Let_def list_all_iff bind_eq_Some_conv simp del: if_bool_eq_conj)
  then show ?thesis using r(1) by simp
qed

lemma verify_loop_ok:
  assumes "list_all (\<lambda>x. care_ok (snd x)) pm" "\<forall>(name, ranges) \<in> set pm. \<exists>dev. map_of dms name = Some dev \<and> device_answers env dev"
  shows "\<exists>reads. verify_loop env dms pm = Some (True, reads)"
  using assms
proof (induction pm)
  case (Cons x pm)
  obtain name ranges where x: "x = (name, ranges)" by (cases x)
  obtain dev where dev: "map_of dms name = Some dev" "device_answers env dev" using Cons.prems(2) by (auto simp: x)
  obtain reads reads' where "ReadBlocks env dev ranges = Some (True, reads)" "verify_loop env dms pm = Some (True, reads')"
    using ReadBlocks_ok [OF _ dev(2), of ranges] Cons by (auto simp: x)
  then show ?case using dev(1) by (simp add: x)
qed simp

lemma good_slot_marked:
  assumes "libbase_text (lib_Split lib) (lib_ParseUint lib)" "uv_module env" "uv_slot_successful env = Some False"
    and "skip_verification (uv_prop env ''ro.boot.veritymode'') = Some False" "ParseCareMap env lib = Some m"
    and "\<forall>(name, ranges) \<in> set m. \<exists>dev. map_of (FindDmPartitions env (lib_Trim lib)) name = Some dev \<and> device_answers env dev"
    and "uv_vold env \<noteq> Some True" "uv_mark env"
  shows "\<exists>reads. update_verifier env lib = Some (Returned 0, map DmRead reads @ [MarkBootSuccessful True, ClearWarmReset])"
proof -
  have "m \<noteq> []" using assms(5) by (auto simp: ParseCareMap_def split: option.splits if_splits)
  then have dms: "FindDmPartitions env (lib_Trim lib) \<noteq> []" using assms(6) by (cases m) fastforce+
  obtain reads where "verify_loop env (FindDmPartitions env (lib_Trim lib)) m = Some (True, reads)"
    using verify_loop_ok [OF ParseCareMap_ok [OF assms(1, 5)] assms(6)] by blast
  then have "\<exists>reads. VerifyPartitions env (lib_Trim lib) m = Some (True, reads)"
    using dms by (simp add: VerifyPartitions_def Let_def)
  moreover have "mark_slot env = (Returned 0, [MarkBootSuccessful True, ClearWarmReset])"
    using assms(7, 8) by (auto simp: mark_slot_def Let_def split: option.split)
  ultimately show ?thesis using assms(2-5) by (auto simp: update_verifier_def verify_slot_def)
qed

section \<open>A sample slot\<close>

definition sample_uv :: uv_env where
  "sample_uv = \<lparr>uv_prop = (\<lambda>s. if s = ''ro.boot.veritymode'' then ''enforcing'' else if s = ''ro.fp'' then ''abc'' else []),
     uv_bool_prop = (\<lambda>_. False), uv_scandir = Some [''dm-0'', ''loop0''],
     uv_file = (\<lambda>s. if s = ''/data/ota_package/care_map.pb'' then Some ''map''
                    else if s = ''/sys/block/dm-0/dm/name'' then Some ''vroot'' else None),
     uv_open = (\<lambda>_. True), uv_lseek = (\<lambda>_ _. True), uv_ReadFully = (\<lambda>_ _ _. True), uv_concurrency = 2,
     uv_snapuserd = None, uv_module = True, uv_slot_successful = Some False, uv_vold = None, uv_mark = True, uv_reboot = True\<rparr>"

definition sample_lib :: uv_lib where
  "sample_lib = \<lparr>lib_Trim = (\<lambda>s. s), lib_Split = split_on, lib_ParseUint = dec_parse_uint,
     lib_ParseFromString = (\<lambda>_. Some [\<lparr>cp_name = ''system'', cp_ranges = ''2,0,2'', cp_id = ''ro.fp'', cp_fingerprint = ''abc''\<rparr>])\<rparr>"

lemma sample_lib_text: "libbase_text (lib_Split sample_lib) (lib_ParseUint sample_lib)"
  by (simp add: sample_lib_def dec_text.libbase_text_axioms)

lemma sample_parse: "RangeSet_Parse split_on dec_parse_uint ''2,0,2'' = \<lparr>rs_ranges = [(0, 2)], rs_blocks = 2\<rparr>"
proof -
  let ?rs = "\<lparr>rs_ranges = [(0, 2)], rs_blocks = 2\<rparr> :: range_set"
  have "RangeSet_ToString ?rs = ''2,0,2''" by (simp add: RangeSet_ToString_def dec_eval)
  moreover have "rs_inv ?rs" by (simp add: rs_inv_def block_list_def)
  ultimately show ?thesis using dec_text.Parse_ToString [of ?rs] by (simp add: INT_MAX_def)
qed

lemma sample_care_map: "ParseCareMap sample_uv sample_lib = Some [(''system'', \<lparr>rs_ranges = [(0, 2)], rs_blocks = 2\<rparr>)]"
  by (simp add: ParseCareMap_def sample_uv_def sample_lib_def sample_parse Let_def)

lemma sample_devices: "FindDmPartitions sample_uv (lib_Trim sample_lib) = [(''system'', ''/dev/block/dm-0'')]"
  by (simp add: FindDmPartitions_def sample_uv_def sample_lib_def dm_name_filter_def dm_block_name_def)

lemma sample_mode: "skip_verification (uv_prop sample_uv ''ro.boot.veritymode'') = Some False"
  by code_simp

lemma sample_answers:
  "uv_module sample_uv" "uv_slot_successful sample_uv = Some False" "device_answers sample_uv dev"
  "uv_vold sample_uv \<noteq> Some True" "uv_mark sample_uv" "\<not> uv_bool_prop sample_uv s"
  by (simp_all add: sample_uv_def device_answers_def)

section \<open>Properties\<close>

text \<open>The reads a run has completed when it marks the slot.\<close>

fun reads_before_mark :: "uv_event list \<Rightarrow> dm_read list" where
  "reads_before_mark [] = []"
| "reads_before_mark (DmRead r # events) = r # reads_before_mark events"
| "reads_before_mark (MarkBootSuccessful b # events) = []"
| "reads_before_mark (ClearWarmReset # events) = reads_before_mark events"

lemma reads_before_mark_append: "reads_before_mark (map DmRead reads @ events) = reads @ reads_before_mark events"
  by (induction reads) simp_all

lemma mark_not_read [simp]: "MarkBootSuccessful b \<notin> DmRead ` A"
  by auto

text \<open>C11. The program always comes to a result, and it marks the running slot as good only when the slot was not
  marked before and its blocks were checked: unless dm-verity is off, the care map is unusable or the snapshot
  daemon has verified the update, every block of every partition in the care map has been read from its
  device-mapper device before the mark.\<close>

theorem update_verifier_marks_only_verified:
  assumes "libbase_text (lib_Split lib) (lib_ParseUint lib)"
  shows "\<exists>exit events. update_verifier env lib = Some (exit, events) \<and>
    (MarkBootSuccessful b \<in> set events \<longrightarrow>
       uv_slot_successful env = Some False \<and>
       (skip_verification (uv_prop env ''ro.boot.veritymode'') = Some True \<or> ParseCareMap env lib = None \<or>
        (uv_bool_prop env ''ro.virtual_ab.userspace.snapshots.enabled'' \<and> CheckVerificationStatus env) \<or>
        (\<exists>m. ParseCareMap env lib = Some m \<and>
          partitions_read (FindDmPartitions env (lib_Trim lib)) m (reads_before_mark events))))"
proof -
  let ?skip = "skip_verification (uv_prop env ''ro.boot.veritymode'')"
  let ?snapshot = "uv_bool_prop env ''ro.virtual_ab.userspace.snapshots.enabled'' \<and> CheckVerificationStatus env"
  let ?read = "partitions_read (FindDmPartitions env (lib_Trim lib))"
  have verify: "\<exists>ok reads. VerifyPartitions env (lib_Trim lib) m = Some (ok, reads) \<and> (ok \<longrightarrow> ?snapshot \<or> ?read m reads)"
    if "ParseCareMap env lib = Some m" for m
    using verify_loop_covered [OF ParseCareMap_ok [OF assms that], of env "FindDmPartitions env (lib_Trim lib)"]
    by (auto simp: VerifyPartitions_def Let_def)
  show ?thesis
  proof (cases "uv_module env \<and> uv_slot_successful env = Some False \<and> ?skip = Some False \<and> ParseCareMap env lib \<noteq> None")
    case True
    then obtain m where m: "ParseCareMap env lib = Some m" by auto
    obtain ok reads where v: "VerifyPartitions env (lib_Trim lib) m = Some (ok, reads)" "ok \<longrightarrow> ?snapshot \<or> ?read m reads"
      using verify [OF m] by blast
    obtain exit events where e: "mark_slot env = (exit, events)" by (cases "mark_slot env")
    have "?read m reads \<Longrightarrow> ?read m (reads_before_mark (map DmRead reads @ events))"
      by (simp add: reads_before_mark_append partitions_read_append)
    moreover have "update_verifier env lib = Some (if ok then (exit, map DmRead reads @ events) else (reboot_device env, map DmRead reads))"
      using True m v(1) e by (auto simp: update_verifier_def verify_slot_def)
    ultimately show ?thesis using True m v(2) by (cases ok) auto
  qed (auto simp: update_verifier_def verify_slot_def split: option.splits prod.splits)
qed

theorem update_verifier_marks_only_verified_witness:
  "\<exists>reads. update_verifier sample_uv sample_lib = Some (Returned 0, map DmRead reads @ [MarkBootSuccessful True, ClearWarmReset]) \<and>
     covered reads ''/dev/block/dm-0'' 0 \<and> covered reads ''/dev/block/dm-0'' 1"
proof -
  obtain reads where r: "update_verifier sample_uv sample_lib = Some (Returned 0, map DmRead reads @ [MarkBootSuccessful True, ClearWarmReset])"
    using good_slot_marked [OF sample_lib_text _ _ sample_mode sample_care_map]
    by (auto simp: sample_devices sample_answers)
  have "partitions_read (FindDmPartitions sample_uv (lib_Trim sample_lib)) [(''system'', \<lparr>rs_ranges = [(0, 2)], rs_blocks = 2\<rparr>)] reads"
    using update_verifier_marks_only_verified [OF sample_lib_text, of sample_uv True] r sample_mode sample_care_map
    by (auto simp: reads_before_mark_append sample_answers)
  then show ?thesis using r by (auto simp: partitions_read_def sample_devices block_list_def upt_rec)
qed

text \<open>C25. A slot whose partitions can be read is marked: in enforcing or EIO mode, with a usable care map whose
  partitions have devices that answer, no checkpointing and a boot control service that accepts the mark, the
  program returns 0 after marking the slot.\<close>

theorem update_verifier_marks_good_slot:
  assumes "libbase_text (lib_Split lib) (lib_ParseUint lib)" "uv_module env" "uv_slot_successful env = Some False"
    and "skip_verification (uv_prop env ''ro.boot.veritymode'') = Some False" "ParseCareMap env lib = Some m"
    and "\<forall>(name, ranges) \<in> set m. \<exists>dev. map_of (FindDmPartitions env (lib_Trim lib)) name = Some dev \<and> device_answers env dev"
    and "uv_vold env \<noteq> Some True" "uv_mark env"
  shows "\<exists>reads. update_verifier env lib = Some (Returned 0, map DmRead reads @ [MarkBootSuccessful True, ClearWarmReset])"
  using assms by (rule good_slot_marked)

theorem update_verifier_marks_good_slot_witness:
  "\<exists>reads. update_verifier sample_uv sample_lib =
     Some (Returned 0, map DmRead reads @ [MarkBootSuccessful True, ClearWarmReset])"
  by (rule update_verifier_marks_good_slot [OF sample_lib_text _ _ sample_mode sample_care_map])
    (simp_all add: sample_devices sample_answers)

end
