(* ===== verification/Spec2Isabelle.thy ===== *)
theory Spec2Isabelle
  imports Range_Set Sorted_Range_Set Block_Map Fuse_Provider Adb_Provider Fuse_Sideload Asn1_Decoder Ota_Package Verifier
    Bootloader_Message Uncrypt Package_Pipeline Rpc_Session Gpt Update_Verifier
begin

text \<open>
  A verification library for the AERA recovery (\<open>bootable/recovery\<close>): the parts of it that carry an update package from
  its source to the installer, decide whether it may be installed, talk to the boot loader, and take commands
  from a computer. File names below are relative to \<open>src/\<close>.

  \<^bold>\<open>The program.\<close> A package reaches recovery in one of two ways. It lies on a partition that recovery cannot mount: then
  the \<open>uncrypt\<close> service of the running system has written its plain blocks to the device and a block map next to it,
  and recovery reads the package through the map. Or it is sent over adb: then a host serves it block by block. In
  both cases a small file system, \<open>fuse_sideload\<close>, shows the package as one file, from which the verifier checks the
  whole-file signature before anything is installed. What the boot loader has to do next is a message in the misc
  partition. On devices with two slots \<open>update_verifier\<close> reads the updated partitions once before the slot counts as
  good. Commands from a computer come through pipes to the RPC service, which runs one operation at a time.

  \<^bold>\<open>Theories\<close>, in the order of their imports.
  \<^item> \<open>Recovery_Prelude\<close>: machine words, failed \<open>CHECK\<close>s (\<open>'a checked\<close>), decimal text, the contract of the text functions of
    libbase (locale \<open>libbase_text\<close>).
  \<^item> \<open>Range_Set\<close>, \<open>Sorted_Range_Set\<close>: the classes of \<open>otautil/rangeset.cpp\<close>, on 64-bit words with their wrap-around. A set of
    ranges stands for the sequence of its blocks (\<open>block_list\<close>); slicing, splitting, insertion, overlap, positions and
    the text form are related to it. Locale \<open>block_index\<close> is what their clients rely on.
  \<^item> \<open>Block_Map\<close>: \<open>ParseBlockMapFile\<close> and \<open>MapBlockFile\<close> of \<open>otautil/sysutil.cpp\<close>. What is accepted is well formed, the text form
    is read back, a mapped address shows its block. Locale \<open>libbase_lines\<close> is the contract of \<open>Trim\<close> and \<open>Split\<close>.
  \<^item> \<open>Fuse_Provider\<close>, \<open>Adb_Provider\<close>: the sources of a sideloaded package, \<open>fuse_sideload/fuse_provider.cpp\<close> and
    \<open>minadbd/fuse_adb_provider.cpp\<close>. Locale \<open>stable_device\<close> is a device that does not change, \<open>block_source\<close> what a provider
    promises; both providers are interpretations of it.
  \<^item> \<open>Fuse_Sideload\<close>: the server loop of \<open>fuse_sideload/fuse_sideload.cpp\<close>: lookup, attributes, open, release, reads across the
    block cache with the hash of every block. Locales \<open>read_server\<close>, \<open>untrusted_source\<close> and \<open>honest_server\<close>: whatever the
    source sends, all reads show one image; with an honest source it is the package.
  \<^item> \<open>Asn1_Decoder\<close>: the DER reader of \<open>otautil/asn1_decoder.cpp\<close>, against a grammar of elements and an encoder.
  \<^item> \<open>Ota_Package\<close>: the package classes of \<open>otautil/package.cpp\<close>; locale \<open>package_source\<close> is the interface that both implement.
  \<^item> \<open>Verifier\<close>: \<open>otautil/verifier.cpp\<close>: the PKCS 7 reader, the whole-file check and the loading of keys. \<open>verify_file\<close> refines a
    specification on the bytes of the package; it accepts only signed packages and accepts what a signer produces.
    Locale \<open>digest\<close> is the contract of the hash functions.
  \<^item> \<open>Bootloader_Message\<close>: \<open>bootloader_message/bootloader_message.cpp\<close>. Every message kind is an interpretation of \<open>misc_store\<close>: it
    writes inside its region and reads back, also after writes of the other kinds.
  \<^item> \<open>Uncrypt\<close>: \<open>uncrypt/uncrypt.cpp\<close>, all services and \<open>main\<close>. Locale \<open>uncrypt_system\<close> is a run whose system calls succeed; the
    ring of buffers writes each block to its place.
  \<^item> \<open>Package_Pipeline\<close>: how uncrypt, the block map parser and the block provider fit together.
  \<^item> \<open>Rpc_Protocol\<close>, \<open>Rpc_Engine\<close>, \<open>Rpc_Session\<close>: the command service, \<open>aera_rpc/\<close>. Operations are programs of calls and events, the
    threads that run them a step relation over the channel, the dispatcher and the log. Locale \<open>json_library\<close> is
    the contract of jsoncpp.
  \<^item> \<open>Gpt_Crc\<close>, \<open>Gpt\<close>: the reader of GUID partition tables, \<open>gpt/gptcrc32.c\<close> and \<open>gpt/gpt.c\<close>. The table-driven checksum is the shift
    register of its polynomial and notices every burst of 32 bits; the search for a table refines a specification
    over the bytes of the disk (\<open>find_table\<close>). \<open>stable_disk\<close> is what is assumed of the kernel, \<open>os_of_disk\<close> a kernel that does
    it for any image.
  \<^item> \<open>Update_Verifier\<close>: \<open>update_verifier/update_verifier.cpp\<close>, the check of a new slot after its first boot. A slot is marked only after
    every block of the care map was read; the groups of \<open>RangeSet\<close> that the reading threads take cover the map.

  \<^bold>\<open>Conventions.\<close> A class or a group of globals is a record, a function of the code a function of the same name that
  returns the new state. \<open>size_t\<close> and \<open>uint32_t\<close> are words and wrap; sizes that the code keeps in \<open>int\<close> without wrapping are
  \<open>int\<close>. A failed \<open>CHECK\<close> is \<open>Abort\<close>; undefined behaviour, a read outside a buffer or a division by zero, is \<open>None\<close>; an error
  return is a value. System calls, libbase, the crypto library, the zip and the JSON library are parameters, or
  outcomes in a record of the environment; what is assumed of them stands in a locale, and each locale has an
  interpretation. Log texts are left out, texts that reach a file or a client are kept.

  \<^bold>\<open>Bounds and fuel.\<close> No function has fuel. Loops are structural or have a termination proof from the quantity the code
  decreases: bytes or blocks left, retries left, buffers in the ring. \<open>wait_for_device\<close> has the retry count of the
  code. Where the kernel supplies an unbounded sequence (requests to the file system, reads of a pipe), the model
  takes a finite list of it, and the theorems hold for every list. Hypotheses on sizes (files below \<open>2 ^ 64\<close> bytes,
  block numbers below \<open>2 ^ 31\<close>) are the ranges of the types in the code.

  \<^bold>\<open>Threads.\<close> In \<open>Rpc_Session\<close> a step is one critical section, one frame of the main loop, one printed text, or one call of a
  worker. \<open>Send_interleaves\<close> shows what this hides: a \<open>Send\<close> is two writes, and printing does not take the
  dispatcher's lock.

  \<^bold>\<open>Not modelled.\<close> The user interface (\<open>aeraui\<close>, \<open>minui\<close>, \<open>minuitwrp\<close>, \<open>recovery_ui\<close>) draws and polls devices; of it only the part of
  a frame that serves the RPC pipes and the printing functions are modelled. The partition manager
  (\<open>partition.cpp\<close>, \<open>partitionmanager.cpp\<close>, \<open>twrp-functions.cpp\<close>, \<open>data.cpp\<close>) is mostly calls of mount, mkfs and external
  programs on the state of the kernel; for the RPC operations its functions are calls with any answer. The
  installers (\<open>install\<close>, \<open>twrpinstall\<close>) start an external updater. \<open>fuse\<close>, \<open>libblkid\<close>, \<open>libtar\<close>, \<open>exfat\<close>, \<open>dosfstools\<close>, \<open>pigz\<close>, \<open>openaes\<close>,
  \<open>libpixelflinger\<close>, \<open>third_party\<close> are imported libraries. \<open>mtp\<close>, \<open>nas\<close>, \<open>aera_remote\<close>, \<open>wlan.cpp\<close> are network and USB services.
\<close>

section \<open>Properties across components\<close>

text \<open>C1. A package that uncrypt has processed is the package the installer reads: on a system whose calls succeed, with
  no stale temporary map, the map file that \<open>ProductBlockMap\<close> publishes is parsed by \<open>ParseBlockMapFile\<close> and
  accepted by \<open>CreateFromBlockMap\<close>, and once its block writes are on the device the provider's content is the
  decrypted file, byte for byte; every request inside the file that the provider's tail computation covers
  delivers those bytes.\<close>

theorem uncrypt_then_install:
  assumes sys: "package_on_device env content bs phys" and "libbase_lines Trim Split" "uw_tmp w = []"
    and "d \<noteq> []" "CHR ''\<newline>'' \<notin> set d" "\<not> is_space (hd d)"
    and "\<forall>k<nblocks content bs. (nat (phys k) + 1) * bs \<le> length dev" "length dev < 2 ^ 64"
    and "open_ok d" "fbs mod of_nat bs = 0"
  shows "\<exists>w' ws p. ProductBlockMap env d True f2fs_fs socket w = Some (Inr (), w') \<and> uw_disk w' = uw_disk w @ ws \<and>
    CreateFromBlockMap open_ok (ParseBlockMapFile Trim Split (uw_map w')) fbs = Ret (Some p) \<and>
    bp_content (apply_writes ws dev) p = content \<and>
    (\<forall>rd k m. stable_device rd (apply_writes ws dev) \<longrightarrow> tail_ok p m k \<longrightarrow> unat k * unat fbs + unat m \<le> length content \<longrightarrow>
       Block_ReadBlockAlignedData rd p m k = Ret (True, take (unat m) (drop (unat k * unat fbs) content)))"
proof -
  obtain w' ws p where p: "ProductBlockMap env d True f2fs_fs socket w = Some (Inr (), w')" "uw_disk w' = uw_disk w @ ws"
      "CreateFromBlockMap open_ok (ParseBlockMapFile Trim Split (uw_map w')) fbs = Ret (Some p)"
      "bp_ok (apply_writes ws dev) p" "bp_content (apply_writes ws dev) p = content"
      "bp_file_size p = of_nat (length content)" "bp_fuse_block_size p = fbs"
    using package_on_device.uncrypt_installs [OF sys assms(2-8), where open_ok = open_ok and fbs = fbs and f2fs_fs = f2fs_fs and socket = socket]
      assms(9,10) by blast
  have "unat (bp_file_size p) = length content" using length_bp_content [OF p(4)] p(5) by simp
  then show ?thesis using p stable_device.Block_read [OF _ p(4)] by (intro exI [of _ w'] exI [of _ ws] exI [of _ p]) auto
qed

theorem uncrypt_then_install_witness:
  "\<exists>w' ws p. ProductBlockMap sample_uenv ''/dev/b'' True False (- 1) sample_world = Some (Inr (), w') \<and> uw_disk w' = ws \<and>
     CreateFromBlockMap (\<lambda>_. True) (ParseBlockMapFile trim_ws split_on (uw_map w')) 4 = Ret (Some p) \<and>
     bp_content (apply_writes ws (replicate 50 0)) p = [1, 2, 3, 4, 5]"
proof -
  have "\<exists>w' ws p. ProductBlockMap sample_uenv ''/dev/b'' True False (- 1) sample_world = Some (Inr (), w') \<and>
     uw_disk w' = uw_disk sample_world @ ws \<and>
     CreateFromBlockMap (\<lambda>_. True) (ParseBlockMapFile trim_ws split_on (uw_map w')) 4 = Ret (Some p) \<and>
     bp_content (apply_writes ws (replicate 50 0)) p = [1, 2, 3, 4, 5] \<and>
    (\<forall>rd k m. stable_device rd (apply_writes ws (replicate 50 0)) \<longrightarrow> tail_ok p m k \<longrightarrow>
       unat k * unat (4 :: u32) + unat m \<le> length ([1, 2, 3, 4, 5] :: bytes) \<longrightarrow>
       Block_ReadBlockAlignedData rd p m k = Ret (True, take (unat m) (drop (unat k * unat (4 :: u32)) [1, 2, 3, 4, 5])))"
    by (rule uncrypt_then_install [OF sample_package.package_on_device_axioms ws_lines.libbase_lines_axioms])
       (simp_all add: sample_world_def sample_phys_def nblocks_def is_space_def nat_le_iff)
  then show ?thesis by (auto simp: sample_world_def)
qed

end
